(* ===== verification/Prelude.thy ===== *)
theory Prelude
  imports Main "HOL-Library.Word" "HOL-Library.Char_ord" "HOL-Library.List_Lexorder"
begin

section \<open>Prelude: exceptions as values, machine types, step machines\<close>

text \<open>
  What every component of the development shares.

  \<^item> C++ exceptions are values of the type \<open>exn\<close>; a function that may throw returns
    \<open>exn + 'a\<close>. \<open>bindr\<close> sequences two such computations the way an exception does: the
    second runs only when the first returned.
  \<^item> The fixed-width integers of the code are words: \<open>u8\<close>, \<open>u32\<close>, \<open>u64\<close>. Their \<open>+\<close> wraps,
    as the unsigned types of C++ do.
  \<^item> \<open>std::string\<close> is a byte string, modelled as \<open>string\<close> (a list of 8-bit characters);
    the order of \<open>List_Lexorder\<close> is that of \<open>std::string::operator<\<close>, which compares
    bytes as unsigned.
  \<^item> \<open>guarded_machine\<close> is the interface of a component whose operations keep an
    invariant: runs of operations keep it too.
\<close>

named_theorems result_simps \<open>rewrite rules for computations that may throw\<close>

type_synonym u8 = "8 word"
type_synonym u32 = "32 word"
type_synonym u64 = "64 word"

lemma of_nat_unat_id [simp]: "(of_nat (unat w) :: 'a :: len word) = w"
  by simp

lemma unat_eq_of_nat: "unat w = n \<Longrightarrow> w = (of_nat n :: 'a :: len word)"
  by auto

lemma unat_less_exp: "unat (w :: 'a :: len word) < 2 ^ LENGTH('a)"
  by (rule unsigned_less)

text \<open>Counting up to a bound of the same type does not wrap.\<close>

lemma unat_Suc_less:
  assumes "(a :: 'a :: len word) < b"
  shows "unat (a + 1) = Suc (unat a)"
proof -
  have "Suc (unat a) \<le> unat b" using assms by (simp add: word_less_nat_alt)
  also have "\<dots> < 2 ^ LENGTH('a)" by (rule unat_less_exp)
  finally have "unat (of_nat (Suc (unat a)) :: 'a word) = Suc (unat a)"
    by (simp add: unsigned_of_nat take_bit_nat_eq_self del: of_nat_Suc)
  then show ?thesis by (simp add: add.commute)
qed

lemma unat_plus_one:
  assumes "(n :: 'a :: len word) + 1 \<noteq> 0"
  shows "unat (n + 1) = Suc (unat n)"
proof -
  have eq: "unat (n + 1) = Suc (unat n) mod 2 ^ LENGTH('a)"
    by (simp add: unsigned_of_nat take_bit_eq_mod unat_word_ariths)
  have "Suc (unat n) \<noteq> 2 ^ LENGTH('a)"
  proof
    assume "Suc (unat n) = 2 ^ LENGTH('a)"
    with eq have "unat (n + 1) = 0" by simp
    with assms show False by (simp only: unat_eq_0)
  qed
  moreover have "unat n < 2 ^ LENGTH('a)" by (rule unat_less_exp)
  ultimately have "Suc (unat n) < 2 ^ LENGTH('a)" by linarith
  with eq show ?thesis by simp
qed

lemma less_plus_one: "(n :: 'a :: len word) + 1 \<noteq> 0 \<Longrightarrow> i < n + 1 \<longleftrightarrow> i \<le> n"
  by (simp add: word_less_nat_alt word_le_nat_alt unat_plus_one less_Suc_eq_le)

subsection \<open>Exceptions as values\<close>

datatype exn =
    Codec_error string          \<comment> \<open>convex::codec_error\<close>
  | Protocol_error string       \<comment> \<open>convex::protocol_error\<close>
  | Invalid_argument string     \<comment> \<open>std::invalid_argument\<close>
  | Type_error string           \<comment> \<open>convex::type_error\<close>
  | Out_of_range string         \<comment> \<open>std::out_of_range\<close>
  | Json_exception string       \<comment> \<open>nlohmann::json::exception\<close>
  | Undefined_behaviour string  \<comment> \<open>the C++ standard gives the operation no meaning\<close>

type_synonym 'a result = "exn + 'a"

fun exn_what :: "exn \<Rightarrow> string" where
  "exn_what (Codec_error m) = m"
| "exn_what (Protocol_error m) = m"
| "exn_what (Invalid_argument m) = m"
| "exn_what (Type_error m) = m"
| "exn_what (Out_of_range m) = m"
| "exn_what (Json_exception m) = m"
| "exn_what (Undefined_behaviour m) = m"

fun bindr :: "'e + 'a \<Rightarrow> ('a \<Rightarrow> 'e + 'b) \<Rightarrow> 'e + 'b" where
  "bindr (Inl e) f = Inl e"
| "bindr (Inr x) f = f x"

lemma bindr_cong [fundef_cong]:
  "m = m' \<Longrightarrow> (\<And>x. m' = Inr x \<Longrightarrow> f x = g x) \<Longrightarrow> bindr m f = bindr m' g"
  by (cases m') auto

lemma bindr_eq_Inr [result_simps]: "bindr m f = Inr y \<longleftrightarrow> (\<exists>x. m = Inr x \<and> f x = Inr y)"
  by (cases m) auto

lemma bindr_eq_Inl [result_simps]:
  "bindr m f = Inl e \<longleftrightarrow> m = Inl e \<or> (\<exists>x. m = Inr x \<and> f x = Inl e)"
  by (cases m) auto

lemma bindr_assoc: "bindr (bindr m f) g = bindr m (\<lambda>x. bindr (f x) g)"
  by (cases m) auto

text \<open>\<open>try { m } catch (const codec_error& e) { throw h(e.what()); }\<close>\<close>

fun catch_codec :: "'a result \<Rightarrow> (string \<Rightarrow> exn) \<Rightarrow> 'a result" where
  "catch_codec (Inl (Codec_error w)) h = Inl (h w)"
| "catch_codec r h = r"

lemma catch_codec_eq_Inr [result_simps]: "catch_codec r h = Inr x \<longleftrightarrow> r = Inr x"
  by (cases "(r, h)" rule: catch_codec.cases) auto

definition is_ok :: "'e + 'a \<Rightarrow> bool" where
  "is_ok r \<longleftrightarrow> (case r of Inl _ \<Rightarrow> False | Inr _ \<Rightarrow> True)"

lemma is_ok_simps [simp]: "is_ok (Inr x)" "\<not> is_ok (Inl e)"
  by (simp_all add: is_ok_def)

subsection \<open>Strings\<close>

text \<open>\<open>std::string::ends_with\<close>, \<open>find\<close> of a substring, and \<open>std::to_string\<close>.\<close>

definition ends_with :: "string \<Rightarrow> string \<Rightarrow> bool" where
  "ends_with s suf \<longleftrightarrow> length suf \<le> length s \<and> drop (length s - length suf) s = suf"

fun starts_with :: "string \<Rightarrow> string \<Rightarrow> bool" where
  "starts_with s [] = True"
| "starts_with [] (p # ps) = False"
| "starts_with (c # s) (p # ps) = (c = p \<and> starts_with s ps)"

text \<open>\<open>find_sub s pat\<close>: the position of the first occurrence, \<open>None\<close> for \<open>npos\<close>.\<close>

fun find_sub :: "string \<Rightarrow> string \<Rightarrow> nat option" where
  "find_sub [] pat = (if pat = [] then Some 0 else None)"
| "find_sub (c # s) pat =
     (if starts_with (c # s) pat then Some 0 else map_option Suc (find_sub s pat))"

fun dec_digits :: "nat \<Rightarrow> string" where
  "dec_digits n =
     (if n < 10 then [char_of (48 + n)] else dec_digits (n div 10) @ [char_of (48 + n mod 10)])"

declare dec_digits.simps [simp del]

definition int_to_string :: "int \<Rightarrow> string" where
  "int_to_string i = (if i < 0 then ''-'' @ dec_digits (nat (- i)) else dec_digits (nat i))"

lemma ends_with_iff: "ends_with s suf \<longleftrightarrow> (\<exists>p. s = p @ suf)"
  unfolding ends_with_def
  by (metis append_take_drop_id append_eq_conv_conj diff_add_inverse2 le_add2 length_append)

lemma starts_with_iff: "starts_with s pre \<longleftrightarrow> (\<exists>t. s = pre @ t)"
  by (induction s pre rule: starts_with.induct) auto

lemma starts_with_append [simp]: "starts_with (pre @ t) pre"
  by (auto simp: starts_with_iff)

lemma find_sub_Some:
  "find_sub s pat = Some i \<Longrightarrow> i + length pat \<le> length s \<and> take (length pat) (drop i s) = pat"
proof (induction s pat arbitrary: i rule: find_sub.induct)
  case (2 c s pat)
  show ?case
  proof (cases "starts_with (c # s) pat")
    case True
    then obtain t where "c # s = pat @ t" by (auto simp: starts_with_iff)
    with True 2 show ?thesis by (metis append_eq_conv_conj drop0 find_sub.simps(2) le_add1
          length_append option.inject plus_nat.add_0)
  qed (use 2 in auto)
qed (auto split: if_splits)

lemma find_sub_present: "find_sub (a @ pat @ b) pat \<noteq> None"
proof (induction a)
  case Nil
  have "starts_with (pat @ b) pat" by simp
  then show ?case by (cases "pat @ b") auto
next
  case (Cons c a)
  then show ?case by auto
qed

text \<open>\<open>vector::erase\<close> at a position.\<close>

definition drop_nth :: "nat \<Rightarrow> 'a list \<Rightarrow> 'a list" where
  "drop_nth n xs = take n xs @ drop (Suc n) xs"

subsection \<open>Machines with an invariant\<close>

text \<open>
  A component is a step function on its state. \<open>run\<close> applies a list of operations; \<open>ok_run\<close>
  says that every operation is enabled (its precondition \<open>ok\<close> holds) where it is applied.
\<close>

fun run :: "('s \<Rightarrow> 'op \<Rightarrow> 's) \<Rightarrow> 's \<Rightarrow> 'op list \<Rightarrow> 's" where
  "run step s [] = s"
| "run step s (a # as) = run step (step s a) as"

fun ok_run :: "('s \<Rightarrow> 'op \<Rightarrow> 's) \<Rightarrow> ('s \<Rightarrow> 'op \<Rightarrow> bool) \<Rightarrow> 's \<Rightarrow> 'op list \<Rightarrow> bool" where
  "ok_run step ok s [] = True"
| "ok_run step ok s (a # as) = (ok s a \<and> ok_run step ok (step s a) as)"

lemma run_append: "run step s (as @ bs) = run step (run step s as) bs"
  by (induction as arbitrary: s) auto

lemma ok_run_append:
  "ok_run step ok s (as @ bs) \<longleftrightarrow> ok_run step ok s as \<and> ok_run step ok (run step s as) bs"
  by (induction as arbitrary: s) auto

locale guarded_machine =
  fixes step :: "'s \<Rightarrow> 'op \<Rightarrow> 's"
    and ok :: "'s \<Rightarrow> 'op \<Rightarrow> bool"
    and inv :: "'s \<Rightarrow> bool"
  assumes step_keeps: "inv s \<Longrightarrow> ok s a \<Longrightarrow> inv (step s a)"
begin

lemma run_keeps: "inv s \<Longrightarrow> ok_run step ok s as \<Longrightarrow> inv (run step s as)"
  by (induction as arbitrary: s) (auto intro: step_keeps)

text \<open>A quantity that no enabled step decreases never decreases over a run.\<close>

lemma run_mono:
  fixes m :: "'s \<Rightarrow> 'b :: order"
  assumes mono: "\<And>s a. inv s \<Longrightarrow> ok s a \<Longrightarrow> m s \<le> m (step s a)"
  shows "inv s \<Longrightarrow> ok_run step ok s as \<Longrightarrow> m s \<le> m (run step s as)"
proof (induction as arbitrary: s)
  case Nil
  then show ?case by simp
next
  case (Cons a as)
  then have "m s \<le> m (step s a)" by (simp add: mono)
  also have "\<dots> \<le> m (run step (step s a) as)"
    using Cons by (simp add: step_keeps)
  finally show ?case by simp
qed

end

end
