(* ===== verification/Base64.thy ===== *)
theory Base64
  imports Prelude
begin

unbundle bit_operations_syntax

section \<open>Base64 (\<open>src/detail/base64.cpp\<close>)\<close>

text \<open>
  Standard-alphabet base64 with padding, the carrier of \<open>$integer\<close>, \<open>$float\<close>, \<open>$bytes\<close> and
  of timestamps. The encoder packs three bytes in a 32-bit accumulator; the decoder shifts
  four sextets into one and emits one to three bytes, by the position of the last character
  that was not padding. The interface \<open>codec\<close> says what the users of an encoding rely on.
\<close>

subsection \<open>The interface of an encoding\<close>

locale codec =
  fixes enc :: "'a \<Rightarrow> 'w"
    and dec :: "'w \<Rightarrow> exn + 'a"
    and valid :: "'a \<Rightarrow> bool"
  assumes dec_enc: "valid x \<Longrightarrow> dec (enc x) = Inr x"
begin

lemma enc_inj: "valid x \<Longrightarrow> valid y \<Longrightarrow> enc x = enc y \<longleftrightarrow> x = y"
  by (metis dec_enc sum.inject(2))

lemma dec_enc_iff: "valid x \<Longrightarrow> dec (enc x) = Inr y \<longleftrightarrow> x = y"
  by (simp add: dec_enc)

lemma enc_not_error: "valid x \<Longrightarrow> dec (enc x) \<noteq> Inl e"
  by (simp add: dec_enc)

end

text \<open>Two encodings in sequence, the outer one possibly with its errors renamed, are an encoding.\<close>

locale codec_sequence =
  inner: codec enc1 dec1 valid1 + outer: codec enc2 dec2 valid2
  for enc1 :: "'a \<Rightarrow> 'b" and dec1 :: "'b \<Rightarrow> exn + 'a" and valid1 :: "'a \<Rightarrow> bool"
    and enc2 :: "'b \<Rightarrow> 'w" and dec2 :: "'w \<Rightarrow> exn + 'b" and valid2 :: "'b \<Rightarrow> bool" +
  assumes valid_through: "valid1 x \<Longrightarrow> valid2 (enc1 x)"
begin

sublocale seq: codec "\<lambda>x. enc2 (enc1 x)" "\<lambda>t. bindr (dec2 t) dec1" valid1
  by unfold_locales (simp add: valid_through inner.dec_enc outer.dec_enc)

end

subsection \<open>The tables\<close>

definition k_alphabet :: string where
  "k_alphabet = ''ABCDEFGHIJKLMNOPQRSTUVWXYZabcdefghijklmnopqrstuvwxyz0123456789+/''"

definition make_reverse_table :: "int list" where
  "make_reverse_table =
     fold (\<lambda>i table. table[of_char (k_alphabet ! i) := int i]) [0..<64] (replicate 256 (- 1))"

definition k_reverse :: "char \<Rightarrow> int" where
  "k_reverse c = make_reverse_table ! of_char c"

text \<open>The table inverts the alphabet, and maps every other character to \<open>-1\<close>.\<close>

lemma fold_table_nth:
  assumes "inj_on f {..<n}" "\<And>i. i < n \<Longrightarrow> f i < length table"
  shows "fold (\<lambda>i t. t[f i := g i]) [0..<n] table ! x =
    (if x \<in> f ` {..<n} then g (the_inv_into {..<n} f x) else table ! x)"
  using assms
proof (induction n)
  case (Suc n)
  have inj: "inj_on f {..<n}" and fn: "f n \<notin> f ` {..<n}"
    using Suc.prems(1) by (auto simp: lessThan_Suc inj_on_insert)
  have len: "length (fold (\<lambda>i t. t[f i := g i]) [0..<k] table) = length table" for k
    by (induction k) auto
  have inv: "the_inv_into {..<k} f (f i) = i" if "inj_on f {..<k}" "i < k" for k i
    using that by (intro the_inv_into_f_f) auto
  show ?case
  proof (cases "x = f n")
    case True
    then show ?thesis
      using Suc.prems len inv [OF Suc.prems(1), of n] by (auto simp: lessThan_Suc)
  next
    case False
    have "the_inv_into {..<Suc n} f x = the_inv_into {..<n} f x" if "x \<in> f ` {..<n}"
      using that inv [OF inj] inv [OF Suc.prems(1)] by auto
    with False Suc.IH [OF inj] Suc.prems show ?thesis
      by (auto simp: lessThan_Suc)
  qed
qed simp

lemma distinct_k_alphabet: "distinct k_alphabet" and length_k_alphabet: "length k_alphabet = 64"
  by (simp_all add: k_alphabet_def)

lemma inj_alphabet_codes: "inj_on (\<lambda>i. of_char (k_alphabet ! i) :: nat) {..<64}"
  using distinct_k_alphabet length_k_alphabet by (auto simp: inj_on_def nth_eq_iff_index_eq)

lemma k_reverse_alphabet [simp]: "i < 64 \<Longrightarrow> k_reverse (k_alphabet ! i) = int i"
  unfolding k_reverse_def make_reverse_table_def
  by (subst fold_table_nth [OF inj_alphabet_codes])
    (auto simp: the_inv_into_f_f [OF inj_alphabet_codes])

lemma k_reverse_other: "c \<notin> set k_alphabet \<Longrightarrow> k_reverse c = - 1"
  unfolding k_reverse_def make_reverse_table_def
  by (subst fold_table_nth [OF inj_alphabet_codes])
    (auto simp: image_iff in_set_conv_nth length_k_alphabet)

lemma k_reverse_code [code]:
  "k_reverse c = (case map_of (zip k_alphabet (map int [0..<64])) c of None \<Rightarrow> - 1 | Some d \<Rightarrow> d)"
proof (cases "c \<in> set k_alphabet")
  case True
  then obtain i where "i < 64" "c = k_alphabet ! i"
    by (auto simp: in_set_conv_nth length_k_alphabet)
  then show ?thesis
    by (simp add: map_of_zip_nth length_k_alphabet distinct_k_alphabet)
next
  case False
  then have "map_of (zip k_alphabet (map int [0..<64])) c = None"
    by (simp add: map_of_zip_is_None length_k_alphabet)
  with False show ?thesis by (simp add: k_reverse_other)
qed

lemma pad_not_in_alphabet: "CHR ''='' \<notin> set k_alphabet"
  by (simp add: k_alphabet_def)

lemma k_alphabet_not_pad [simp]:
  "i < 64 \<Longrightarrow> k_alphabet ! i \<noteq> CHR ''=''" "i < 64 \<Longrightarrow> CHR ''='' \<noteq> k_alphabet ! i"
  using pad_not_in_alphabet length_k_alphabet by (metis nth_mem)+

subsection \<open>Encoding\<close>

definition sextet :: "u32 \<Rightarrow> nat \<Rightarrow> char" where
  "sextet n k = k_alphabet ! unat (drop_bit k n AND 63)"

fun base64_encode :: "u8 list \<Rightarrow> string" where
  "base64_encode (a # b # c # rest) =
     (let n = (push_bit 16 (ucast a) OR push_bit 8 (ucast b)) OR ucast c
      in [sextet n 18, sextet n 12, sextet n 6, sextet n 0] @ base64_encode rest)"
| "base64_encode [a, b] =
     (let n = push_bit 16 (ucast a) OR push_bit 8 (ucast b)
      in [sextet n 18, sextet n 12, sextet n 6, CHR ''=''])"
| "base64_encode [a] =
     (let n = push_bit 16 (ucast a) in [sextet n 18, sextet n 12, CHR ''='', CHR ''=''])"
| "base64_encode [] = []"

subsection \<open>Decoding\<close>

text \<open>
  The inner loop over the four characters of a quantum: \<open>fin\<close> says that the quantum is the
  last one, \<open>c3\<close> is its fourth character, \<open>j\<close> the position of the next character, \<open>n\<close> the
  accumulator and \<open>valid\<close> one more than the position of the last character that was not
  padding.
\<close>

fun decode_quantum :: "bool \<Rightarrow> char \<Rightarrow> nat \<Rightarrow> string \<Rightarrow> u32 \<Rightarrow> nat \<Rightarrow> (u32 \<times> nat) result" where
  "decode_quantum fin c3 j [] n valid = Inr (n, valid)"
| "decode_quantum fin c3 j (c # cs) n valid =
     (if c = CHR ''='' then
        if \<not> fin \<or> (j = 2 \<and> c3 \<noteq> CHR ''='')
        then Inl (Invalid_argument ''base64: unexpected padding'')
        else decode_quantum fin c3 (Suc j) cs (push_bit 6 n) valid
      else
        (let d = k_reverse c
         in if d < 0 then Inl (Invalid_argument ''base64: invalid character'')
            else decode_quantum fin c3 (Suc j) cs (push_bit 6 n OR word_of_int d) (Suc j)))"

definition quantum_bytes :: "u32 \<Rightarrow> nat \<Rightarrow> u8 list" where
  "quantum_bytes n valid =
     [ucast (drop_bit 16 n AND 0xff)]
     @ (if 3 \<le> valid then [ucast (drop_bit 8 n AND 0xff)] else [])
     @ (if valid = 4 then [ucast (n AND 0xff)] else [])"

fun decode_quanta :: "string \<Rightarrow> u8 list result" where
  "decode_quanta (c0 # c1 # c2 # c3 # rest) =
     bindr (decode_quantum (rest = []) c3 0 [c0, c1, c2, c3] 0 0) (\<lambda>(n, valid).
     bindr (decode_quanta rest) (\<lambda>out. Inr (quantum_bytes n valid @ out)))"
| "decode_quanta _ = Inr []"

definition base64_decode :: "string \<Rightarrow> u8 list result" where
  "base64_decode t =
     (if length t mod 4 \<noteq> 0
      then Inl (Invalid_argument ''base64: length not a multiple of 4'')
      else decode_quanta t)"

subsection \<open>Round trip\<close>

lemma u8_eqI:
  fixes x y :: u8
  assumes "bit x 0 = bit y 0" "bit x 1 = bit y 1" "bit x 2 = bit y 2" "bit x 3 = bit y 3"
    and "bit x 4 = bit y 4" "bit x 5 = bit y 5" "bit x 6 = bit y 6" "bit x 7 = bit y 7"
  shows "x = y"
proof (rule bit_word_eqI)
  fix n
  assume "n < LENGTH(8)"
  then have "n \<in> {0, 1, 2, 3, 4, 5, 6, 7}" by auto
  with assms show "bit x n = bit y n" by auto
qed

lemma sextet_bound: "unat ((x :: u32) AND 63) < 64"
proof -
  have "unat (x AND 63) \<le> unat (63 :: u32)"
    by (rule word_and_le1 [THEN word_le_nat_alt [THEN iffD1]])
  then show ?thesis by simp
qed

lemma sextet_not_pad [simp]: "sextet n k \<noteq> CHR ''=''"
  by (simp add: sextet_def sextet_bound)

lemma k_reverse_sextet [simp]:
  "k_reverse (sextet n k) = int (unat (drop_bit k n AND 63))"
  by (simp add: sextet_def sextet_bound)

lemma word_of_int_sextet [simp]:
  "word_of_int (int (unat (drop_bit k (n :: u32) AND 63))) = drop_bit k n AND 63"
  by simp

lemma bit_63: "bit (63 :: u32) i \<longleftrightarrow> i < 6"
proof -
  have eq: "mask 6 = (63 :: u32)" by (simp add: mask_eq_exp_minus_1)
  have "bit (mask 6 :: u32) i \<longleftrightarrow> i < 6" by (subst bit_mask_iff) auto
  then show ?thesis by (simp only: eq)
qed

lemma bit_255: "bit (255 :: u32) i \<longleftrightarrow> i < 8"
proof -
  have eq: "mask 8 = (255 :: u32)" by (simp add: mask_eq_exp_minus_1)
  have "bit (mask 8 :: u32) i \<longleftrightarrow> i < 8" by (subst bit_mask_iff) auto
  then show ?thesis by (simp only: eq)
qed

lemma bit_u8_high: "8 \<le> i \<Longrightarrow> \<not> bit (x :: u8) i"
  by (auto dest: bit_imp_le_length)

lemmas quantum_bits = bit_simps bit_63 bit_255 bit_u8_high

text \<open>The bytes a quantum of four, three or two sextets of the accumulator decodes to.\<close>

lemma quantum_three:
  fixes a b c :: u8
  defines "n \<equiv> (push_bit 16 (ucast a) OR push_bit 8 (ucast b)) OR ucast c :: u32"
  defines "m \<equiv> push_bit 6 (push_bit 6 (push_bit 6 (drop_bit 18 n AND 63)
    OR (drop_bit 12 n AND 63)) OR (drop_bit 6 n AND 63)) OR (drop_bit 0 n AND 63)"
  shows "quantum_bytes m 4 = [a, b, c]"
  unfolding quantum_bytes_def n_def m_def
  by (simp, intro conjI; rule u8_eqI; simp add: quantum_bits)

lemma quantum_two:
  fixes a b :: u8
  defines "n \<equiv> push_bit 16 (ucast a) OR push_bit 8 (ucast b) :: u32"
  defines "m \<equiv> push_bit 6 (push_bit 6 (push_bit 6 (drop_bit 18 n AND 63)
    OR (drop_bit 12 n AND 63)) OR (drop_bit 6 n AND 63))"
  shows "quantum_bytes m 3 = [a, b]"
  unfolding quantum_bytes_def n_def m_def
  by (simp, intro conjI; rule u8_eqI; simp add: quantum_bits)

lemma quantum_one:
  fixes a :: u8
  defines "n \<equiv> push_bit 16 (ucast a) :: u32"
  defines "m \<equiv> push_bit 6 (push_bit 6 (push_bit 6 (drop_bit 18 n AND 63)
    OR (drop_bit 12 n AND 63)))"
  shows "quantum_bytes m 2 = [a]"
  unfolding quantum_bytes_def n_def m_def
  by (simp, rule u8_eqI; simp add: quantum_bits)

lemma decode_quantum_three:
  "decode_quantum fin c3 0 [sextet n 18, sextet n 12, sextet n 6, sextet n 0] 0 0 =
     Inr (push_bit 6 (push_bit 6 (push_bit 6 (drop_bit 18 n AND 63)
       OR (drop_bit 12 n AND 63)) OR (drop_bit 6 n AND 63)) OR (drop_bit 0 n AND 63), 4)"
  by (simp del: drop_bit_0)

lemma decode_quantum_two:
  "decode_quantum True (CHR ''='') 0 [sextet n 18, sextet n 12, sextet n 6, CHR ''=''] 0 0 =
     Inr (push_bit 6 (push_bit 6 (push_bit 6 (drop_bit 18 n AND 63)
       OR (drop_bit 12 n AND 63)) OR (drop_bit 6 n AND 63)), 3)"
  by simp

lemma decode_quantum_one:
  "decode_quantum True (CHR ''='') 0 [sextet n 18, sextet n 12, CHR ''='', CHR ''=''] 0 0 =
     Inr (push_bit 6 (push_bit 6 (push_bit 6 (drop_bit 18 n AND 63)
       OR (drop_bit 12 n AND 63))), 2)"
  by simp

lemma length_base64_encode: "length (base64_encode bs) = 4 * ((length bs + 2) div 3)"
proof (induction bs rule: base64_encode.induct)
  case (1 a b c rest)
  have "(length (a # b # c # rest) + 2) div 3 = Suc ((length rest + 2) div 3)" by simp
  with 1 show ?case by (simp add: Let_def)
qed (simp_all add: Let_def)

lemma base64_encode_eq_Nil [simp]: "base64_encode bs = [] \<longleftrightarrow> bs = []"
  by (cases bs rule: base64_encode.cases) (auto simp: Let_def)

lemma decode_quanta_encode: "decode_quanta (base64_encode bs) = Inr bs"
proof (induction bs rule: base64_encode.induct)
  case (1 a b c rest)
  define n :: u32 where "n = (push_bit 16 (ucast a) OR push_bit 8 (ucast b)) OR ucast c"
  have "base64_encode (a # b # c # rest) =
      [sextet n 18, sextet n 12, sextet n 6, sextet n 0] @ base64_encode rest"
    by (simp add: Let_def n_def)
  then show ?case
    using 1 [OF n_def]
    by (simp only: append.simps decode_quanta.simps decode_quantum_three bindr.simps split
        quantum_three [of a b c, folded n_def])
next
  case (2 a b)
  define n :: u32 where "n = push_bit 16 (ucast a) OR push_bit 8 (ucast b)"
  have "base64_encode [a, b] = [sextet n 18, sextet n 12, sextet n 6, CHR ''='']"
    by (simp add: Let_def n_def)
  then show ?case
    by (simp only: decode_quanta.simps decode_quantum_two bindr.simps split append_Nil2 simp_thms
        quantum_two [of a b, folded n_def])
next
  case (3 a)
  define n :: u32 where "n = push_bit 16 (ucast a)"
  have "base64_encode [a] = [sextet n 18, sextet n 12, CHR ''='', CHR ''='']"
    by (simp add: Let_def n_def)
  then show ?case
    by (simp only: decode_quanta.simps decode_quantum_one bindr.simps split append_Nil2 simp_thms
        quantum_one [of a, folded n_def])
qed simp

interpretation b64: codec base64_encode base64_decode "\<lambda>_. True"
  by unfold_locales (simp add: base64_decode_def length_base64_encode decode_quanta_encode)

text \<open>
  \<open>C39\<close>. Decoding what the encoder wrote returns the bytes, for byte strings of every length
  and content; hence no two byte strings have the same encoding, and an encoding has four
  characters for every started group of three bytes.
\<close>

theorem base64_roundtrip:
  "base64_decode (base64_encode bs) = Inr bs
   \<and> (base64_encode bs = base64_encode cs \<longleftrightarrow> bs = cs)
   \<and> length (base64_encode bs) = 4 * ((length bs + 2) div 3)"
  by (simp add: b64.dec_enc b64.enc_inj length_base64_encode)

subsection \<open>What the decoder accepts\<close>

text \<open>
  The decoder's own notion of a well-formed text: a quantum other than the last holds four
  characters of the alphabet; the last may hold \<open>=\<close> at any position, except that an \<open>=\<close> in
  the third position forces one in the fourth.
\<close>

fun quanta_accepted :: "string \<Rightarrow> bool" where
  "quanta_accepted (c0 # c1 # c2 # c3 # rest) =
     (list_all (\<lambda>c. 0 \<le> k_reverse c \<or> (c = CHR ''='' \<and> rest = [])) [c0, c1, c2, c3]
      \<and> \<not> (c2 = CHR ''='' \<and> c3 \<noteq> CHR ''='') \<and> quanta_accepted rest)"
| "quanta_accepted _ = True"

lemma k_reverse_pad [simp]: "k_reverse (CHR ''='') = - 1"
  by (simp add: k_reverse_other pad_not_in_alphabet)

lemma k_reverse_nonneg_not_pad [dest]: "0 \<le> k_reverse c \<Longrightarrow> c \<noteq> CHR ''=''"
  by auto

lemma decode_quantum_ok:
  "is_ok (decode_quantum fin c3 0 [c0, c1, c2, c3] n v) \<longleftrightarrow>
     list_all (\<lambda>c. 0 \<le> k_reverse c \<or> (c = CHR ''='' \<and> fin)) [c0, c1, c2, c3]
     \<and> \<not> (c2 = CHR ''='' \<and> c3 \<noteq> CHR ''='')"
  by (auto simp: Let_def)

lemma is_ok_bindr: "is_ok (bindr m f) \<longleftrightarrow> (\<exists>x. m = Inr x \<and> is_ok (f x))"
  by (cases m) auto

lemma is_ok_iff: "is_ok m \<longleftrightarrow> (\<exists>x. m = Inr x)"
  by (cases m) auto

lemma decode_quanta_ok: "is_ok (decode_quanta t) \<longleftrightarrow> quanta_accepted t"
proof (induction t rule: quanta_accepted.induct)
  case (1 c0 c1 c2 c3 rest)
  have "is_ok (decode_quanta (c0 # c1 # c2 # c3 # rest)) \<longleftrightarrow>
    is_ok (decode_quantum (rest = []) c3 0 [c0, c1, c2, c3] 0 0) \<and> is_ok (decode_quanta rest)"
    by (auto simp: is_ok_bindr is_ok_iff result_simps simp del: decode_quantum.simps)
  also have "\<dots> \<longleftrightarrow> quanta_accepted (c0 # c1 # c2 # c3 # rest)"
    using 1 by (simp add: decode_quantum_ok del: decode_quantum.simps)
  finally show ?case .
qed auto

lemma decode_quanta_length:
  "decode_quanta t = Inr bs \<Longrightarrow>
     length t div 4 \<le> length bs \<and> length bs \<le> 3 * (length t div 4)"
proof (induction t arbitrary: bs rule: quanta_accepted.induct)
  case (1 c0 c1 c2 c3 rest)
  from "1.prems" obtain n v out where
    "decode_quanta rest = Inr out" "bs = quantum_bytes n v @ out"
    by (auto simp: result_simps simp del: decode_quantum.simps)
  moreover have "length (c0 # c1 # c2 # c3 # rest) div 4 = Suc (length rest div 4)"
    by simp
  ultimately show ?case
    using "1.IH" [of out] by (auto simp: quantum_bytes_def simp del: div_less div_eq_dividend_iff)
qed auto

lemma decode_quantum_error:
  "decode_quantum fin c3 j cs n v = Inl e \<Longrightarrow> \<exists>m. e = Invalid_argument m"
  by (induction fin c3 j cs n v rule: decode_quantum.induct) (auto simp: Let_def split: if_splits)

lemma decode_quanta_error: "decode_quanta t = Inl e \<Longrightarrow> \<exists>m. e = Invalid_argument m"
proof (induction t arbitrary: e rule: quanta_accepted.induct)
  case (1 c0 c1 c2 c3 rest)
  then show ?case
    by (auto simp: result_simps simp del: decode_quantum.simps dest: decode_quantum_error)
qed auto

text \<open>
  \<open>C40\<close>. Exactly which texts the decoder accepts, and how many bytes it can return: between
  one and three for every four characters. A consequence the header of the file does not
  promise: malformed padding is accepted, \<open>====\<close> as one zero byte and \<open>=AAA\<close> as three.
\<close>

theorem base64_decode_accepts:
  "(is_ok (base64_decode t) \<longleftrightarrow> length t mod 4 = 0 \<and> quanta_accepted t)
   \<and> (case base64_decode t of
        Inl e \<Rightarrow> (\<exists>m. e = Invalid_argument m)
      | Inr bs \<Rightarrow> length t \<le> 4 * length bs \<and> 4 * length bs \<le> 3 * length t)
   \<and> base64_decode ''===='' = Inr [0] \<and> base64_decode ''=AAA'' = Inr [0, 0, 0]"
proof -
  have len: "length t \<le> 4 * length bs \<and> 4 * length bs \<le> 3 * length t"
    if "length t mod 4 = 0" "decode_quanta t = Inr bs" for bs
  proof -
    have "length t = 4 * (length t div 4)" using that(1) by auto
    with decode_quanta_length [OF that(2)] show ?thesis by linarith
  qed
  have err: "\<exists>m. e = Invalid_argument m" if "decode_quanta t = Inl e" for e
    using decode_quanta_error [OF that] .
  have "is_ok (base64_decode t) \<longleftrightarrow> length t mod 4 = 0 \<and> quanta_accepted t"
    by (simp add: base64_decode_def decode_quanta_ok)
  moreover have "case base64_decode t of Inl e \<Rightarrow> (\<exists>m. e = Invalid_argument m)
      | Inr bs \<Rightarrow> length t \<le> 4 * length bs \<and> 4 * length bs \<le> 3 * length t"
  proof (cases "length t mod 4 = 0")
    case True
    then have "base64_decode t = decode_quanta t" by (simp add: base64_decode_def)
    then show ?thesis using len [OF True] err by (cases "decode_quanta t") simp_all
  qed (simp add: base64_decode_def)
  moreover have "base64_decode ''===='' = Inr [0]" "base64_decode ''=AAA'' = Inr [0, 0, 0]"
    by code_simp+
  ultimately show ?thesis by blast
qed

end
