(* ===== verification/OrdMap.thy ===== *)
theory OrdMap
  imports Prelude
begin

section \<open>Ordered maps\<close>

text \<open>
  \<open>std::map\<close> as an association list with strictly increasing keys. Iteration order is the
  list order, which the code relies on (requests are resent in ascending id order, query-set
  tokens and object fields are written in key order). \<open>map_of\<close> is \<open>find\<close>, \<open>om_insert\<close> is
  \<open>insert_or_assign\<close> (and \<open>operator[] =\<close>), \<open>om_emplace\<close> is \<open>emplace\<close>, which keeps an entry
  that is already there, and \<open>om_erase\<close> is \<open>erase(key)\<close>.
\<close>

type_synonym ('k, 'v) omap = "('k \<times> 'v) list"

definition om_keys :: "('k, 'v) omap \<Rightarrow> 'k list" where
  "om_keys m = map fst m"

definition om_wf :: "('k :: linorder, 'v) omap \<Rightarrow> bool" where
  "om_wf m \<longleftrightarrow> sorted_wrt (<) (map fst m)"

fun om_insert :: "'k :: linorder \<Rightarrow> 'v \<Rightarrow> ('k, 'v) omap \<Rightarrow> ('k, 'v) omap" where
  "om_insert k v [] = [(k, v)]"
| "om_insert k v ((k', v') # m) =
     (if k < k' then (k, v) # (k', v') # m
      else if k = k' then (k, v) # m
      else (k', v') # om_insert k v m)"

definition om_emplace :: "'k :: linorder \<Rightarrow> 'v \<Rightarrow> ('k, 'v) omap \<Rightarrow> ('k, 'v) omap" where
  "om_emplace k v m = (case map_of m k of None \<Rightarrow> om_insert k v m | Some _ \<Rightarrow> m)"

definition om_erase :: "'k \<Rightarrow> ('k, 'v) omap \<Rightarrow> ('k, 'v) omap" where
  "om_erase k m = filter (\<lambda>(k', _). k' \<noteq> k) m"

subsection \<open>Lookups\<close>

lemma map_of_om_insert [simp]: "map_of (om_insert k v m) = (map_of m)(k \<mapsto> v)"
  by (induction m) (auto simp: fun_eq_iff)

lemma map_of_om_erase [simp]: "map_of (om_erase k m) = (map_of m)(k := None)"
  by (induction m) (auto simp: fun_eq_iff om_erase_def)

lemma map_of_om_emplace [simp]:
  "map_of (om_emplace k v m) = (case map_of m k of None \<Rightarrow> (map_of m)(k \<mapsto> v) | Some _ \<Rightarrow> map_of m)"
  by (simp add: om_emplace_def split: option.split)

lemma om_erase_Nil [simp]: "om_erase k [] = []"
  by (simp add: om_erase_def)

lemma om_emplace_fresh: "map_of m k = None \<Longrightarrow> om_emplace k v m = om_insert k v m"
  by (simp add: om_emplace_def)

lemma set_om_erase: "set (om_erase k m) = {e \<in> set m. fst e \<noteq> k}"
  by (auto simp: om_erase_def)

lemma keys_om_insert: "fst ` set (om_insert k v m) = insert k (fst ` set m)"
proof (induction m)
  case (Cons e m)
  then show ?case by (cases e) (auto simp: image_iff)
qed simp

lemma set_om_insert_subset: "set (om_insert k v m) \<subseteq> insert (k, v) (set m)"
  by (induction m) (auto split: if_splits)

subsection \<open>Well-formedness\<close>

lemma om_wf_Nil [simp]: "om_wf []"
  by (simp add: om_wf_def)

lemma om_wf_Cons: "om_wf ((k, v) # m) \<longleftrightarrow> (\<forall>k' \<in> fst ` set m. k < k') \<and> om_wf m"
  by (auto simp: om_wf_def)

lemma om_wf_insert [intro, simp]: "om_wf m \<Longrightarrow> om_wf (om_insert k v m)"
proof (induction m)
  case (Cons e m)
  then show ?case by (cases e) (auto simp: om_wf_Cons keys_om_insert)
qed (simp add: om_wf_Cons)

lemma om_wf_erase [intro, simp]: "om_wf m \<Longrightarrow> om_wf (om_erase k m)"
  by (induction m) (auto simp: om_wf_Cons om_erase_def)

lemma om_wf_emplace [intro, simp]: "om_wf m \<Longrightarrow> om_wf (om_emplace k v m)"
  by (simp add: om_emplace_def split: option.split)

lemma om_wf_filter [intro, simp]: "om_wf m \<Longrightarrow> om_wf (filter P m)"
  by (induction m) (auto simp: om_wf_Cons)

lemma om_wf_map_values [intro, simp]: "om_wf m \<Longrightarrow> om_wf (map (\<lambda>(k, v). (k, f k v)) m)"
  by (simp add: om_wf_def split_def comp_def)

lemma om_wf_distinct: "om_wf m \<Longrightarrow> distinct (map fst m)"
  by (simp add: om_wf_def strict_sorted_iff)

lemma om_wf_map_of_iff: "om_wf m \<Longrightarrow> map_of m k = Some v \<longleftrightarrow> (k, v) \<in> set m"
  by (simp add: om_wf_distinct)

lemma om_wf_eq_map_of_iff: "om_wf m \<Longrightarrow> Some v = map_of m k \<longleftrightarrow> (k, v) \<in> set m"
  by (simp add: om_wf_distinct)

lemma map_of_filter_om:
  "om_wf m \<Longrightarrow> map_of (filter P m) k =
     (case map_of m k of None \<Rightarrow> None | Some v \<Rightarrow> if P (k, v) then Some v else None)"
proof (induction m)
  case (Cons e m)
  obtain a b where e: "e = (a, b)" by (cases e)
  have "map_of (filter P m) a = None" if "om_wf (e # m)"
    using that by (auto simp: e om_wf_Cons map_of_eq_None_iff)
  with Cons show ?case by (auto simp: e om_wf_Cons split: option.split)
qed simp

text \<open>A key above every key in the map is inserted at its end.\<close>

lemma om_insert_last: "(\<forall>k' \<in> fst ` set m. k' < k) \<Longrightarrow> om_insert k v m = m @ [(k, v)]"
  by (induction m) auto

lemma set_om_insert:
  "om_wf m \<Longrightarrow> set (om_insert k v m) = insert (k, v) {e \<in> set m. fst e \<noteq> k}"
proof (induction m)
  case (Cons e m)
  then show ?case by (cases e) (auto simp: om_wf_Cons)
qed simp

text \<open>The list is determined by the lookups: two well-formed maps that answer alike are equal.\<close>

lemma om_wf_ext:
  assumes "om_wf m" "om_wf m'" "map_of m = map_of m'"
  shows "m = m'"
proof -
  have eq: "set m = set m'"
    using assms by (metis (no_types, lifting) om_wf_map_of_iff subrelI subset_antisym)
  have "inj_on fst (set m)"
    using om_wf_distinct [OF assms(1)] by (simp add: distinct_map)
  then show ?thesis
    using assms(1,2) eq
    by (intro map_sorted_distinct_set_unique [of fst])
      (auto simp: om_wf_def strict_sorted_iff)
qed

subsection \<open>The container interface\<close>

text \<open>
  What the clients of \<open>std::map\<close> rely on: lookups after each update, and that updates keep the
  container's own invariant.
\<close>

locale ordered_container =
  fixes find :: "'m \<Rightarrow> 'k \<Rightarrow> 'v option"
    and assign :: "'k \<Rightarrow> 'v \<Rightarrow> 'm \<Rightarrow> 'm"
    and emplace :: "'k \<Rightarrow> 'v \<Rightarrow> 'm \<Rightarrow> 'm"
    and erase :: "'k \<Rightarrow> 'm \<Rightarrow> 'm"
    and wf :: "'m \<Rightarrow> bool"
  assumes find_assign: "find (assign k v m) = (find m)(k \<mapsto> v)"
    and find_emplace: "find (emplace k v m) = (if find m k = None then (find m)(k \<mapsto> v) else find m)"
    and find_erase: "find (erase k m) = (find m)(k := None)"
    and wf_assign: "wf m \<Longrightarrow> wf (assign k v m)"
    and wf_emplace: "wf m \<Longrightarrow> wf (emplace k v m)"
    and wf_erase: "wf m \<Longrightarrow> wf (erase k m)"
    and wf_eqI: "wf m \<Longrightarrow> wf m' \<Longrightarrow> find m = find m' \<Longrightarrow> m = m'"
begin

lemma erase_emplace_fresh: "wf m \<Longrightarrow> find m k = None \<Longrightarrow> erase k (emplace k v m) = m"
  by (rule wf_eqI) (auto simp: wf_erase wf_emplace find_erase find_emplace)

lemma assign_assign: "wf m \<Longrightarrow> assign k v (assign k w m) = assign k v m"
  by (rule wf_eqI) (auto simp: wf_assign find_assign)

lemma assign_commute: "wf m \<Longrightarrow> k \<noteq> l \<Longrightarrow> assign k v (assign l w m) = assign l w (assign k v m)"
  by (rule wf_eqI) (auto simp: wf_assign find_assign fun_upd_twist)

lemma erase_absent: "wf m \<Longrightarrow> find m k = None \<Longrightarrow> erase k m = m"
  by (rule wf_eqI) (auto simp: wf_erase find_erase)

end

interpretation om: ordered_container map_of om_insert om_emplace om_erase om_wf
  by unfold_locales (auto intro: om_wf_ext split: option.split)

end
