(* ===== verification/Value.thy ===== *)
theory Value
  imports OrdMap
begin

unbundle bit_operations_syntax

section \<open>Values and function results (\<open>value.h\<close>, \<open>value.cpp\<close>, \<open>error.h\<close>)\<close>

text \<open>
  A \<open>double\<close> is its IEEE 754 bit pattern, a 64-bit word: the codec reads and writes the bits,
  and the classifications the code uses (\<open>isnan\<close>, \<open>isfinite\<close>, \<open>signbit\<close>, \<open>==\<close>) are functions
  of them. An \<open>int64_t\<close> is a 64-bit word read as two's complement. A \<open>value_object\<close> is a
  \<open>std::map\<close> from strings, so an ordered map.
\<close>

subsection \<open>Doubles as bit patterns\<close>

type_synonym float64 = "64 word"

definition f64_exponent :: "float64 \<Rightarrow> u64" where
  "f64_exponent d = drop_bit 52 d AND 0x7FF"

definition f64_mantissa :: "float64 \<Rightarrow> u64" where
  "f64_mantissa d = d AND 0xFFFFFFFFFFFFF"

definition f64_isfinite :: "float64 \<Rightarrow> bool" where
  "f64_isfinite d \<longleftrightarrow> f64_exponent d \<noteq> 0x7FF"

definition f64_isnan :: "float64 \<Rightarrow> bool" where
  "f64_isnan d \<longleftrightarrow> f64_exponent d = 0x7FF \<and> f64_mantissa d \<noteq> 0"

definition f64_signbit :: "float64 \<Rightarrow> bool" where
  "f64_signbit d \<longleftrightarrow> bit d 63"

text \<open>\<open>d == 0.0\<close>: every bit but the sign is clear.\<close>

definition f64_iszero :: "float64 \<Rightarrow> bool" where
  "f64_iszero d \<longleftrightarrow> d AND 0x7FFFFFFFFFFFFFFF = 0"

text \<open>\<open>operator==\<close> on doubles: a NaN equals nothing, the two zeros are equal.\<close>

definition f64_eq :: "float64 \<Rightarrow> float64 \<Rightarrow> bool" where
  "f64_eq a b \<longleftrightarrow>
     \<not> f64_isnan a \<and> \<not> f64_isnan b \<and> (a = b \<or> (f64_iszero a \<and> f64_iszero b))"

definition f64_neg_zero :: float64 where
  "f64_neg_zero = 0x8000000000000000"

subsection \<open>Values\<close>

datatype convex_value =
    VNull
  | VBool bool
  | VInt64 "64 word"
  | VFloat64 float64
  | VString string
  | VBytes "u8 list"
  | VArray "convex_value list"
  | VObject "(string \<times> convex_value) list"

type_synonym value_object = "(string, convex_value) omap"

datatype kind = K_null | K_boolean | K_int64 | K_float64 | K_string | K_bytes | K_array | K_object

fun get_kind :: "convex_value \<Rightarrow> kind" where
  "get_kind VNull = K_null"
| "get_kind (VBool _) = K_boolean"
| "get_kind (VInt64 _) = K_int64"
| "get_kind (VFloat64 _) = K_float64"
| "get_kind (VString _) = K_string"
| "get_kind (VBytes _) = K_bytes"
| "get_kind (VArray _) = K_array"
| "get_kind (VObject _) = K_object"

definition is_null :: "convex_value \<Rightarrow> bool" where "is_null v \<longleftrightarrow> get_kind v = K_null"

definition is_boolean :: "convex_value \<Rightarrow> bool" where "is_boolean v \<longleftrightarrow> get_kind v = K_boolean"

definition is_int64 :: "convex_value \<Rightarrow> bool" where "is_int64 v \<longleftrightarrow> get_kind v = K_int64"

definition is_float64 :: "convex_value \<Rightarrow> bool" where "is_float64 v \<longleftrightarrow> get_kind v = K_float64"

definition is_string :: "convex_value \<Rightarrow> bool" where "is_string v \<longleftrightarrow> get_kind v = K_string"

definition is_bytes :: "convex_value \<Rightarrow> bool" where "is_bytes v \<longleftrightarrow> get_kind v = K_bytes"

definition is_array :: "convex_value \<Rightarrow> bool" where "is_array v \<longleftrightarrow> get_kind v = K_array"

definition is_object :: "convex_value \<Rightarrow> bool" where "is_object v \<longleftrightarrow> get_kind v = K_object"

text \<open>The constructors from 32-bit integers: a signed one is sign-extended.\<close>

definition value_of_int32 :: "32 word \<Rightarrow> convex_value" where
  "value_of_int32 i = VInt64 (scast i)"

definition value_of_uint32 :: "32 word \<Rightarrow> convex_value" where
  "value_of_uint32 i = VInt64 (ucast i)"

fun kind_name :: "kind \<Rightarrow> string" where
  "kind_name K_null = ''null''"
| "kind_name K_boolean = ''boolean''"
| "kind_name K_int64 = ''int64''"
| "kind_name K_float64 = ''float64''"
| "kind_name K_string = ''string''"
| "kind_name K_bytes = ''bytes''"
| "kind_name K_array = ''array''"
| "kind_name K_object = ''object''"

definition throw_mismatch :: "string \<Rightarrow> convex_value \<Rightarrow> 'a result" where
  "throw_mismatch wanted v =
     Inl (Type_error (''convex::value: expected '' @ wanted @ '' but holds '' @ kind_name (get_kind v)))"

fun as_boolean :: "convex_value \<Rightarrow> bool result" where
  "as_boolean (VBool b) = Inr b"
| "as_boolean v = throw_mismatch ''boolean'' v"

fun as_int64 :: "convex_value \<Rightarrow> 64 word result" where
  "as_int64 (VInt64 i) = Inr i"
| "as_int64 v = throw_mismatch ''int64'' v"

fun as_float64 :: "convex_value \<Rightarrow> float64 result" where
  "as_float64 (VFloat64 d) = Inr d"
| "as_float64 v = throw_mismatch ''float64'' v"

fun as_string :: "convex_value \<Rightarrow> string result" where
  "as_string (VString s) = Inr s"
| "as_string v = throw_mismatch ''string'' v"

fun as_bytes :: "convex_value \<Rightarrow> u8 list result" where
  "as_bytes (VBytes b) = Inr b"
| "as_bytes v = throw_mismatch ''bytes'' v"

fun as_array :: "convex_value \<Rightarrow> convex_value list result" where
  "as_array (VArray a) = Inr a"
| "as_array v = throw_mismatch ''array'' v"

fun as_object :: "convex_value \<Rightarrow> value_object result" where
  "as_object (VObject ob) = Inr ob"
| "as_object v = throw_mismatch ''object'' v"

text \<open>An accessor throws exactly when the test of its kind fails.\<close>

lemma accessor_ok:
  "is_ok (as_boolean v) \<longleftrightarrow> is_boolean v" "is_ok (as_int64 v) \<longleftrightarrow> is_int64 v"
  "is_ok (as_float64 v) \<longleftrightarrow> is_float64 v" "is_ok (as_string v) \<longleftrightarrow> is_string v"
  "is_ok (as_bytes v) \<longleftrightarrow> is_bytes v" "is_ok (as_array v) \<longleftrightarrow> is_array v"
  "is_ok (as_object v) \<longleftrightarrow> is_object v"
  by (cases v; simp add: throw_mismatch_def is_boolean_def is_int64_def is_float64_def is_string_def
      is_bytes_def is_array_def is_object_def)+

text \<open>\<open>std::map\<close> keeps keys sorted and distinct at every level of a value.\<close>

fun value_wf :: "convex_value \<Rightarrow> bool" where
  "value_wf (VArray vs) = list_all value_wf vs"
| "value_wf (VObject fs) = (om_wf fs \<and> list_all (\<lambda>(_, v). value_wf v) fs)"
| "value_wf _ = True"

text \<open>\<open>operator==\<close>: same alternative, equal contents; element by element in containers.\<close>

fun value_eq :: "convex_value \<Rightarrow> convex_value \<Rightarrow> bool"
  and values_eq :: "convex_value list \<Rightarrow> convex_value list \<Rightarrow> bool"
  and fields_eq :: "(string \<times> convex_value) list \<Rightarrow> (string \<times> convex_value) list \<Rightarrow> bool" where
  "value_eq VNull w = (w = VNull)"
| "value_eq (VBool a) w = (case w of VBool b \<Rightarrow> a = b | _ \<Rightarrow> False)"
| "value_eq (VInt64 a) w = (case w of VInt64 b \<Rightarrow> a = b | _ \<Rightarrow> False)"
| "value_eq (VFloat64 a) w = (case w of VFloat64 b \<Rightarrow> f64_eq a b | _ \<Rightarrow> False)"
| "value_eq (VString a) w = (case w of VString b \<Rightarrow> a = b | _ \<Rightarrow> False)"
| "value_eq (VBytes a) w = (case w of VBytes b \<Rightarrow> a = b | _ \<Rightarrow> False)"
| "value_eq (VArray a) w = (case w of VArray b \<Rightarrow> values_eq a b | _ \<Rightarrow> False)"
| "value_eq (VObject a) w = (case w of VObject b \<Rightarrow> fields_eq a b | _ \<Rightarrow> False)"
| "values_eq [] ws = (ws = [])"
| "values_eq (a # as) ws = (case ws of [] \<Rightarrow> False | b # bs \<Rightarrow> value_eq a b \<and> values_eq as bs)"
| "fields_eq [] gs = (gs = [])"
| "fields_eq ((k, a) # fs) gs =
     (case gs of [] \<Rightarrow> False | (l, b) # gs' \<Rightarrow> k = l \<and> value_eq a b \<and> fields_eq fs gs')"

subsection \<open>Function results\<close>

record convex_error =
  ce_message :: string
  ce_data :: convex_value

datatype function_result =
    FR_success convex_value
  | FR_error string
  | FR_app_error convex_error

definition fr_ok :: "function_result \<Rightarrow> bool" where
  "fr_ok r = (case r of FR_success _ \<Rightarrow> True | _ \<Rightarrow> False)"

definition fr_is_app_error :: "function_result \<Rightarrow> bool" where
  "fr_is_app_error r = (case r of FR_app_error _ \<Rightarrow> True | _ \<Rightarrow> False)"

fun fr_error_message :: "function_result \<Rightarrow> string" where
  "fr_error_message (FR_error m) = m"
| "fr_error_message (FR_app_error e) = ce_message e"
| "fr_error_message (FR_success _) = []"

definition fr_get_value :: "function_result \<Rightarrow> convex_value result" where
  "fr_get_value r = (case r of
      FR_success v \<Rightarrow> Inr v
    | _ \<Rightarrow> Inl (Type_error (''function_result: not a success: '' @ fr_error_message r)))"

definition fr_app_error :: "function_result \<Rightarrow> convex_error option" where
  "fr_app_error r = (case r of FR_app_error e \<Rightarrow> Some e | _ \<Rightarrow> None)"

fun fr_eq :: "function_result \<Rightarrow> function_result \<Rightarrow> bool" where
  "fr_eq (FR_success a) (FR_success b) = value_eq a b"
| "fr_eq (FR_error a) (FR_error b) = (a = b)"
| "fr_eq (FR_app_error a) (FR_app_error b) =
     (ce_message a = ce_message b \<and> value_eq (ce_data a) (ce_data b))"
| "fr_eq _ _ = False"

subsection \<open>Equality of values\<close>

text \<open>
  \<open>nan_free\<close> holds of a value without a NaN in it, and \<open>unsign_zeros\<close> replaces every negative
  zero by the positive one.
\<close>

fun nan_free :: "convex_value \<Rightarrow> bool" where
  "nan_free (VFloat64 d) = (\<not> f64_isnan d)"
| "nan_free (VArray vs) = list_all nan_free vs"
| "nan_free (VObject fs) = list_all (\<lambda>(_, v). nan_free v) fs"
| "nan_free _ = True"

fun unsign_zeros :: "convex_value \<Rightarrow> convex_value" where
  "unsign_zeros (VFloat64 d) = VFloat64 (if f64_iszero d then 0 else d)"
| "unsign_zeros (VArray vs) = VArray (map unsign_zeros vs)"
| "unsign_zeros (VObject fs) = VObject (map (\<lambda>(k, v). (k, unsign_zeros v)) fs)"
| "unsign_zeros v = v"

lemma f64_zero_iszero [simp]: "f64_iszero 0"
  by (simp add: f64_iszero_def)

lemma unsign_zeros_eq_simps:
  "VNull = unsign_zeros w \<longleftrightarrow> w = VNull"
  "VBool a = unsign_zeros w \<longleftrightarrow> w = VBool a"
  "VInt64 i = unsign_zeros w \<longleftrightarrow> w = VInt64 i"
  "VString s = unsign_zeros w \<longleftrightarrow> w = VString s"
  "VBytes bs = unsign_zeros w \<longleftrightarrow> w = VBytes bs"
  "VArray vs = unsign_zeros w \<longleftrightarrow> (\<exists>ws. w = VArray ws \<and> vs = map unsign_zeros ws)"
  "VObject fs = unsign_zeros w \<longleftrightarrow>
     (\<exists>gs. w = VObject gs \<and> fs = map (\<lambda>(k, v). (k, unsign_zeros v)) gs)"
  by (cases w; auto)+

lemma value_eq_iff_aux:
  "value_eq a b \<longleftrightarrow> nan_free a \<and> nan_free b \<and> unsign_zeros a = unsign_zeros b"
  "values_eq as bs \<longleftrightarrow>
     list_all nan_free as \<and> list_all nan_free bs \<and> map unsign_zeros as = map unsign_zeros bs"
  "fields_eq fs gs \<longleftrightarrow>
     list_all (\<lambda>(_, v). nan_free v) fs \<and> list_all (\<lambda>(_, v). nan_free v) gs
     \<and> map (\<lambda>(k, v). (k, unsign_zeros v)) fs = map (\<lambda>(k, v). (k, unsign_zeros v)) gs"
proof (induction a b and as bs and fs gs rule: value_eq_values_eq_fields_eq.induct)
  case (4 a w)
  then show ?case by (cases w) (auto simp: f64_eq_def)
qed (auto simp: unsign_zeros_eq_simps split: convex_value.splits list.splits)

text \<open>
  What \<open>operator==\<close> decides: two values are equal exactly when neither holds a NaN
  anywhere and they are the same up to the sign of zeros. It is therefore symmetric and
  transitive, and it is reflexive on exactly the values that hold no NaN.
\<close>

theorem value_eq_iff:
  "(value_eq a b \<longleftrightarrow> nan_free a \<and> nan_free b \<and> unsign_zeros a = unsign_zeros b)
   \<and> (value_eq a a \<longleftrightarrow> nan_free a)"
  by (simp add: value_eq_iff_aux(1))

end
