(* ===== verification/SessionId.thy ===== *)
theory SessionId
  imports Prelude
begin

section \<open>Session identifiers (\<open>generate_session_id\<close>, \<open>src/protocol.cpp\<close>)\<close>

text \<open>The two words of the random engine are parameters.\<close>

unbundle bit_operations_syntax

definition hex_chars :: string where
  "hex_chars = ''0123456789abcdef''"

definition stamp_version :: "u64 \<Rightarrow> u64" where
  "stamp_version hi = (hi AND 0xffffffffffff0fff) OR 0x0000000000004000"

definition stamp_variant :: "u64 \<Rightarrow> u64" where
  "stamp_variant lo = (lo AND 0x3fffffffffffffff) OR 0x8000000000000000"

definition emit :: "u64 \<Rightarrow> nat \<Rightarrow> string" where
  "emit v nibbles = map (\<lambda>i. hex_chars ! unat (drop_bit (i * 4) v AND 0xf)) (rev [0..<nibbles])"

definition generate_session_id :: "u64 \<Rightarrow> u64 \<Rightarrow> string" where
  "generate_session_id rng_hi rng_lo =
     (let hi = stamp_version rng_hi; lo = stamp_variant rng_lo in
      emit (drop_bit 32 hi) 8 @ ''-'' @ emit (drop_bit 16 hi AND 0xffff) 4 @ ''-'' @ emit (hi AND 0xffff) 4
        @ ''-'' @ emit (drop_bit 48 lo) 4 @ ''-'' @ emit (lo AND 0xffffffffffff) 12)"

lemma length_emit [simp]: "length (emit v n) = n"
  by (simp add: emit_def)

lemma nibble_less: "unat ((w :: u64) AND 0xf) < 16"
proof -
  have "w AND 0xf = take_bit 4 w" by (simp add: take_bit_eq_mask mask_eq_exp_minus_1)
  then show ?thesis by (simp add: unsigned_take_bit_eq take_bit_nat_less_exp [of 4, simplified])
qed

lemma emit_hex: "set (emit v n) \<subseteq> set hex_chars"
proof -
  have "hex_chars ! unat (w AND 0xf) \<in> set hex_chars" for w :: u64
    using nibble_less [of w] by (intro nth_mem) (simp add: hex_chars_def)
  then show ?thesis by (auto simp: emit_def)
qed

lemma emit_hd: "hd (emit v 4) = hex_chars ! unat (drop_bit 12 v AND 0xf)"
  by (simp add: emit_def upt_rec)

text \<open>The stamped digits, bit by bit.\<close>

lemma stamps:
  "(0xf :: u64) = mask 4" "(0xffff :: u64) = mask 16" "(0xffffffffffff :: u64) = mask 48"
  "(0x4000 :: u64) = push_bit 14 1" "(0xffffffffffff0fff :: u64) = NOT (push_bit 12 (mask 4))"
  "(0x3fffffffffffffff :: u64) = mask 62" "(0x8000000000000000 :: u64) = push_bit 63 1"
  by (simp_all add: mask_eq_exp_minus_1 push_bit_eq_mult)

lemma bit_digits: "bit (4 :: int) n \<longleftrightarrow> n = 2" "bit (8 :: int) n \<longleftrightarrow> n = 3"
proof -
  have "(4 :: int) = push_bit 2 1" "(8 :: int) = push_bit 3 1" by simp_all
  then have eq: "bit (4 :: int) n = bit (push_bit 2 (1 :: int)) n" "bit (8 :: int) n = bit (push_bit 3 (1 :: int)) n"
    by metis+
  show "bit (4 :: int) n \<longleftrightarrow> n = 2" "bit (8 :: int) n \<longleftrightarrow> n = 3"
    unfolding eq bit_push_bit_iff bit_1_iff by auto
qed

lemma version_digit: "drop_bit 12 (stamp_version hi AND 0xffff) AND 0xf = 4"
  unfolding stamp_version_def stamps by (intro bit_word_eqI) (auto simp: bit_simps bit_digits)

lemma variant_digit: "drop_bit 12 (drop_bit 48 (stamp_variant lo)) AND 0xf = 8 OR take_bit 2 (drop_bit 60 lo)"
  unfolding stamp_variant_def stamps by (intro bit_word_eqI) (auto simp: bit_simps bit_digits)

lemma variant_range: "8 OR take_bit 2 (w :: u64) \<in> {8, 9, 10, 11}"
proof -
  have "unat (take_bit 2 w) < 4" by (simp add: unsigned_take_bit_eq take_bit_nat_less_exp [of 2, simplified])
  then have "unat (take_bit 2 w) \<in> {0, 1, 2, 3}" by auto
  then have "take_bit 2 w \<in> {0, 1, 2, 3}" by (auto simp: word_eq_iff_unsigned [symmetric] word_unat_eq_iff)
  then show ?thesis by (elim insertE emptyE) (simp_all only:, simp_all)
qed

text \<open>
  \<open>generate_session_id\<close> gives a version 4 identifier, whatever the random engine returns: 36
  characters, hexadecimal digits in groups of 8, 4, 4, 4 and 12 with a dash between them, the version
  digit 4, a variant digit among 8, 9, a and b.
\<close>

theorem session_id_form:
  "\<exists>a b c d e. generate_session_id hi lo = a @ ''-'' @ b @ ''-'' @ c @ ''-'' @ d @ ''-'' @ e
     \<and> map length [a, b, c, d, e] = [8, 4, 4, 4, 12] \<and> set (a @ b @ c @ d @ e) \<subseteq> set hex_chars
     \<and> hd c = CHR ''4'' \<and> hd d \<in> set ''89ab''"
proof -
  let ?c = "emit (stamp_version hi AND 0xffff) 4" and ?d = "emit (drop_bit 48 (stamp_variant lo)) 4"
  have "hd ?c = CHR ''4''"
    unfolding emit_hd version_digit by (simp add: hex_chars_def)
  moreover have "hd ?d \<in> set ''89ab''"
  proof -
    have "hd ?d = hex_chars ! unat (8 OR take_bit 2 (drop_bit 60 lo))"
      unfolding emit_hd variant_digit by (rule refl)
    then show ?thesis using variant_range [of "drop_bit 60 lo"]
      by (elim insertE emptyE) (simp_all only: hex_chars_def, simp_all)
  qed
  ultimately show ?thesis
    unfolding generate_session_id_def Let_def
    by (intro exI [of _ "emit (drop_bit 32 (stamp_version hi)) 8"] exI [of _ "emit (drop_bit 16 (stamp_version hi) AND 0xffff) 4"]
        exI [of _ ?c] exI [of _ ?d] exI [of _ "emit (stamp_variant lo AND 0xffffffffffff) 12"])
       (use emit_hex in \<open>auto simp: subset_iff\<close>)
qed

end
