(* ===== verification/Codec.thy ===== *)
theory Codec
  imports Base64 Value
begin

section \<open>The wire codec (\<open>src/json_codec.cpp\<close>, \<open>src/detail/wire_json.h\<close>)\<close>

text \<open>
  Values to and from JSON documents. A JSON document is the tree of the vendored library
  (\<open>nlohmann::json\<close>, whose objects are \<open>std::map\<close>s), with its three kinds of numbers kept
  apart. Its text form belongs to the library: printing and parsing are the two fields of
  \<open>json_lib\<close>, a parameter of every definition that goes through text.
\<close>

subsection \<open>JSON documents\<close>

datatype json =
    JNull
  | JBool bool
  | JInt "64 word"      \<comment> \<open>\<open>number_integer\<close>, two's complement\<close>
  | JUInt "64 word"     \<comment> \<open>\<open>number_unsigned\<close>\<close>
  | JFloat float64      \<comment> \<open>\<open>number_float\<close>\<close>
  | JString string
  | JArray "json list"
  | JObject "(string \<times> json) list"
  | JBinary "u8 list"   \<comment> \<open>not reachable from text\<close>
  | JDiscarded

record json_lib =
  jl_dump :: "json \<Rightarrow> string result"    \<comment> \<open>\<open>dump()\<close>, which throws on invalid UTF-8\<close>
  jl_parse :: "string \<Rightarrow> json result"   \<comment> \<open>\<open>parse()\<close>\<close>

text \<open>\<open>j.find(field)\<close>: \<open>end()\<close> for a missing field and for anything but an object.\<close>

definition json_find :: "json \<Rightarrow> string \<Rightarrow> json option" where
  "json_find j field = (case j of JObject fs \<Rightarrow> map_of fs field | _ \<Rightarrow> None)"

text \<open>\<open>is_null\<close>, \<open>is_string\<close> with \<open>get\<close>, and so on.\<close>

definition json_string :: "json \<Rightarrow> string option" where
  "json_string j = (case j of JString s \<Rightarrow> Some s | _ \<Rightarrow> None)"

definition json_bool :: "json \<Rightarrow> bool option" where
  "json_bool j = (case j of JBool b \<Rightarrow> Some b | _ \<Rightarrow> None)"

text \<open>
  \<open>static_cast<double>\<close> of an integer, in the default rounding mode (to nearest, ties to even).
  For a magnitude below \<open>2 ^ 53\<close> nothing is rounded; above, the low \<open>s\<close> bits are, and a carry
  out of the mantissa moves into the exponent by the addition.
\<close>

fun bitlen :: "nat \<Rightarrow> nat" where
  "bitlen n = (if n = 0 then 0 else Suc (bitlen (n div 2)))"

declare bitlen.simps [simp del]

definition nat_to_f64_bits :: "nat \<Rightarrow> nat" where
  "nat_to_f64_bits n =
     (if n = 0 then 0
      else
        (let e = bitlen n - 1;
             m = (if e \<le> 52 then n * 2 ^ (52 - e)
                  else
                    (let s = e - 52; q = n div 2 ^ s; r = n mod 2 ^ s; half = 2 ^ (s - 1)
                     in if half < r \<or> (r = half \<and> odd q) then q + 1 else q))
         in (e + 1023) * 2 ^ 52 + (m - 2 ^ 52)))"

definition int_to_f64 :: "int \<Rightarrow> float64" where
  "int_to_f64 i =
     (if i < 0 then word_of_nat (2 ^ 63 + nat_to_f64_bits (nat (- i)))
      else word_of_nat (nat_to_f64_bits (nat i)))"

subsection \<open>Eight little-endian bytes\<close>

definition to_le_bytes :: "64 word \<Rightarrow> u8 list" where
  "to_le_bytes w = map (\<lambda>i. ucast (drop_bit (8 * i) w)) [0..<8]"

definition from_le_bytes :: "string \<Rightarrow> u8 list \<Rightarrow> 64 word result" where
  "from_le_bytes what bytes =
     (if length bytes \<noteq> 8
      then Inl (Codec_error (what @ '': expected 8 bytes, got '' @ dec_digits (length bytes)))
      else Inr (foldr (\<lambda>b acc. push_bit 8 acc OR ucast b) bytes 0))"

definition decode_b64 :: "string \<Rightarrow> string \<Rightarrow> u8 list result" where
  "decode_b64 what b64 =
     (case base64_decode b64 of
        Inl (Invalid_argument m) \<Rightarrow> Inl (Codec_error (what @ '': '' @ m))
      | r \<Rightarrow> r)"

definition int64_to_le_base64 :: "64 word \<Rightarrow> string" where
  "int64_to_le_base64 n = base64_encode (to_le_bytes n)"

definition uint64_to_le_base64 :: "64 word \<Rightarrow> string" where
  "uint64_to_le_base64 n = base64_encode (to_le_bytes n)"

definition double_to_le_base64 :: "float64 \<Rightarrow> string" where
  "double_to_le_base64 d = base64_encode (to_le_bytes d)"

definition le_base64_to_int64 :: "string \<Rightarrow> 64 word result" where
  "le_base64_to_int64 b64 = bindr (decode_b64 ''$integer'' b64) (from_le_bytes ''$integer'')"

definition le_base64_to_uint64 :: "string \<Rightarrow> 64 word result" where
  "le_base64_to_uint64 b64 = bindr (decode_b64 ''timestamp'' b64) (from_le_bytes ''timestamp'')"

definition le_base64_to_double :: "string \<Rightarrow> float64 result" where
  "le_base64_to_double b64 = bindr (decode_b64 ''$float'' b64) (from_le_bytes ''$float'')"

subsection \<open>Special doubles and field names\<close>

definition is_special_float :: "float64 \<Rightarrow> bool" where
  "is_special_float d \<longleftrightarrow> \<not> f64_isfinite d \<or> (f64_iszero d \<and> f64_signbit d)"

definition canonicalize_if_nan :: "float64 \<Rightarrow> float64" where
  "canonicalize_if_nan d = (if f64_isnan d then 0x7FF8000000000000 else d)"

definition validate_field_name :: "string \<Rightarrow> unit result" where
  "validate_field_name name =
     (if name = [] then Inl (Codec_error ''field name must not be empty'')
      else if 1024 < length name
      then Inl (Codec_error (''field name \"'' @ take 64 name
             @ ''...\" exceeds maximum field name length of 1024''))
      else if hd name = CHR ''$''
      then Inl (Codec_error (''field name \"'' @ name @ ''\" starts with '' @ [CHR 0x27, CHR ''$'', CHR 0x27]
             @ '', which is reserved''))
      else if list_ex (\<lambda>c. (of_char c :: nat) < 32 \<or> 126 < (of_char c :: nat)) name
      then Inl (Codec_error (''field name \"'' @ name @ ''\" has an invalid character: field names ''
             @ ''must only contain non-control ASCII characters''))
      else Inr ())"

subsection \<open>Encoding\<close>

fun value_to_json :: "convex_value \<Rightarrow> json result"
  and array_to_json :: "convex_value list \<Rightarrow> json list result"
  and object_to_json :: "(string, json) omap \<Rightarrow> (string \<times> convex_value) list \<Rightarrow> (string, json) omap result"
where
  "value_to_json VNull = Inr JNull"
| "value_to_json (VBool b) = Inr (JBool b)"
| "value_to_json (VInt64 i) = Inr (JObject [(''$integer'', JString (int64_to_le_base64 i))])"
| "value_to_json (VFloat64 d) =
     (if is_special_float d
      then Inr (JObject [(''$float'', JString (double_to_le_base64 (canonicalize_if_nan d)))])
      else Inr (JFloat d))"
| "value_to_json (VString s) = Inr (JString s)"
| "value_to_json (VBytes bs) = Inr (JObject [(''$bytes'', JString (base64_encode bs))])"
| "value_to_json (VArray vs) = bindr (array_to_json vs) (\<lambda>arr. Inr (JArray arr))"
| "value_to_json (VObject fs) = bindr (object_to_json [] fs) (\<lambda>ob. Inr (JObject ob))"
| "array_to_json [] = Inr []"
| "array_to_json (v # vs) =
     bindr (value_to_json v) (\<lambda>j. bindr (array_to_json vs) (\<lambda>js. Inr (j # js)))"
| "object_to_json ob [] = Inr ob"
| "object_to_json ob ((name, field) # fs) =
     bindr (validate_field_name name) (\<lambda>_.
     bindr (value_to_json field) (\<lambda>j. object_to_json (om_insert name j ob) fs))"

subsection \<open>Decoding\<close>

definition decode_float_payload :: "string \<Rightarrow> convex_value result" where
  "decode_float_payload s =
     bindr (le_base64_to_double s) (\<lambda>d.
       if f64_isfinite d \<and> \<not> (f64_iszero d \<and> f64_signbit d)
       then Inl (Codec_error ''$float must not encode a plain-representable number'')
       else Inr (VFloat64 d))"

text \<open>
  The single-key objects with a reserved key. \<open>None\<close>: not one of them, an ordinary object.
\<close>

definition special_object :: "(string \<times> json) list \<Rightarrow> convex_value result option" where
  "special_object fs =
     (case fs of
        [(key, it)] \<Rightarrow>
          if key = ''$integer'' then
            Some (case json_string it of
                None \<Rightarrow> Inl (Codec_error ''$integer payload must be a string'')
              | Some s \<Rightarrow> bindr (le_base64_to_int64 s) (\<lambda>i. Inr (VInt64 i)))
          else if key = ''$float'' then
            Some (case json_string it of
                None \<Rightarrow> Inl (Codec_error ''$float payload must be a string'')
              | Some s \<Rightarrow> decode_float_payload s)
          else if key = ''$bytes'' then
            Some (case json_string it of
                None \<Rightarrow> Inl (Codec_error ''$bytes payload must be a string'')
              | Some s \<Rightarrow> bindr (decode_b64 ''$bytes'' s) (\<lambda>bs. Inr (VBytes bs)))
          else if key = ''$set'' \<or> key = ''$map'' then
            Some (Inl (Codec_error (key @ '' is no longer supported by the Convex protocol'')))
          else None
      | _ \<Rightarrow> None)"

fun json_to_value :: "json \<Rightarrow> convex_value result"
  and array_to_value :: "json list \<Rightarrow> convex_value list result"
  and object_to_value :: "value_object \<Rightarrow> (string \<times> json) list \<Rightarrow> value_object result"
where
  "json_to_value JNull = Inr VNull"
| "json_to_value (JBool b) = Inr (VBool b)"
| "json_to_value (JInt i) = Inr (VFloat64 (int_to_f64 (sint i)))"
| "json_to_value (JUInt i) = Inr (VFloat64 (int_to_f64 (uint i)))"
| "json_to_value (JFloat d) = Inr (VFloat64 d)"
| "json_to_value (JString s) = Inr (VString s)"
| "json_to_value (JArray js) = bindr (array_to_value js) (\<lambda>arr. Inr (VArray arr))"
| "json_to_value (JObject fs) =
     (case special_object fs of
        Some r \<Rightarrow> r
      | None \<Rightarrow> bindr (object_to_value [] fs) (\<lambda>ob. Inr (VObject ob)))"
| "json_to_value (JBinary _) = Inl (Codec_error ''unsupported JSON type in Convex value'')"
| "json_to_value JDiscarded = Inl (Codec_error ''unsupported JSON type in Convex value'')"
| "array_to_value [] = Inr []"
| "array_to_value (j # js) =
     bindr (json_to_value j) (\<lambda>v. bindr (array_to_value js) (\<lambda>vs. Inr (v # vs)))"
| "object_to_value ob [] = Inr ob"
| "object_to_value ob ((name, field) # fs) =
     bindr (json_to_value field) (\<lambda>v. object_to_value (om_emplace name v ob) fs)"

subsection \<open>Text\<close>

definition to_wire_json :: "json_lib \<Rightarrow> convex_value \<Rightarrow> string result" where
  "to_wire_json L v = bindr (value_to_json v) (jl_dump L)"

definition from_wire_json :: "json_lib \<Rightarrow> string \<Rightarrow> convex_value result" where
  "from_wire_json L t =
     (case jl_parse L t of
        Inl e \<Rightarrow> Inl (Codec_error (''invalid JSON: '' @ exn_what e))
      | Inr j \<Rightarrow> json_to_value j)"

subsection \<open>64-bit values as little-endian base64\<close>

lemma bit_le_fold:
  "bit (foldr (\<lambda>b acc. push_bit 8 acc OR ucast b) bs (0 :: 64 word)) n \<longleftrightarrow>
     n < 64 \<and> n div 8 < length bs \<and> bit (bs ! (n div 8) :: u8) (n mod 8)"
proof (induction bs arbitrary: n)
  case (Cons b bs)
  show ?case
  proof (cases "n < 8")
    case True
    then show ?thesis by (simp add: bit_simps)
  next
    case False
    then have "n div 8 = Suc ((n - 8) div 8)" "(n - 8) mod 8 = n mod 8"
      by (simp_all add: le_div_geq le_mod_geq)
    with False Cons [of "n - 8"] show ?thesis
      by (auto simp: bit_simps bit_u8_high)
  qed
qed simp

lemma length_to_le_bytes [simp]: "length (to_le_bytes w) = 8"
  by (simp add: to_le_bytes_def)

lemma from_to_le_bytes [simp]: "from_le_bytes what (to_le_bytes w) = Inr w"
proof -
  have "foldr (\<lambda>b acc. push_bit 8 acc OR ucast b) (to_le_bytes w) 0 = w"
  proof (rule bit_word_eqI)
    fix n
    assume "n < LENGTH(64)"
    then have "n div 8 < 8" by auto
    then have "to_le_bytes w ! (n div 8) = ucast (drop_bit (8 * (n div 8)) w)"
      by (simp add: to_le_bytes_def del: upt_Suc)
    moreover have "bit (foldr (\<lambda>b acc. push_bit 8 acc OR ucast b) (to_le_bytes w) (0 :: 64 word)) n =
        bit (to_le_bytes w ! (n div 8)) (n mod 8)"
      unfolding bit_le_fold using \<open>n < LENGTH(64)\<close> \<open>n div 8 < 8\<close> by simp
    ultimately show "bit (foldr (\<lambda>b acc. push_bit 8 acc OR ucast b) (to_le_bytes w) (0 :: 64 word)) n = bit w n"
      by (simp add: bit_unsigned_iff bit_drop_bit_eq)
  qed
  then show ?thesis by (simp add: from_le_bytes_def)
qed

interpretation le64: codec to_le_bytes "from_le_bytes what" "\<lambda>_. True" for what
  by unfold_locales simp

interpretation b64_named: codec base64_encode "decode_b64 what" "\<lambda>_. True" for what
  by unfold_locales (simp add: decode_b64_def b64.dec_enc)

interpretation le64_text: codec_sequence to_le_bytes "from_le_bytes what" "\<lambda>_. True"
    base64_encode "decode_b64 what" "\<lambda>_. True" for what
  by unfold_locales simp

lemma le_base64_roundtrips [simp]:
  "le_base64_to_int64 (int64_to_le_base64 n) = Inr n"
  "le_base64_to_uint64 (uint64_to_le_base64 n) = Inr n"
  "le_base64_to_double (double_to_le_base64 n) = Inr n"
  using le64_text.seq.dec_enc
  by (simp_all add: le_base64_to_int64_def int64_to_le_base64_def le_base64_to_uint64_def
      uint64_to_le_base64_def le_base64_to_double_def double_to_le_base64_def)

subsection \<open>Round trip of values\<close>

fun canon_nan :: "convex_value \<Rightarrow> convex_value" where
  "canon_nan (VFloat64 d) = VFloat64 (canonicalize_if_nan d)"
| "canon_nan (VArray vs) = VArray (map canon_nan vs)"
| "canon_nan (VObject fs) = VObject (map (\<lambda>(k, v). (k, canon_nan v)) fs)"
| "canon_nan v = v"

fun names_valid :: "convex_value \<Rightarrow> bool" where
  "names_valid (VArray vs) = list_all names_valid vs"
| "names_valid (VObject fs) =
     list_all (\<lambda>(k, v). validate_field_name k = Inr () \<and> names_valid v) fs"
| "names_valid _ = True"

lemma validate_field_name_error:
  "validate_field_name n = Inl e \<Longrightarrow> \<exists>m. e = Codec_error m"
  by (auto simp: validate_field_name_def split: if_splits)

lemma validate_not_special:
  "validate_field_name k = Inr () \<Longrightarrow> hd k \<noteq> CHR ''$''"
  by (auto simp: validate_field_name_def split: if_splits)

text \<open>Encoding fails exactly on a bad field name, and always with a \<open>codec_error\<close>.\<close>

lemma encode_total_aux:
  "case value_to_json v of Inr _ \<Rightarrow> names_valid v | Inl e \<Rightarrow> \<not> names_valid v \<and> (\<exists>m. e = Codec_error m)"
  "case array_to_json vs of Inr _ \<Rightarrow> list_all names_valid vs
     | Inl e \<Rightarrow> \<not> list_all names_valid vs \<and> (\<exists>m. e = Codec_error m)"
  "case object_to_json ob fs of
       Inr _ \<Rightarrow> list_all (\<lambda>(k, v). validate_field_name k = Inr () \<and> names_valid v) fs
     | Inl e \<Rightarrow> \<not> list_all (\<lambda>(k, v). validate_field_name k = Inr () \<and> names_valid v) fs
              \<and> (\<exists>m. e = Codec_error m)"
proof (induction v and vs and ob fs rule: value_to_json_array_to_json_object_to_json.induct)
  case (12 ob name field fs)
  show ?case
  proof (cases "validate_field_name name")
    case (Inl e)
    then show ?thesis using validate_field_name_error [OF Inl] by simp
  next
    case (Inr u)
    then show ?thesis using 12 by (cases "value_to_json field") (auto split: sum.splits)
  qed
qed (auto split: sum.splits simp: result_simps)

lemma canonical_nan_special:
  "is_special_float (canonicalize_if_nan d) \<longleftrightarrow> is_special_float d"
  "canonicalize_if_nan (canonicalize_if_nan d) = canonicalize_if_nan d"
  by (auto simp: canonicalize_if_nan_def is_special_float_def f64_isnan_def f64_isfinite_def
      f64_exponent_def f64_mantissa_def)

lemma decode_float_payload_special:
  "is_special_float d \<Longrightarrow> decode_float_payload (double_to_le_base64 d) = Inr (VFloat64 d)"
  by (auto simp: decode_float_payload_def is_special_float_def)

lemma canonicalize_plain: "\<not> is_special_float d \<Longrightarrow> canonicalize_if_nan d = d"
  by (auto simp: canonicalize_if_nan_def is_special_float_def f64_isnan_def f64_isfinite_def)

lemma special_object_None:
  assumes "\<forall>k \<in> fst ` set fs. hd k \<noteq> CHR ''$''"
  shows "special_object fs = None"
proof (cases "\<exists>key it. fs = [(key, it)]")
  case True
  then obtain key it where fs: "fs = [(key, it)]" by blast
  with assms have "hd key \<noteq> CHR ''$''" by simp
  then have "key \<noteq> ''$integer''" "key \<noteq> ''$float''" "key \<noteq> ''$bytes''" "key \<noteq> ''$set''" "key \<noteq> ''$map''"
    by auto
  with fs show ?thesis by (simp add: special_object_def)
next
  case False
  then show ?thesis by (auto simp: special_object_def split: list.split)
qed

lemma object_to_json_names:
  "object_to_json ob fs = Inr ob' \<Longrightarrow> k \<in> fst ` set fs \<Longrightarrow> hd k \<noteq> CHR ''$''"
  using encode_total_aux(3) [where ob = ob and fs = fs] validate_not_special
  by (fastforce simp: list_all_iff)

text \<open>
  The encoder writes the fields of an object behind those it has written, in their order; the
  decoder reads them back in the same order.
\<close>

lemma codec_roundtrip_aux:
  "value_wf v \<Longrightarrow> value_to_json v = Inr j \<Longrightarrow> json_to_value j = Inr (canon_nan v)"
  "list_all value_wf vs \<Longrightarrow> array_to_json vs = Inr js \<Longrightarrow> array_to_value js = Inr (map canon_nan vs)"
  "om_wf fs \<Longrightarrow> list_all (\<lambda>(_, v). value_wf v) fs \<Longrightarrow>
     \<forall>k \<in> fst ` set ob. \<forall>k' \<in> fst ` set fs. k < k' \<Longrightarrow>
     object_to_json ob fs = Inr ob' \<Longrightarrow>
     \<exists>ext. ob' = ob @ ext \<and> map fst ext = map fst fs \<and>
       (\<forall>acc. (\<forall>k \<in> fst ` set acc. \<forall>k' \<in> fst ` set fs. k < k') \<longrightarrow>
          object_to_value acc ext = Inr (acc @ map (\<lambda>(k, v). (k, canon_nan v)) fs))"
proof (induction v and vs and ob fs arbitrary: j and js and ob'
    rule: value_to_json_array_to_json_object_to_json.induct)
  case (4 d)
  then show ?case
    by (auto simp: special_object_def json_string_def decode_float_payload_special
        canonical_nan_special canonicalize_plain split: if_splits)
next
  case (8 fs)
  then obtain ob where ob: "object_to_json [] fs = Inr ob" "j = JObject ob"
    by (auto simp: result_simps)
  with 8 obtain ext where "ob = ext" "map fst ext = map fst fs"
    "object_to_value [] ext = Inr (map (\<lambda>(k, v). (k, canon_nan v)) fs)"
    by fastforce
  moreover from this have "special_object ext = None"
    using object_to_json_names [OF ob(1)] by (intro special_object_None ballI) (metis list.set_map)
  ultimately show ?case using ob by simp
next
  case (12 ob name field fs)
  then obtain u jf where step: "validate_field_name name = Inr u" "value_to_json field = Inr jf"
      "object_to_json (om_insert name jf ob) fs = Inr ob'"
    by (auto simp: result_simps)
  have ins: "om_insert name jf ob = ob @ [(name, jf)]"
    using 12 by (intro om_insert_last) auto
  have field: "json_to_value jf = Inr (canon_nan field)"
    using 12 step by auto
  have "\<exists>ext. ob' = om_insert name jf ob @ ext \<and> map fst ext = map fst fs \<and>
       (\<forall>acc. (\<forall>k \<in> fst ` set acc. \<forall>k' \<in> fst ` set fs. k < k') \<longrightarrow>
          object_to_value acc ext = Inr (acc @ map (\<lambda>(k, v). (k, canon_nan v)) fs))"
    using "12.prems" step by (intro "12.IH"(2)) (auto simp: ins om_wf_Cons)
  then obtain ext where ext: "ob' = om_insert name jf ob @ ext" "map fst ext = map fst fs"
      "\<And>acc. (\<forall>k \<in> fst ` set acc. \<forall>k' \<in> fst ` set fs. k < k') \<Longrightarrow>
          object_to_value acc ext = Inr (acc @ map (\<lambda>(k, v). (k, canon_nan v)) fs)"
    by blast
  show ?case
  proof (intro exI [of _ "(name, jf) # ext"] conjI allI impI)
    fix acc :: value_object
    assume acc: "\<forall>k \<in> fst ` set acc. \<forall>k' \<in> fst ` set ((name, field) # fs). k < k'"
    then have "map_of acc name = None" by (auto simp: map_of_eq_None_iff)
    moreover have "om_insert name (canon_nan field) acc = acc @ [(name, canon_nan field)]"
      using acc by (intro om_insert_last) auto
    moreover have "\<forall>k \<in> fst ` set (acc @ [(name, canon_nan field)]). \<forall>k' \<in> fst ` set fs. k < k'"
      using acc "12.prems"(1) by (auto simp: om_wf_Cons)
    ultimately show "object_to_value acc ((name, jf) # ext) =
        Inr (acc @ map (\<lambda>(k, v). (k, canon_nan v)) ((name, field) # fs))"
      by (simp add: field om_emplace_fresh ext(3))
  qed (use ext ins in auto)
qed (auto simp: special_object_def json_string_def result_simps b64_named.dec_enc)

text \<open>A value survives its round trip up to the payload of its NaNs, which the encoder fixes.\<close>

lemma canon_nan_idem [simp]: "canon_nan (canon_nan v) = canon_nan v"
  by (induction v rule: canon_nan.induct) (auto simp: canonical_nan_special)

lemma canonical_nan_isnan [simp]: "f64_isnan (canonicalize_if_nan d) = f64_isnan d"
  by (auto simp: canonicalize_if_nan_def f64_isnan_def f64_exponent_def f64_mantissa_def)

lemma canon_nan_id: "nan_free v \<Longrightarrow> canon_nan v = v"
proof (induction v rule: canon_nan.induct)
  case (2 vs)
  then show ?case by (auto simp: list_all_iff intro: map_idI)
next
  case (3 fs)
  then show ?case by (auto simp: list_all_iff intro!: map_idI)
qed (auto simp: canonicalize_if_nan_def)

lemma encode_canon_nan_aux:
  "value_to_json (canon_nan v) = value_to_json v"
  "array_to_json (map canon_nan vs) = array_to_json vs"
  "object_to_json ob (map (\<lambda>(k, v). (k, canon_nan v)) fs) = object_to_json ob fs"
proof (induction v and vs and ob fs rule: value_to_json_array_to_json_object_to_json.induct)
  case (10 v vs)
  then show ?case by (cases "value_to_json v") auto
next
  case (12 ob name field fs)
  then show ?case
    by (cases "validate_field_name name"; cases "value_to_json field") auto
qed (auto simp: canonical_nan_special canonicalize_plain)

text \<open>
  Encoding a value fails exactly when an object somewhere in it has a field name that
  is empty, too long, starts with a dollar sign or holds a byte outside printable ASCII, and
  then always with a \<open>codec_error\<close>.
\<close>

theorem value_to_json_fails_iff:
  "case value_to_json v of
     Inr _ \<Rightarrow> names_valid v
   | Inl e \<Rightarrow> \<not> names_valid v \<and> (\<exists>m. e = Codec_error m)"
  by (rule encode_total_aux(1))

text \<open>
  \<open>C37\<close>. Decoding an encoded value returns the value, with every NaN replaced by the canonical
  quiet NaN and everything else, negative zero, 64-bit integers, bytes and nested fields
  included, unchanged bit for bit.
\<close>

theorem codec_roundtrip:
  assumes "value_wf v" and "value_to_json v = Inr j"
  shows "json_to_value j = Inr (canon_nan v) \<and> (nan_free v \<longrightarrow> json_to_value j = Inr v)"
  using codec_roundtrip_aux(1) [OF assms] canon_nan_id by auto

theorem codec_roundtrip_witness:
  "json_to_value (JObject [(''a'', JArray [JFloat 0, JObject [(''$float'', JString ''AAAAAAAAAIA='')]]),
       (''b'', JObject [(''$integer'', JString ''/////////38='')])])
   = Inr (VObject [(''a'', VArray [VFloat64 0, VFloat64 f64_neg_zero]), (''b'', VInt64 0x7FFFFFFFFFFFFFFF)])"
proof -
  let ?v = "VObject [(''a'', VArray [VFloat64 0, VFloat64 f64_neg_zero]),
      (''b'', VInt64 0x7FFFFFFFFFFFFFFF)]"
  have "value_wf ?v \<and> nan_free ?v" by code_simp
  moreover have "value_to_json ?v = Inr (JObject [(''a'', JArray [JFloat 0,
      JObject [(''$float'', JString ''AAAAAAAAAIA='')]]),
       (''b'', JObject [(''$integer'', JString ''/////////38='')])])"
    by code_simp
  ultimately show ?thesis using codec_roundtrip [of ?v] by blast
qed

text \<open>
  \<open>C38\<close>. Encodings are canonical: two well-formed values that encode at all have the same JSON
  document exactly when they agree up to NaN payloads. This is what makes the serialized
  arguments usable as the identity of a query.
\<close>

theorem encoding_canonical:
  assumes "value_wf v" "value_wf w" and "value_to_json v = Inr j"
  shows "value_to_json w = Inr j \<longleftrightarrow> canon_nan w = canon_nan v"
proof
  assume "value_to_json w = Inr j"
  with assms show "canon_nan w = canon_nan v"
    using codec_roundtrip_aux(1) by (metis sum.inject(2))
next
  assume "canon_nan w = canon_nan v"
  then have "value_to_json w = value_to_json v" by (metis encode_canon_nan_aux(1))
  with assms show "value_to_json w = Inr j" by simp
qed

theorem encoding_canonical_witness:
  "value_to_json (VFloat64 0xFFF8000000000001) = Inr (JObject [(''$float'', JString ''AAAAAAAA+H8='')])"
proof -
  have "value_wf (VFloat64 0xFFF8000000000001)" "value_wf (VFloat64 0x7FF8000000000000)"
    "canon_nan (VFloat64 0xFFF8000000000001) = canon_nan (VFloat64 0x7FF8000000000000)"
    "value_to_json (VFloat64 0x7FF8000000000000) = Inr (JObject [(''$float'', JString ''AAAAAAAA+H8='')])"
    by code_simp+
  then show ?thesis using encoding_canonical by blast
qed

text \<open>
  What the two directions promise each other whatever they are given: the decoder only builds
  well-formed values, and the encoder only builds documents whose text form says all they say
  (\<open>dump()\<close> would print a NaN or an infinity as \<open>null\<close>).
\<close>

fun wire_json :: "json \<Rightarrow> bool" where
  "wire_json (JInt _) = False"
| "wire_json (JUInt _) = False"
| "wire_json (JFloat d) = (f64_isfinite d \<and> d \<noteq> f64_neg_zero)"
| "wire_json (JArray js) = list_all wire_json js"
| "wire_json (JObject fs) = (om_wf fs \<and> list_all (\<lambda>(_, j). wire_json j) fs)"
| "wire_json (JBinary _) = False"
| "wire_json JDiscarded = False"
| "wire_json _ = True"

lemma list_all_om_insert [intro]:
  "list_all P m \<Longrightarrow> P (k, v) \<Longrightarrow> list_all P (om_insert k v m)"
  using set_om_insert_subset [of k v m] by (auto simp: list_all_iff)

lemma list_all_om_emplace [intro]:
  "list_all P m \<Longrightarrow> P (k, v) \<Longrightarrow> list_all P (om_emplace k v m)"
  by (auto simp: om_emplace_def split: option.splits)

lemma special_object_wf: "special_object fs = Some (Inr v) \<Longrightarrow> value_wf v"
  by (auto simp: special_object_def decode_float_payload_def result_simps
      split: list.splits prod.splits option.splits if_splits)

lemma decode_wf_aux:
  "json_to_value j = Inr v \<Longrightarrow> value_wf v"
  "array_to_value js = Inr vs \<Longrightarrow> list_all value_wf vs"
  "object_to_value ob fs = Inr ob' \<Longrightarrow> om_wf ob \<Longrightarrow> list_all (\<lambda>(_, v). value_wf v) ob \<Longrightarrow>
     om_wf ob' \<and> list_all (\<lambda>(_, v). value_wf v) ob'"
proof (induction j and js and ob fs arbitrary: v and vs and ob'
    rule: json_to_value_array_to_value_object_to_value.induct)
  case (8 fs)
  then show ?case
    by (cases "special_object fs") (auto simp: result_simps dest: special_object_wf)
next
  case (14 ob name field fs)
  then obtain w where "json_to_value field = Inr w" "object_to_value (om_emplace name w ob) fs = Inr ob'"
    by (auto simp: result_simps)
  with 14 show ?case by (simp add: list_all_om_emplace)
qed (auto simp: result_simps)

lemma encode_wire_aux:
  "value_to_json v = Inr j \<Longrightarrow> wire_json j"
  "array_to_json vs = Inr js \<Longrightarrow> list_all wire_json js"
  "object_to_json ob fs = Inr ob' \<Longrightarrow> om_wf ob \<Longrightarrow> list_all (\<lambda>(_, j). wire_json j) ob \<Longrightarrow>
     om_wf ob' \<and> list_all (\<lambda>(_, j). wire_json j) ob'"
proof (induction v and vs and ob fs arbitrary: j and js and ob'
    rule: value_to_json_array_to_json_object_to_json.induct)
  case (4 d)
  then show ?case
    by (auto simp: is_special_float_def f64_neg_zero_def f64_iszero_def f64_signbit_def om_wf_Cons
        split: if_splits)
next
  case (12 ob name field fs)
  then obtain k where "value_to_json field = Inr k" "object_to_json (om_insert name k ob) fs = Inr ob'"
    by (auto simp: result_simps)
  with 12 show ?case by (auto simp: result_simps list_all_om_insert)
qed (auto simp: result_simps om_wf_Cons)

text \<open>
  \<open>C36\<close>. Types of the wire: whatever document the decoder accepts, the value it builds is well
  formed (the keys of every object strictly ascending); it encodes exactly when its field names
  are valid, then to a document with ordered keys, no integer, binary or discarded node and
  no number that has no plain text form (NaN, infinities, negative zero), and that document
  decodes to the value again, up to NaN payloads.
\<close>

theorem decoded_value_types:
  assumes "json_to_value j = Inr v"
  shows "value_wf v \<and>
    (case value_to_json v of
       Inr j' \<Rightarrow> names_valid v \<and> wire_json j' \<and> json_to_value j' = Inr (canon_nan v)
     | Inl e \<Rightarrow> \<not> names_valid v \<and> (\<exists>m. e = Codec_error m))"
proof -
  have wf: "value_wf v" by (rule decode_wf_aux(1) [OF assms])
  then show ?thesis
    using encode_total_aux(1) [of v] encode_wire_aux(1) [of v] codec_roundtrip_aux(1) [of v]
    by (auto split: sum.splits)
qed

theorem decoded_value_types_witness:
  "json_to_value (JObject [(''b'', JInt 0), (''a'', JBool True)])
     = Inr (VObject [(''a'', VBool True), (''b'', VFloat64 0)])
   \<and> value_wf (VObject [(''a'', VBool True), (''b'', VFloat64 0)])"
proof -
  have "json_to_value (JObject [(''b'', JInt 0), (''a'', JBool True)])
     = Inr (VObject [(''a'', VBool True), (''b'', VFloat64 0)])"
    by code_simp
  then show ?thesis using decoded_value_types by blast
qed

end
