(* ===== verification/Messages.thy ===== *)
theory Messages
  imports Codec
begin

section \<open>Protocol messages (\<open>protocol.h\<close>)\<close>

text \<open>
  The messages of the WebSocket sync protocol as the header declares them: one record per
  struct, one datatype per variant. Identifiers and versions are 32-bit, timestamps 64-bit
  unsigned integers. The path and the serialized arguments of a query or a request are
  canonical strings; together they identify a query.
\<close>

type_synonym timestamp = "64 word"
type_synonym query_id = "32 word"
type_synonym query_set_version = "32 word"
type_synonym identity_version = "32 word"
type_synonym request_id = "32 word"

subsection \<open>Client to server\<close>

record connect_message =
  cm_session_id :: string
  cm_connection_count :: "32 word"
  cm_last_close_reason :: string
  cm_max_observed_timestamp :: "timestamp option"
  cm_client_ts :: "64 word option"

record query_add =
  qa_id :: query_id
  qa_udf_path :: string
  qa_args_json :: string
  qa_journal :: "string option"
  qa_component_path :: "string option"

datatype query_set_modification = QS_add query_add | QS_remove query_id

record modify_query_set_message =
  mq_base_version :: query_set_version
  mq_new_version :: query_set_version
  mq_modifications :: "query_set_modification list"

text \<open>\<open>mutation_request_message\<close> and \<open>action_request_message\<close> have the same fields.\<close>

record request_message =
  rq_id :: request_id
  rq_udf_path :: string
  rq_args_json :: string
  rq_component_path :: "string option"

datatype auth_kind = Auth_none | Auth_user | Auth_admin

record auth_token =
  at_type :: auth_kind
  at_value :: string
  at_acting_as :: "value_object option"

definition auth_token_none :: auth_token where
  "auth_token_none = \<lparr>at_type = Auth_none, at_value = [], at_acting_as = None\<rparr>"

definition auth_token_user :: "string \<Rightarrow> auth_token" where
  "auth_token_user jwt = \<lparr>at_type = Auth_user, at_value = jwt, at_acting_as = None\<rparr>"

definition auth_token_admin :: "string \<Rightarrow> value_object option \<Rightarrow> auth_token" where
  "auth_token_admin key acting = \<lparr>at_type = Auth_admin, at_value = key, at_acting_as = acting\<rparr>"

record authenticate_message =
  am_base_version :: identity_version
  am_token :: auth_token

datatype client_message =
    CM_connect connect_message
  | CM_authenticate authenticate_message
  | CM_modify_query_set modify_query_set_message
  | CM_mutation request_message
  | CM_action request_message

subsection \<open>Server to client\<close>

record state_version =
  sv_query_set :: query_set_version
  sv_identity :: identity_version
  sv_ts :: timestamp

definition initial_state_version :: state_version where
  "initial_state_version = \<lparr>sv_query_set = 0, sv_identity = 0, sv_ts = 0\<rparr>"

record query_updated =
  qu_id :: query_id
  qu_result :: convex_value
  qu_log_lines :: "string list"
  qu_journal :: "string option"

record query_failed =
  qf_id :: query_id
  qf_error_message :: string
  qf_error_data :: "convex_value option"
  qf_log_lines :: "string list"
  qf_journal :: "string option"

datatype state_modification =
    SM_updated query_updated
  | SM_failed query_failed
  | SM_removed query_id

fun sm_id :: "state_modification \<Rightarrow> query_id" where
  "sm_id (SM_updated u) = qu_id u"
| "sm_id (SM_failed f) = qf_id f"
| "sm_id (SM_removed i) = i"

record transition_message =
  tr_start_version :: state_version
  tr_end_version :: state_version
  tr_modifications :: "state_modification list"

record mutation_response_message =
  mr_id :: request_id
  mr_result :: function_result
  mr_ts :: "timestamp option"
  mr_log_lines :: "string list"

record action_response_message =
  ar_id :: request_id
  ar_result :: function_result
  ar_log_lines :: "string list"

record auth_error_message =
  ae_error :: string
  ae_base_version :: "identity_version option"
  ae_auth_update_attempted :: bool

record transition_chunk_message =
  tc_chunk :: string
  tc_part_number :: "32 word"
  tc_total_parts :: "32 word"
  tc_transition_id :: string

datatype server_message =
    SV_transition transition_message
  | SV_mutation_response mutation_response_message
  | SV_action_response action_response_message
  | SV_auth_error auth_error_message
  | SV_fatal_error string
  | SV_ping
  | SV_transition_chunk transition_chunk_message

subsection \<open>Canonical paths and arguments\<close>

definition canonicalize_udf_path :: "string \<Rightarrow> string" where
  "canonicalize_udf_path path =
     (let (module_path, function_name) =
            (case find_sub path '':'' of
               None \<Rightarrow> (path, ''default'')
             | Some colon \<Rightarrow> (take colon path, drop (colon + 1) path));
          module_path' = (if ends_with module_path ''.js''
                          then take (length module_path - 3) module_path else module_path)
      in module_path' @ '':'' @ function_name)"

definition serialize_args :: "json_lib \<Rightarrow> value_object \<Rightarrow> string result" where
  "serialize_args L args =
     bindr (to_wire_json L (VObject args)) (\<lambda>s. Inr (''['' @ s @ '']''))"

text \<open>The module part with a trailing \<open>.js\<close> taken off, once.\<close>

definition strip_js :: "string \<Rightarrow> string" where
  "strip_js p = (if ends_with p ''.js'' then take (length p - 3) p else p)"

lemma find_colon_None: "CHR '':'' \<notin> set p \<Longrightarrow> find_sub p '':'' = None"
  by (induction p) auto

lemma find_colon_first: "CHR '':'' \<notin> set m \<Longrightarrow> find_sub (m @ '':'' @ f) '':'' = Some (length m)"
  by (induction m) auto

lemma set_strip_js: "set (strip_js p) \<subseteq> set p"
  by (auto simp: strip_js_def dest: in_set_takeD)

lemma canonicalize_colon:
  "CHR '':'' \<notin> set m \<Longrightarrow> canonicalize_udf_path (m @ '':'' @ f) = strip_js m @ '':'' @ f"
  using find_colon_first [of m f] by (simp add: canonicalize_udf_path_def strip_js_def)

lemma canonicalize_no_colon:
  "CHR '':'' \<notin> set m \<Longrightarrow> canonicalize_udf_path m = strip_js m @ '':default''"
  using find_colon_None [of m] by (simp add: canonicalize_udf_path_def strip_js_def)

text \<open>
  Canonical paths: a path with no function part gets \<open>default\<close>, one trailing \<open>.js\<close> of
  the module part (the part before the first colon) is dropped, everything after the first
  colon is kept as it is; the bare module, the module with \<open>.js\<close> and the module with
  \<open>:default\<close> are one query function. Only one \<open>.js\<close> is taken off, so the function is
  idempotent exactly on the modules that do not end in \<open>.js\<close> twice.
\<close>

theorem canonicalize_spec:
  assumes "CHR '':'' \<notin> set m"
  shows "canonicalize_udf_path (m @ '':'' @ f) = strip_js m @ '':'' @ f
    \<and> canonicalize_udf_path m = canonicalize_udf_path (m @ '':default'')
    \<and> strip_js (m @ ''.js'') = m
    \<and> (canonicalize_udf_path (canonicalize_udf_path (m @ '':'' @ f)) =
           canonicalize_udf_path (m @ '':'' @ f) \<longleftrightarrow> \<not> ends_with (strip_js m) ''.js'')"
proof -
  have 1: "canonicalize_udf_path (m @ '':'' @ f) = strip_js m @ '':'' @ f"
    using assms by (rule canonicalize_colon)
  have 2: "canonicalize_udf_path m = canonicalize_udf_path (m @ '':default'')"
    using canonicalize_no_colon [OF assms] canonicalize_colon [OF assms, of "''default''"] by simp
  have 3: "strip_js (m @ ''.js'') = m"
    by (simp add: strip_js_def ends_with_def)
  have "CHR '':'' \<notin> set (strip_js m)"
    using assms set_strip_js [of m] by auto
  then have "canonicalize_udf_path (strip_js m @ '':'' @ f) = strip_js (strip_js m) @ '':'' @ f"
    by (rule canonicalize_colon)
  moreover have "strip_js p = p \<longleftrightarrow> \<not> ends_with p ''.js''" for p
    by (auto simp: strip_js_def ends_with_def dest: arg_cong [of _ _ length])
  ultimately have 4: "canonicalize_udf_path (canonicalize_udf_path (m @ '':'' @ f)) =
      canonicalize_udf_path (m @ '':'' @ f) \<longleftrightarrow> \<not> ends_with (strip_js m) ''.js''"
    using 1 by simp
  show ?thesis using 1 2 3 4 by blast
qed

theorem canonicalize_spec_witness:
  "canonicalize_udf_path ''messages.js:list'' = ''messages:list''
   \<and> canonicalize_udf_path ''messages'' = ''messages:default''"
proof -
  have "CHR '':'' \<notin> set ''messages.js''" "CHR '':'' \<notin> set ''messages''"
    by simp_all
  then show ?thesis
    using canonicalize_spec [of "''messages.js''" "''list''"]
      canonicalize_spec [of "''messages''" "''default''"]
    by (simp add: strip_js_def ends_with_def)
qed

end
