(* ===== verification/BaseClient.thy ===== *)
theory BaseClient
  imports Messages
begin

section \<open>The client state machine (\<open>base_client\<close>)\<close>

text \<open>
  \<open>base_client\<close> holds what the client wants (its query set, its token, its requests) and what
  the server has acknowledged, and turns local operations into outgoing messages. The record has
  the fields of the class; every operation takes the state and returns the new one beside what
  the call returns or throws. The serialization of arguments is that of the JSON library \<open>L\<close>.
  The \<open>std::map\<close>s are the ordered maps of \<open>OrdMap\<close>, so that the iteration orders the code relies on
  are in the model. \<open>at\<close> of a missing key and the use of an empty \<open>optional\<close> are error
  branches; the invariant below shows that they are never taken.
\<close>

subsection \<open>Data\<close>

text \<open>\<open>subscriber_id\<close>, with the order its defaulted \<open>operator<=>\<close> has: by query, then by index.\<close>

datatype subscriber_id = Subscriber_id (si_query: query_id) (si_index: "64 word")

instantiation subscriber_id :: linorder
begin

definition less_eq_subscriber_id :: "subscriber_id \<Rightarrow> subscriber_id \<Rightarrow> bool" where
  "less_eq_subscriber_id a b \<longleftrightarrow>
     si_query a < si_query b \<or> si_query a = si_query b \<and> si_index a \<le> si_index b"

definition less_subscriber_id :: "subscriber_id \<Rightarrow> subscriber_id \<Rightarrow> bool" where
  "less_subscriber_id a b \<longleftrightarrow>
     si_query a < si_query b \<or> si_query a = si_query b \<and> si_index a < si_index b"

instance
  by standard
     (auto simp: less_eq_subscriber_id_def less_subscriber_id_def intro: subscriber_id.expand)

end

datatype source_kind = Source_query | Source_mutation | Source_action

record log_entry =
  le_source :: source_kind
  le_udf_path :: string
  le_lines :: "string list"

record receive_result =
  rr_state_changed :: bool
  rr_changed_queries :: "query_id list"
  rr_completed_requests :: "(request_id \<times> function_result) list"
  rr_log_entries :: "log_entry list"
  rr_reconnect_reason :: "string option"
  rr_auth_error :: bool
  rr_auth_update_attempted :: bool

definition no_receive_result :: receive_result where
  "no_receive_result = \<lparr>rr_state_changed = False, rr_changed_queries = [], rr_completed_requests = [],
     rr_log_entries = [], rr_reconnect_reason = None, rr_auth_error = False,
     rr_auth_update_attempted = False\<rparr>"

record local_query =
  lq_id :: query_id
  lq_udf_path :: string
  lq_args_json :: string
  lq_num_subscribers :: "64 word"
  lq_journal :: "string option"

datatype request_kind = RK_mutation | RK_action

record pending_request =
  pr_typ :: request_kind
  pr_completed :: bool
  pr_ts :: "timestamp option"
  pr_result :: "function_result option"
  pr_original_message :: client_message

record base_client =
  bc_session_id :: string
  bc_next_query_id :: query_id
  bc_next_subscription_index :: "64 word"
  bc_query_set_version :: query_set_version
  bc_identity_version :: identity_version
  bc_query_set :: "(string, local_query) omap"
  bc_id_to_token :: "(query_id, string) omap"
  bc_auth :: "auth_token option"
  bc_remote_version :: state_version
  bc_remote_results :: "(query_id, function_result) omap"
  bc_next_request_id :: request_id
  bc_ongoing_requests :: "(request_id, pending_request) omap"
  bc_connection_count :: "32 word"
  bc_max_observed_timestamp :: "timestamp option"
  bc_outstanding_queries :: "query_id set"
  bc_outgoing :: "client_message list"

text \<open>A new client; its session identifier is generated at construction.\<close>

definition new_base_client :: "string \<Rightarrow> base_client" where
  "new_base_client sid = \<lparr>bc_session_id = sid, bc_next_query_id = 0, bc_next_subscription_index = 0,
     bc_query_set_version = 0, bc_identity_version = 0, bc_query_set = [], bc_id_to_token = [],
     bc_auth = None, bc_remote_version = initial_state_version, bc_remote_results = [],
     bc_next_request_id = 0, bc_ongoing_requests = [], bc_connection_count = 0,
     bc_max_observed_timestamp = None, bc_outstanding_queries = {}, bc_outgoing = []\<rparr>"

definition push_outgoing :: "client_message \<Rightarrow> base_client \<Rightarrow> base_client" where
  "push_outgoing m b = b\<lparr>bc_outgoing := bc_outgoing b @ [m]\<rparr>"

subsection \<open>Local operations\<close>

definition query_token :: "string \<Rightarrow> string \<Rightarrow> string" where
  "query_token udf_path args_json = udf_path @ ''|'' @ args_json"

text \<open>
  \<open>subscribe_query\<close> is the part of \<open>subscribe\<close> after the path and the arguments are canonical.
\<close>

definition subscribe_query :: "string \<Rightarrow> string \<Rightarrow> base_client \<Rightarrow> base_client \<times> subscriber_id" where
  "subscribe_query canonical args_json b =
     (let token = query_token canonical args_json in
      case map_of (bc_query_set b) token of
        Some q \<Rightarrow>
          (b\<lparr>bc_query_set := om_insert token
                (q\<lparr>lq_num_subscribers := lq_num_subscribers q + 1\<rparr>) (bc_query_set b),
             bc_next_subscription_index := bc_next_subscription_index b + 1\<rparr>,
           Subscriber_id (lq_id q) (bc_next_subscription_index b))
      | None \<Rightarrow>
          (let qid = bc_next_query_id b;
               q = \<lparr>lq_id = qid, lq_udf_path = canonical, lq_args_json = args_json,
                    lq_num_subscribers = 1, lq_journal = None\<rparr>;
               add = \<lparr>qa_id = qid, qa_udf_path = canonical, qa_args_json = args_json,
                      qa_journal = None, qa_component_path = None\<rparr>;
               m = \<lparr>mq_base_version = bc_query_set_version b,
                    mq_new_version = bc_query_set_version b + 1,
                    mq_modifications = [QS_add add]\<rparr>
           in (push_outgoing (CM_modify_query_set m)
                 (b\<lparr>bc_next_query_id := bc_next_query_id b + 1,
                    bc_id_to_token := om_emplace qid token (bc_id_to_token b),
                    bc_query_set := om_emplace token q (bc_query_set b),
                    bc_query_set_version := bc_query_set_version b + 1,
                    bc_next_subscription_index := bc_next_subscription_index b + 1\<rparr>),
               Subscriber_id qid (bc_next_subscription_index b))))"

definition subscribe ::
  "json_lib \<Rightarrow> string \<Rightarrow> value_object \<Rightarrow> base_client \<Rightarrow> base_client \<times> subscriber_id result"
where
  "subscribe L udf_path args b =
     (case serialize_args L args of
        Inl e \<Rightarrow> (b, Inl e)
      | Inr args_json \<Rightarrow>
          (let (b', sid) = subscribe_query (canonicalize_udf_path udf_path) args_json b
           in (b', Inr sid)))"

definition unsubscribe :: "subscriber_id \<Rightarrow> base_client \<Rightarrow> base_client" where
  "unsubscribe sid b =
     (case map_of (bc_id_to_token b) (si_query sid) of
        None \<Rightarrow> b
      | Some token \<Rightarrow>
          (case map_of (bc_query_set b) token of
             None \<Rightarrow> b
           | Some q \<Rightarrow>
               (let n = lq_num_subscribers q - 1 in
                if n > 0
                then b\<lparr>bc_query_set :=
                        om_insert token (q\<lparr>lq_num_subscribers := n\<rparr>) (bc_query_set b)\<rparr>
                else
                  push_outgoing (CM_modify_query_set
                      \<lparr>mq_base_version = bc_query_set_version b,
                       mq_new_version = bc_query_set_version b + 1,
                       mq_modifications = [QS_remove (si_query sid)]\<rparr>)
                    (b\<lparr>bc_query_set := om_erase token (bc_query_set b),
                       bc_id_to_token := om_erase (si_query sid) (bc_id_to_token b),
                       bc_remote_results := om_erase (si_query sid) (bc_remote_results b),
                       bc_outstanding_queries := bc_outstanding_queries b - {si_query sid},
                       bc_query_set_version := bc_query_set_version b + 1\<rparr>))))"

text \<open>
  A request takes its identifier before its arguments are serialized: when that throws, the
  identifier is spent and nothing else has changed.
\<close>

definition enqueue_request ::
  "request_kind \<Rightarrow> (request_message \<Rightarrow> client_message) \<Rightarrow> json_lib \<Rightarrow> string \<Rightarrow> value_object
    \<Rightarrow> base_client \<Rightarrow> base_client \<times> request_id result"
where
  "enqueue_request kind mk L udf_path args b =
     (let rid = bc_next_request_id b;
          b1 = b\<lparr>bc_next_request_id := bc_next_request_id b + 1\<rparr>
      in case serialize_args L args of
           Inl e \<Rightarrow> (b1, Inl e)
         | Inr args_json \<Rightarrow>
             (let m = mk \<lparr>rq_id = rid, rq_udf_path = canonicalize_udf_path udf_path,
                          rq_args_json = args_json, rq_component_path = None\<rparr>;
                  req = \<lparr>pr_typ = kind, pr_completed = False, pr_ts = None, pr_result = None,
                         pr_original_message = m\<rparr>
              in (push_outgoing m
                    (b1\<lparr>bc_ongoing_requests := om_emplace rid req (bc_ongoing_requests b1)\<rparr>),
                  Inr rid)))"

definition mutation ::
  "json_lib \<Rightarrow> string \<Rightarrow> value_object \<Rightarrow> base_client \<Rightarrow> base_client \<times> request_id result"
where
  "mutation = enqueue_request RK_mutation CM_mutation"

definition action ::
  "json_lib \<Rightarrow> string \<Rightarrow> value_object \<Rightarrow> base_client \<Rightarrow> base_client \<times> request_id result"
where
  "action = enqueue_request RK_action CM_action"

definition set_auth :: "auth_token \<Rightarrow> base_client \<Rightarrow> base_client" where
  "set_auth tok b =
     push_outgoing (CM_authenticate \<lparr>am_base_version = bc_identity_version b, am_token = tok\<rparr>)
       (b\<lparr>bc_auth := (if at_type tok = Auth_none then None else Some tok),
          bc_identity_version := bc_identity_version b + 1\<rparr>)"

text \<open>\<open>*auth_\<close> is read only where \<open>auth_\<close> is set.\<close>

definition enqueue_authenticate :: "auth_token \<Rightarrow> base_client \<Rightarrow> base_client" where
  "enqueue_authenticate tok b =
     push_outgoing (CM_authenticate \<lparr>am_base_version = bc_identity_version b, am_token = tok\<rparr>)
       (b\<lparr>bc_identity_version := bc_identity_version b + 1\<rparr>)"

subsection \<open>Server input\<close>

definition observe_timestamp :: "timestamp \<Rightarrow> base_client \<Rightarrow> base_client" where
  "observe_timestamp ts b =
     (case bc_max_observed_timestamp b of
        None \<Rightarrow> b\<lparr>bc_max_observed_timestamp := Some ts\<rparr>
      | Some old \<Rightarrow> if ts > old then b\<lparr>bc_max_observed_timestamp := Some ts\<rparr> else b)"

text \<open>
  The loop of \<open>flush_completed\<close>: what it emits, and the requests that stay.
\<close>

definition flushable :: "timestamp \<Rightarrow> pending_request \<Rightarrow> bool" where
  "flushable watermark req \<longleftrightarrow>
     pr_completed req \<and> (case pr_ts req of None \<Rightarrow> False | Some ts \<Rightarrow> ts \<le> watermark)"

fun flush_requests ::
  "timestamp \<Rightarrow> (request_id, pending_request) omap
    \<Rightarrow> ((request_id \<times> function_result) list \<times> (request_id, pending_request) omap) result"
where
  "flush_requests watermark [] = Inr ([], [])"
| "flush_requests watermark ((rid, req) # rest) =
     (if flushable watermark req
      then (case pr_result req of
              None \<Rightarrow> Inl (Undefined_behaviour ''operator* of an empty optional'')
            | Some r \<Rightarrow> bindr (flush_requests watermark rest) (\<lambda>(out, kept). Inr ((rid, r) # out, kept)))
      else bindr (flush_requests watermark rest) (\<lambda>(out, kept). Inr (out, (rid, req) # kept)))"

definition flush_completed ::
  "timestamp \<Rightarrow> base_client \<times> receive_result \<Rightarrow> (base_client \<times> receive_result) result"
where
  "flush_completed watermark = (\<lambda>(b, out).
     bindr (flush_requests watermark (bc_ongoing_requests b)) (\<lambda>(done, kept).
       Inr (b\<lparr>bc_ongoing_requests := kept\<rparr>,
            out\<lparr>rr_completed_requests := rr_completed_requests out @ done\<rparr>)))"

definition udf_path_for :: "base_client \<Rightarrow> query_id \<Rightarrow> string" where
  "udf_path_for b i =
     (case map_of (bc_id_to_token b) i of
        None \<Rightarrow> []
      | Some token \<Rightarrow>
          (case map_of (bc_query_set b) token of None \<Rightarrow> [] | Some q \<Rightarrow> lq_udf_path q))"

definition push_log :: "source_kind \<Rightarrow> string \<Rightarrow> string list \<Rightarrow> receive_result \<Rightarrow> receive_result" where
  "push_log src path ls out =
     (if ls = [] then out
      else out\<lparr>rr_log_entries := rr_log_entries out @ [\<lparr>le_source = src, le_udf_path = path, le_lines = ls\<rparr>]\<rparr>)"

text \<open>\<open>query_set_.at(token).journal = journal\<close>, when the query is still subscribed.\<close>

definition set_journal :: "query_id \<Rightarrow> string option \<Rightarrow> base_client \<Rightarrow> base_client result" where
  "set_journal i journal b =
     (case map_of (bc_id_to_token b) i of
        None \<Rightarrow> Inr b
      | Some token \<Rightarrow>
          (case map_of (bc_query_set b) token of
             None \<Rightarrow> Inl (Out_of_range ''map::at'')
           | Some q \<Rightarrow>
               Inr (b\<lparr>bc_query_set := om_insert token (q\<lparr>lq_journal := journal\<rparr>) (bc_query_set b)\<rparr>)))"

definition set_remote_result :: "query_id \<Rightarrow> function_result \<Rightarrow> base_client \<Rightarrow> base_client" where
  "set_remote_result i r b =
     b\<lparr>bc_remote_results := om_insert i r (bc_remote_results b),
       bc_outstanding_queries := bc_outstanding_queries b - {i}\<rparr>"

fun apply_state_modification ::
  "state_modification \<Rightarrow> base_client \<times> receive_result \<Rightarrow> (base_client \<times> receive_result) result"
where
  "apply_state_modification (SM_updated u) (b, out) =
     bindr (set_journal (qu_id u) (qu_journal u) (set_remote_result (qu_id u) (FR_success (qu_result u)) b))
       (\<lambda>b'. Inr (b', push_log Source_query (udf_path_for b (qu_id u)) (qu_log_lines u) out))"
| "apply_state_modification (SM_failed f) (b, out) =
     (let r = (case qf_error_data f of
                 Some d \<Rightarrow> FR_app_error \<lparr>ce_message = qf_error_message f, ce_data = d\<rparr>
               | None \<Rightarrow> FR_error (qf_error_message f))
      in bindr (set_journal (qf_id f) (qf_journal f) (set_remote_result (qf_id f) r b))
           (\<lambda>b'. Inr (b', push_log Source_query (udf_path_for b (qf_id f)) (qf_log_lines f) out)))"
| "apply_state_modification (SM_removed i) (b, out) =
     Inr (b\<lparr>bc_remote_results := om_erase i (bc_remote_results b),
            bc_outstanding_queries := bc_outstanding_queries b - {i}\<rparr>, out)"

fun apply_state_modifications ::
  "state_modification list \<Rightarrow> base_client \<times> receive_result \<Rightarrow> (base_client \<times> receive_result) result"
where
  "apply_state_modifications [] s = Inr s"
| "apply_state_modifications (m # ms) s =
     bindr (apply_state_modification m s) (\<lambda>(b, out).
       apply_state_modifications ms
         (b, out\<lparr>rr_changed_queries := rr_changed_queries out @ [sm_id m]\<rparr>))"

definition handle_transition ::
  "transition_message \<Rightarrow> base_client \<Rightarrow> (base_client \<times> receive_result) result"
where
  "handle_transition t b =
     (if tr_start_version t \<noteq> bc_remote_version b
      then Inr (b, no_receive_result\<lparr>rr_reconnect_reason := Some ''StartVersionMismatch''\<rparr>)
      else bindr (apply_state_modifications (tr_modifications t) (b, no_receive_result)) (\<lambda>(b1, out).
        bindr (flush_completed (sv_ts (tr_end_version t))
                 (observe_timestamp (sv_ts (tr_end_version t))
                    (b1\<lparr>bc_remote_version := tr_end_version t\<rparr>), out))
          (\<lambda>(b2, out'). Inr (b2, out'\<lparr>rr_state_changed := True\<rparr>))))"

text \<open>The path of the request a response answers, empty when it was of the other kind.\<close>

definition mutation_path :: "client_message \<Rightarrow> string" where
  "mutation_path m = (case m of CM_mutation r \<Rightarrow> rq_udf_path r | _ \<Rightarrow> [])"

definition action_path :: "client_message \<Rightarrow> string" where
  "action_path m = (case m of CM_action r \<Rightarrow> rq_udf_path r | _ \<Rightarrow> [])"

definition complete_request ::
  "request_id \<Rightarrow> function_result \<Rightarrow> base_client \<times> receive_result \<Rightarrow> base_client \<times> receive_result"
where
  "complete_request rid r = (\<lambda>(b, out).
     (b\<lparr>bc_ongoing_requests := om_erase rid (bc_ongoing_requests b)\<rparr>,
      out\<lparr>rr_completed_requests := rr_completed_requests out @ [(rid, r)]\<rparr>))"

definition handle_mutation_response ::
  "mutation_response_message \<Rightarrow> base_client \<Rightarrow> (base_client \<times> receive_result) result"
where
  "handle_mutation_response m b =
     (case map_of (bc_ongoing_requests b) (mr_id m) of
        None \<Rightarrow> Inr (b, no_receive_result)
      | Some req \<Rightarrow>
          (let out = push_log Source_mutation (mutation_path (pr_original_message req))
                       (mr_log_lines m) no_receive_result
           in if fr_ok (mr_result m)
              then (case mr_ts m of
                      Some ts \<Rightarrow>
                        flush_completed (sv_ts (bc_remote_version b))
                          (observe_timestamp ts
                             (b\<lparr>bc_ongoing_requests := om_insert (mr_id m)
                                  (req\<lparr>pr_completed := True, pr_ts := Some ts,
                                       pr_result := Some (mr_result m)\<rparr>) (bc_ongoing_requests b)\<rparr>), out)
                    | None \<Rightarrow> Inr (complete_request (mr_id m) (mr_result m) (b, out)))
              else Inr (complete_request (mr_id m) (mr_result m) (b, out))))"

definition handle_action_response ::
  "action_response_message \<Rightarrow> base_client \<Rightarrow> base_client \<times> receive_result"
where
  "handle_action_response m b =
     (case map_of (bc_ongoing_requests b) (ar_id m) of
        None \<Rightarrow> (b, no_receive_result)
      | Some req \<Rightarrow>
          complete_request (ar_id m) (ar_result m)
            (b, push_log Source_action (action_path (pr_original_message req))
                  (ar_log_lines m) no_receive_result))"

fun receive_message ::
  "server_message \<Rightarrow> base_client \<Rightarrow> (base_client \<times> receive_result) result"
where
  "receive_message (SV_transition t) b = handle_transition t b"
| "receive_message (SV_mutation_response m) b = handle_mutation_response m b"
| "receive_message (SV_action_response a) b = Inr (handle_action_response a b)"
| "receive_message (SV_auth_error e) b =
     Inr (b, no_receive_result\<lparr>rr_reconnect_reason := Some (''AuthError: '' @ ae_error e),
       rr_auth_error := True, rr_auth_update_attempted := ae_auth_update_attempted e\<rparr>)"
| "receive_message (SV_fatal_error e) b =
     Inr (b, no_receive_result\<lparr>rr_reconnect_reason := Some (''FatalError: '' @ e)\<rparr>)"
| "receive_message (SV_transition_chunk c) b =
     Inr (b, no_receive_result\<lparr>rr_reconnect_reason := Some ''ProtocolError: unassembled TransitionChunk''\<rparr>)"
| "receive_message SV_ping b = Inr (b, no_receive_result)"

subsection \<open>Outgoing queue, restart and introspection\<close>

definition pop_next_message :: "base_client \<Rightarrow> base_client \<times> client_message option" where
  "pop_next_message b =
     (case bc_outgoing b of
        [] \<Rightarrow> (b, None)
      | m # rest \<Rightarrow> (b\<lparr>bc_outgoing := rest\<rparr>, Some m))"

definition unsent_actions :: "client_message list \<Rightarrow> request_id set" where
  "unsent_actions q = set (concat (map (\<lambda>m. case m of CM_action a \<Rightarrow> [rq_id a] | _ \<Rightarrow> []) q))"

definition action_lost :: "request_id set \<Rightarrow> request_id \<times> pending_request \<Rightarrow> bool" where
  "action_lost unsent = (\<lambda>(rid, req). pr_typ req = RK_action \<and> rid \<notin> unsent)"

definition restore_query :: "local_query \<Rightarrow> query_set_modification" where
  "restore_query q = QS_add \<lparr>qa_id = lq_id q, qa_udf_path = lq_udf_path q,
     qa_args_json = lq_args_json q, qa_journal = lq_journal q, qa_component_path = None\<rparr>"

definition refresh_auth :: "auth_token option \<Rightarrow> base_client \<Rightarrow> base_client" where
  "refresh_auth refreshed b =
     (case refreshed of
        None \<Rightarrow> b
      | Some tok \<Rightarrow> b\<lparr>bc_auth := (if at_type tok = Auth_none then None else Some tok)\<rparr>)"

definition restore_query_set :: "base_client \<Rightarrow> base_client" where
  "restore_query_set b =
     (let b1 = b\<lparr>bc_outstanding_queries := {}\<rparr> in
      if bc_query_set b1 = [] then b1
      else push_outgoing (CM_modify_query_set
               \<lparr>mq_base_version = bc_query_set_version b1,
                mq_new_version = bc_query_set_version b1 + 1,
                mq_modifications = map (\<lambda>(token, q). restore_query q) (bc_query_set b1)\<rparr>)
             (b1\<lparr>bc_query_set_version := bc_query_set_version b1 + 1,
                 bc_outstanding_queries := set (map (\<lambda>(token, q). lq_id q) (bc_query_set b1))\<rparr>))"

definition restore_requests ::
  "request_id set \<Rightarrow> base_client \<Rightarrow> base_client \<times> (request_id \<times> function_result) list"
where
  "restore_requests unsent b =
     (let lost = filter (action_lost unsent) (bc_ongoing_requests b);
          kept = filter (\<lambda>r. \<not> action_lost unsent r) (bc_ongoing_requests b)
      in (b\<lparr>bc_ongoing_requests := kept,
            bc_outgoing := bc_outgoing b @ map (\<lambda>(rid, req). pr_original_message req) kept\<rparr>,
          map (\<lambda>(rid, req). (rid, FR_error ''Connection lost while action was in flight'')) lost))"

definition restart ::
  "auth_token option \<Rightarrow> base_client \<Rightarrow> base_client \<times> (request_id \<times> function_result) list"
where
  "restart refreshed b =
     (let unsent = unsent_actions (bc_outgoing b);
          b1 = b\<lparr>bc_outgoing := [], bc_identity_version := 0, bc_query_set_version := 0,
                 bc_remote_version := initial_state_version, bc_remote_results := []\<rparr>;
          b2 = refresh_auth refreshed b1;
          b3 = (case bc_auth b2 of None \<Rightarrow> b2 | Some tok \<Rightarrow> enqueue_authenticate tok b2)
      in restore_requests unsent (restore_query_set b3))"

definition make_connect_message ::
  "string \<Rightarrow> 64 word option \<Rightarrow> base_client \<Rightarrow> base_client \<times> connect_message"
where
  "make_connect_message last_close_reason client_ts b =
     (b\<lparr>bc_connection_count := bc_connection_count b + 1\<rparr>,
      \<lparr>cm_session_id = bc_session_id b, cm_connection_count = bc_connection_count b,
       cm_last_close_reason = last_close_reason,
       cm_max_observed_timestamp = bc_max_observed_timestamp b, cm_client_ts = client_ts\<rparr>)"

definition latest_result :: "base_client \<Rightarrow> query_id \<Rightarrow> function_result option" where
  "latest_result b i = map_of (bc_remote_results b) i"

definition inflight :: "request_kind \<Rightarrow> base_client \<Rightarrow> nat" where
  "inflight k b = length (filter (\<lambda>(rid, req). pr_typ req = k) (bc_ongoing_requests b))"

definition inflight_mutations :: "base_client \<Rightarrow> nat" where
  "inflight_mutations = inflight RK_mutation"

definition inflight_actions :: "base_client \<Rightarrow> nat" where
  "inflight_actions = inflight RK_action"

definition has_synced_past_last_restart :: "base_client \<Rightarrow> bool" where
  "has_synced_past_last_restart b \<longleftrightarrow> bc_outstanding_queries b = {}"


subsection \<open>The invariant\<close>

text \<open>
  The query set and the index from query identifiers to tokens are inverse to each other, a token
  is the one of its path and arguments, every entry has a subscriber, identifiers are below the
  next one, and only subscribed queries are outstanding.
\<close>

definition queries_ok :: "base_client \<Rightarrow> bool" where
  "queries_ok b \<longleftrightarrow>
     om_wf (bc_query_set b) \<and> om_wf (bc_id_to_token b) \<and> om_wf (bc_remote_results b)
     \<and> (\<forall>tok q. map_of (bc_query_set b) tok = Some q \<longrightarrow>
          map_of (bc_id_to_token b) (lq_id q) = Some tok
          \<and> tok = query_token (lq_udf_path q) (lq_args_json q) \<and> lq_num_subscribers q \<noteq> 0)
     \<and> (\<forall>i tok. map_of (bc_id_to_token b) i = Some tok \<longrightarrow>
          i < bc_next_query_id b \<and> (\<exists>q. map_of (bc_query_set b) tok = Some q \<and> lq_id q = i))
     \<and> (\<forall>i \<in> bc_outstanding_queries b. map_of (bc_id_to_token b) i \<noteq> None)"

text \<open>
  A request is a mutation or an action with its own message. It is completed only with a success
  whose timestamp the remote version has not reached, and the largest observed timestamp covers
  both.
\<close>

definition request_ok :: "base_client \<Rightarrow> request_id \<Rightarrow> pending_request \<Rightarrow> bool" where
  "request_ok b rid req \<longleftrightarrow>
     (\<exists>r. rq_id r = rid \<and> pr_original_message req =
        (case pr_typ req of RK_mutation \<Rightarrow> CM_mutation r | RK_action \<Rightarrow> CM_action r))
     \<and> (pr_completed req \<longrightarrow>
         (\<exists>ts r. pr_ts req = Some ts \<and> pr_result req = Some r \<and> fr_ok r
            \<and> sv_ts (bc_remote_version b) < ts
            \<and> (\<exists>top. bc_max_observed_timestamp b = Some top \<and> ts \<le> top)))"

definition requests_ok :: "base_client \<Rightarrow> bool" where
  "requests_ok b \<longleftrightarrow>
     om_wf (bc_ongoing_requests b)
     \<and> (\<forall>rid req. map_of (bc_ongoing_requests b) rid = Some req \<longrightarrow>
          rid < bc_next_request_id b \<and> request_ok b rid req)"

definition observed_ok :: "base_client \<Rightarrow> bool" where
  "observed_ok b \<longleftrightarrow> sv_ts (bc_remote_version b) = 0
     \<or> (\<exists>top. bc_max_observed_timestamp b = Some top \<and> sv_ts (bc_remote_version b) \<le> top)"

definition bc_inv :: "base_client \<Rightarrow> bool" where
  "bc_inv b \<longleftrightarrow> queries_ok b \<and> requests_ok b \<and> observed_ok b"

lemma queries_okD:
  assumes "queries_ok b"
  shows "om_wf (bc_query_set b)" "om_wf (bc_id_to_token b)" "om_wf (bc_remote_results b)"
    "map_of (bc_query_set b) tok = Some q \<Longrightarrow> map_of (bc_id_to_token b) (lq_id q) = Some tok"
    "map_of (bc_query_set b) tok = Some q \<Longrightarrow> tok = query_token (lq_udf_path q) (lq_args_json q)"
    "map_of (bc_query_set b) tok = Some q \<Longrightarrow> lq_num_subscribers q \<noteq> 0"
    "map_of (bc_id_to_token b) i = Some tok \<Longrightarrow> i < bc_next_query_id b"
    "map_of (bc_id_to_token b) i = Some tok \<Longrightarrow> \<exists>q. map_of (bc_query_set b) tok = Some q \<and> lq_id q = i"
    "i \<in> bc_outstanding_queries b \<Longrightarrow> map_of (bc_id_to_token b) i \<noteq> None"
  using assms by (auto simp: queries_ok_def)

lemma requests_okD:
  assumes "requests_ok b"
  shows "om_wf (bc_ongoing_requests b)"
    "map_of (bc_ongoing_requests b) rid = Some req \<Longrightarrow> rid < bc_next_request_id b"
    "map_of (bc_ongoing_requests b) rid = Some req \<Longrightarrow> request_ok b rid req"
  using assms by (auto simp: requests_ok_def)

text \<open>An operation that leaves the fields a conjunct reads keeps it.\<close>

lemma queries_ok_cong:
  "\<lbrakk>bc_query_set b' = bc_query_set b; bc_id_to_token b' = bc_id_to_token b;
    bc_remote_results b' = bc_remote_results b; bc_next_query_id b' = bc_next_query_id b;
    bc_outstanding_queries b' = bc_outstanding_queries b\<rbrakk> \<Longrightarrow> queries_ok b' = queries_ok b"
  by (simp add: queries_ok_def)

lemma requests_ok_cong:
  "\<lbrakk>bc_ongoing_requests b' = bc_ongoing_requests b; bc_next_request_id b' = bc_next_request_id b;
    bc_remote_version b' = bc_remote_version b;
    bc_max_observed_timestamp b' = bc_max_observed_timestamp b\<rbrakk> \<Longrightarrow> requests_ok b' = requests_ok b"
  by (simp add: requests_ok_def request_ok_def)

lemma observed_ok_cong:
  "\<lbrakk>bc_remote_version b' = bc_remote_version b;
    bc_max_observed_timestamp b' = bc_max_observed_timestamp b\<rbrakk> \<Longrightarrow> observed_ok b' = observed_ok b"
  by (simp add: observed_ok_def)

lemmas ok_congs = queries_ok_cong [THEN iffD1, rotated -1] requests_ok_cong [THEN iffD1, rotated -1]
  observed_ok_cong [THEN iffD1, rotated -1]

lemma bc_inv_new: "bc_inv (new_base_client sid)"
  by (simp add: bc_inv_def queries_ok_def requests_ok_def observed_ok_def new_base_client_def
      initial_state_version_def)

lemma push_outgoing_simps [simp]:
  "bc_session_id (push_outgoing m b) = bc_session_id b"
  "bc_next_query_id (push_outgoing m b) = bc_next_query_id b"
  "bc_next_subscription_index (push_outgoing m b) = bc_next_subscription_index b"
  "bc_query_set_version (push_outgoing m b) = bc_query_set_version b"
  "bc_identity_version (push_outgoing m b) = bc_identity_version b"
  "bc_query_set (push_outgoing m b) = bc_query_set b"
  "bc_id_to_token (push_outgoing m b) = bc_id_to_token b"
  "bc_auth (push_outgoing m b) = bc_auth b"
  "bc_remote_version (push_outgoing m b) = bc_remote_version b"
  "bc_remote_results (push_outgoing m b) = bc_remote_results b"
  "bc_next_request_id (push_outgoing m b) = bc_next_request_id b"
  "bc_ongoing_requests (push_outgoing m b) = bc_ongoing_requests b"
  "bc_connection_count (push_outgoing m b) = bc_connection_count b"
  "bc_max_observed_timestamp (push_outgoing m b) = bc_max_observed_timestamp b"
  "bc_outstanding_queries (push_outgoing m b) = bc_outstanding_queries b"
  "bc_outgoing (push_outgoing m b) = bc_outgoing b @ [m]"
  by (simp_all add: push_outgoing_def)

subsection \<open>Local operations keep the invariant\<close>

text \<open>
  The 32-bit identifiers and the subscriber counts are assumed not to wrap: \<open>subscribe_ok\<close> and
  \<open>request_id_free\<close> say that the next increment does not.
\<close>

definition subscribe_ok :: "base_client \<Rightarrow> bool" where
  "subscribe_ok b \<longleftrightarrow> bc_next_query_id b + 1 \<noteq> 0
     \<and> (\<forall>(tok, q) \<in> set (bc_query_set b). lq_num_subscribers q + 1 \<noteq> 0)"

definition request_id_free :: "base_client \<Rightarrow> bool" where
  "request_id_free b \<longleftrightarrow> bc_next_request_id b + 1 \<noteq> 0"

lemma subscribe_okD:
  assumes "subscribe_ok b"
  shows "bc_next_query_id b + 1 \<noteq> 0"
    "map_of (bc_query_set b) tok = Some q \<Longrightarrow> lq_num_subscribers q + 1 \<noteq> 0"
  using assms by (auto simp: subscribe_ok_def dest!: map_of_SomeD)

lemma fresh_query_id:
  assumes "queries_ok b"
  shows "map_of (bc_id_to_token b) (bc_next_query_id b) = None"
  using queries_okD(7) [OF assms, of "bc_next_query_id b"] by (cases "map_of (bc_id_to_token b) (bc_next_query_id b)") auto

text \<open>What \<open>subscribe\<close> does to a query that is subscribed already, and to a new one.\<close>

lemma subscribe_query_old:
  assumes "map_of (bc_query_set b) (query_token p a) = Some q"
  shows "subscribe_query p a b =
    (b\<lparr>bc_query_set := om_insert (query_token p a)
          (q\<lparr>lq_num_subscribers := lq_num_subscribers q + 1\<rparr>) (bc_query_set b),
       bc_next_subscription_index := bc_next_subscription_index b + 1\<rparr>,
     Subscriber_id (lq_id q) (bc_next_subscription_index b))"
  using assms by (simp add: subscribe_query_def Let_def)

definition new_query :: "string \<Rightarrow> string \<Rightarrow> base_client \<Rightarrow> base_client" where
  "new_query p a b =
     b\<lparr>bc_next_query_id := bc_next_query_id b + 1,
       bc_id_to_token := om_insert (bc_next_query_id b) (query_token p a) (bc_id_to_token b),
       bc_query_set := om_insert (query_token p a)
         \<lparr>lq_id = bc_next_query_id b, lq_udf_path = p, lq_args_json = a, lq_num_subscribers = 1,
          lq_journal = None\<rparr> (bc_query_set b),
       bc_query_set_version := bc_query_set_version b + 1,
       bc_next_subscription_index := bc_next_subscription_index b + 1\<rparr>"

lemma subscribe_query_new:
  assumes "queries_ok b" "map_of (bc_query_set b) (query_token p a) = None"
  shows "subscribe_query p a b =
    (push_outgoing (CM_modify_query_set
        \<lparr>mq_base_version = bc_query_set_version b, mq_new_version = bc_query_set_version b + 1,
         mq_modifications = [QS_add \<lparr>qa_id = bc_next_query_id b, qa_udf_path = p, qa_args_json = a,
           qa_journal = None, qa_component_path = None\<rparr>]\<rparr>) (new_query p a b),
     Subscriber_id (bc_next_query_id b) (bc_next_subscription_index b))"
  using assms fresh_query_id [OF assms(1)]
  by (simp add: subscribe_query_def new_query_def Let_def om_emplace_fresh)

lemma queries_ok_subscribe_old:
  assumes ok: "queries_ok b" and q: "map_of (bc_query_set b) tok = Some q"
    and "n \<noteq> 0"
  shows "queries_ok (b\<lparr>bc_query_set := om_insert tok (q\<lparr>lq_num_subscribers := n\<rparr>) (bc_query_set b)\<rparr>)"
  using queries_okD [OF ok] assms(3) q unfolding queries_ok_def
  by (auto split: if_splits) (metis option.inject)+

lemma queries_ok_new_query:
  assumes ok: "queries_ok b" and new: "map_of (bc_query_set b) (query_token p a) = None"
    and free: "bc_next_query_id b + 1 \<noteq> 0"
  shows "queries_ok (new_query p a b)"
proof -
  note D = queries_okD [OF ok]
  have neq: "lq_id q \<noteq> bc_next_query_id b" if "map_of (bc_query_set b) tok = Some q" for tok q
    using D(4) [OF that] D(7) by fastforce
  have tok: "tok \<noteq> query_token p a" if "map_of (bc_id_to_token b) i = Some tok" for i tok
    using D(8) [OF that] new by auto
  show ?thesis
    using D(1-3,9) unfolding queries_ok_def new_query_def
    by (auto simp: less_plus_one [OF free] dest: D(4,5,6) neq tok D(7,8) intro: less_imp_le)
qed

lemma subscribe_query_inv:
  assumes inv: "bc_inv b" and ok: "subscribe_ok b"
  shows "bc_inv (fst (subscribe_query p a b))"
proof -
  have q: "queries_ok b" and rest: "requests_ok b" "observed_ok b"
    using inv by (simp_all add: bc_inv_def)
  show ?thesis
  proof (cases "map_of (bc_query_set b) (query_token p a)")
    case None
    have "queries_ok (new_query p a b)"
      using queries_ok_new_query [OF q None] subscribe_okD(1) [OF ok] by blast
    then show ?thesis
      using rest unfolding subscribe_query_new [OF q None] bc_inv_def
      by (auto simp: new_query_def elim: ok_congs)
  next
    case (Some lq)
    have "queries_ok (b\<lparr>bc_query_set := om_insert (query_token p a)
        (lq\<lparr>lq_num_subscribers := lq_num_subscribers lq + 1\<rparr>) (bc_query_set b)\<rparr>)"
      by (rule queries_ok_subscribe_old [OF q Some]) (rule subscribe_okD(2) [OF ok Some])
    then show ?thesis
      using rest unfolding subscribe_query_old [OF Some] bc_inv_def
      by (auto elim: ok_congs)
  qed
qed

lemma subscribe_inv: "bc_inv b \<Longrightarrow> subscribe_ok b \<Longrightarrow> bc_inv (fst (subscribe L p args b))"
  using subscribe_query_inv [of b "canonicalize_udf_path p"]
  by (auto simp: subscribe_def split: sum.split prod.split) (metis fst_conv)

text \<open>\<open>unsubscribe\<close> on an unknown query, on a query with other subscribers, and on the last one.\<close>

definition drop_query :: "query_id \<Rightarrow> string \<Rightarrow> base_client \<Rightarrow> base_client" where
  "drop_query i tok b =
     b\<lparr>bc_query_set := om_erase tok (bc_query_set b),
       bc_id_to_token := om_erase i (bc_id_to_token b),
       bc_remote_results := om_erase i (bc_remote_results b),
       bc_outstanding_queries := bc_outstanding_queries b - {i},
       bc_query_set_version := bc_query_set_version b + 1\<rparr>"

lemma unsubscribe_unknown:
  "map_of (bc_id_to_token b) (si_query sid) = None \<Longrightarrow> unsubscribe sid b = b"
  by (simp add: unsubscribe_def)

lemma unsubscribe_shared:
  assumes "map_of (bc_id_to_token b) (si_query sid) = Some tok" "map_of (bc_query_set b) tok = Some q"
    and "lq_num_subscribers q \<noteq> 1"
  shows "unsubscribe sid b = b\<lparr>bc_query_set :=
    om_insert tok (q\<lparr>lq_num_subscribers := lq_num_subscribers q - 1\<rparr>) (bc_query_set b)\<rparr>"
  using assms by (simp add: unsubscribe_def Let_def word_gt_0)

lemma unsubscribe_last:
  assumes "map_of (bc_id_to_token b) (si_query sid) = Some tok" "map_of (bc_query_set b) tok = Some q"
    and "lq_num_subscribers q = 1"
  shows "unsubscribe sid b = push_outgoing (CM_modify_query_set
      \<lparr>mq_base_version = bc_query_set_version b, mq_new_version = bc_query_set_version b + 1,
       mq_modifications = [QS_remove (si_query sid)]\<rparr>) (drop_query (si_query sid) tok b)"
  using assms by (simp add: unsubscribe_def Let_def drop_query_def)

lemma queries_ok_drop_query:
  assumes ok: "queries_ok b" and tok: "map_of (bc_id_to_token b) i = Some tok"
  shows "queries_ok (drop_query i tok b)"
proof -
  note D = queries_okD [OF ok]
  obtain q where q: "map_of (bc_query_set b) tok = Some q" "lq_id q = i" using D(8) [OF tok] by blast
  have "lq_id q' \<noteq> i" if "map_of (bc_query_set b) tok' = Some q'" "tok' \<noteq> tok" for tok' q'
    using D(4) [OF that(1)] tok that(2) by auto
  moreover have "tok' \<noteq> tok" if "map_of (bc_id_to_token b) j = Some tok'" "j \<noteq> i" for j tok'
    using D(8) [OF that(1)] q that(2) by auto
  ultimately show ?thesis
    using D(1-3,9) unfolding queries_ok_def drop_query_def
    by (auto dest: D(4,5,6,7,8))
qed

lemma unsubscribe_inv:
  assumes inv: "bc_inv b"
  shows "bc_inv (unsubscribe sid b)"
proof (cases "map_of (bc_id_to_token b) (si_query sid)")
  case None
  then show ?thesis using inv by (simp add: unsubscribe_unknown)
next
  case (Some tok)
  have ok: "queries_ok b" and rest: "requests_ok b" "observed_ok b"
    using inv by (simp_all add: bc_inv_def)
  obtain q where q: "map_of (bc_query_set b) tok = Some q"
    using queries_okD(8) [OF ok Some] by blast
  show ?thesis
  proof (cases "lq_num_subscribers q = 1")
    case True
    have "queries_ok (drop_query (si_query sid) tok b)" by (rule queries_ok_drop_query [OF ok Some])
    then show ?thesis
      using rest unfolding unsubscribe_last [OF Some q True] bc_inv_def
      by (auto simp: drop_query_def elim: ok_congs)
  next
    case False
    have "queries_ok (b\<lparr>bc_query_set :=
        om_insert tok (q\<lparr>lq_num_subscribers := lq_num_subscribers q - 1\<rparr>) (bc_query_set b)\<rparr>)"
      by (rule queries_ok_subscribe_old [OF ok q]) (use False in simp)
    then show ?thesis
      using rest unfolding unsubscribe_shared [OF Some q False] bc_inv_def
      by (auto elim: ok_congs)
  qed
qed

lemma fresh_request_id:
  assumes "requests_ok b"
  shows "map_of (bc_ongoing_requests b) (bc_next_request_id b) = None"
  using requests_okD(2) [OF assms, of "bc_next_request_id b"]
  by (cases "map_of (bc_ongoing_requests b) (bc_next_request_id b)") auto

lemma enqueue_request_throws:
  "serialize_args L args = Inl e \<Longrightarrow> enqueue_request k mk L p args b =
     (b\<lparr>bc_next_request_id := bc_next_request_id b + 1\<rparr>, Inl e)"
  by (simp add: enqueue_request_def Let_def)

definition new_request :: "request_kind \<Rightarrow> client_message \<Rightarrow> base_client \<Rightarrow> base_client" where
  "new_request k m b =
     b\<lparr>bc_next_request_id := bc_next_request_id b + 1,
       bc_ongoing_requests := om_insert (bc_next_request_id b)
         \<lparr>pr_typ = k, pr_completed = False, pr_ts = None, pr_result = None, pr_original_message = m\<rparr>
         (bc_ongoing_requests b)\<rparr>"

lemma enqueue_request_ok:
  assumes "requests_ok b" "serialize_args L args = Inr a"
    and "m = mk \<lparr>rq_id = bc_next_request_id b, rq_udf_path = canonicalize_udf_path p,
                 rq_args_json = a, rq_component_path = None\<rparr>"
  shows "enqueue_request k mk L p args b =
    (push_outgoing m (new_request k m b), Inr (bc_next_request_id b))"
  using assms fresh_request_id [OF assms(1)]
  by (simp add: enqueue_request_def new_request_def Let_def om_emplace_fresh)

lemma requests_ok_new_request:
  assumes ok: "requests_ok b" and free: "request_id_free b"
    and m: "rq_id r = bc_next_request_id b"
      "m = (case k of RK_mutation \<Rightarrow> CM_mutation r | RK_action \<Rightarrow> CM_action r)"
  shows "requests_ok (new_request k m b)"
proof -
  have free': "bc_next_request_id b + 1 \<noteq> 0" using free by (simp add: request_id_free_def)
  show ?thesis
    using requests_okD [OF ok] m unfolding requests_ok_def new_request_def request_ok_def
    by (auto simp: less_plus_one [OF free'] intro: less_imp_le)
qed

lemma requests_ok_next:
  assumes "requests_ok b" "request_id_free b"
  shows "requests_ok (b\<lparr>bc_next_request_id := bc_next_request_id b + 1\<rparr>)"
  using assms
  by (auto simp: requests_ok_def request_id_free_def request_ok_def less_plus_one intro: less_imp_le)

lemma enqueue_request_inv:
  assumes inv: "bc_inv b" and free: "request_id_free b"
    and mk: "mk = (case k of RK_mutation \<Rightarrow> CM_mutation | RK_action \<Rightarrow> CM_action)"
  shows "bc_inv (fst (enqueue_request k mk L p args b))"
proof (cases "serialize_args L args")
  case (Inl e)
  then show ?thesis
    using inv free requests_ok_next unfolding bc_inv_def
    by (auto simp: enqueue_request_throws cong: queries_ok_cong observed_ok_cong)
next
  case (Inr a)
  define r where "r = \<lparr>rq_id = bc_next_request_id b, rq_udf_path = canonicalize_udf_path p,
    rq_args_json = a, rq_component_path = None\<rparr>"
  have ok: "requests_ok b" using inv by (simp add: bc_inv_def)
  have "requests_ok (new_request k (mk r) b)"
    by (rule requests_ok_new_request [OF ok free, of r]) (simp_all add: r_def mk split: request_kind.split)
  then show ?thesis
    using inv unfolding enqueue_request_ok [OF ok Inr refl] bc_inv_def
    by (auto simp: new_request_def r_def elim: ok_congs)
qed

lemma set_auth_inv: "bc_inv b \<Longrightarrow> bc_inv (set_auth tok b)"
  unfolding bc_inv_def set_auth_def
  by (auto elim: ok_congs)

subsection \<open>Server input keeps the invariant and never throws\<close>

text \<open>
  The loop of \<open>flush_completed\<close> splits the requests: those with a timestamp up to the watermark
  are emitted in ascending order of their identifiers, the others stay.
\<close>

lemma flush_requests_eq:
  assumes "\<And>rid req. (rid, req) \<in> set m \<Longrightarrow> flushable w req \<Longrightarrow> pr_result req \<noteq> None"
  shows "flush_requests w m =
    Inr (map (\<lambda>(rid, req). (rid, the (pr_result req))) (filter (\<lambda>(rid, req). flushable w req) m),
         filter (\<lambda>(rid, req). \<not> flushable w req) m)"
  using assms
proof (induction w m rule: flush_requests.induct)
  case (2 w rid req rest)
  have prems: "(i, x) \<in> set rest \<Longrightarrow> flushable w x \<Longrightarrow> pr_result x \<noteq> None" for i x
    by (rule 2(3) [of i x]) simp_all
  have IH: "flush_requests w rest =
     Inr (map (\<lambda>(rid, req). (rid, the (pr_result req))) (filter (\<lambda>(rid, req). flushable w req) rest),
         filter (\<lambda>(rid, req). \<not> flushable w req) rest)"
  proof (cases "flushable w req")
    case True
    then obtain r where r: "pr_result req = Some r" using 2(3) [of rid req] by auto
    show ?thesis by (rule 2(1) [OF True r]) (rule prems)
  next
    case False
    show ?thesis by (rule 2(2) [OF False]) (rule prems)
  qed
  show ?case using IH 2(3) [of rid req] by auto
qed simp

lemma request_ok_flushable:
  "request_ok b rid req \<Longrightarrow> flushable w req \<Longrightarrow>
     \<exists>ts r. pr_ts req = Some ts \<and> ts \<le> w \<and> pr_result req = Some r \<and> fr_ok r"
  by (auto simp: request_ok_def flushable_def)

lemma flush_completed_eq:
  assumes "\<And>rid req. (rid, req) \<in> set (bc_ongoing_requests b) \<Longrightarrow> flushable w req \<Longrightarrow> pr_result req \<noteq> None"
  shows "flush_completed w (b, out) =
    Inr (b\<lparr>bc_ongoing_requests := filter (\<lambda>(rid, req). \<not> flushable w req) (bc_ongoing_requests b)\<rparr>,
         out\<lparr>rr_completed_requests := rr_completed_requests out @
           map (\<lambda>(rid, req). (rid, the (pr_result req)))
             (filter (\<lambda>(rid, req). flushable w req) (bc_ongoing_requests b))\<rparr>)"
  by (simp add: flush_completed_def flush_requests_eq [OF assms])

text \<open>Storing a journal touches the one query with that identifier, and always finds it.\<close>

definition put_journal ::
  "query_id \<Rightarrow> string option \<Rightarrow> (string, local_query) omap \<Rightarrow> (string, local_query) omap"
where
  "put_journal i j m = map (\<lambda>(tok, q). (tok, if lq_id q = i then q\<lparr>lq_journal := j\<rparr> else q)) m"

lemma map_of_put_journal:
  "map_of (put_journal i j m) tok =
     map_option (\<lambda>q. if lq_id q = i then q\<lparr>lq_journal := j\<rparr> else q) (map_of m tok)"
  unfolding put_journal_def map_of_map by simp

lemma om_wf_put_journal [simp]: "om_wf m \<Longrightarrow> om_wf (put_journal i j m)"
  unfolding put_journal_def by (rule om_wf_map_values)

lemma set_journal_eq:
  assumes ok: "queries_ok b"
  shows "set_journal i j b = Inr (b\<lparr>bc_query_set := put_journal i j (bc_query_set b)\<rparr>)"
proof (cases "map_of (bc_id_to_token b) i")
  case None
  have "lq_id q \<noteq> i" if "(tok, q) \<in> set (bc_query_set b)" for tok q
    using queries_okD(1,4) [OF ok] that None by (auto simp: om_wf_map_of_iff)
  then have "put_journal i j (bc_query_set b) = bc_query_set b"
    unfolding put_journal_def by (intro map_idI) auto
  with None show ?thesis by (simp add: set_journal_def)
next
  case (Some tok)
  note D = queries_okD [OF ok]
  obtain q where q: "map_of (bc_query_set b) tok = Some q" "lq_id q = i" using D(8) [OF Some] by blast
  have uniq: "lq_id q' \<noteq> i" if "map_of (bc_query_set b) tok' = Some q'" "tok' \<noteq> tok" for tok' q'
    using D(4) [OF that(1)] Some that(2) by auto
  have "om_insert tok (q\<lparr>lq_journal := j\<rparr>) (bc_query_set b) = put_journal i j (bc_query_set b)"
  proof (rule om_wf_ext)
    show "map_of (om_insert tok (q\<lparr>lq_journal := j\<rparr>) (bc_query_set b)) =
        map_of (put_journal i j (bc_query_set b))"
    proof
      fix t
      show "map_of (om_insert tok (q\<lparr>lq_journal := j\<rparr>) (bc_query_set b)) t =
        map_of (put_journal i j (bc_query_set b)) t"
        using q uniq [of t]
        by (cases "map_of (bc_query_set b) t"; cases "t = tok") (simp_all add: map_of_put_journal)
    qed
  qed (use D(1) in simp_all)
  with Some q show ?thesis by (simp add: set_journal_def)
qed

text \<open>What the modifications of a transition do to the results, the journals and the log.\<close>

fun sm_result :: "state_modification \<Rightarrow> function_result option" where
  "sm_result (SM_updated u) = Some (FR_success (qu_result u))"
| "sm_result (SM_failed f) = Some (case qf_error_data f of
     Some d \<Rightarrow> FR_app_error \<lparr>ce_message = qf_error_message f, ce_data = d\<rparr>
   | None \<Rightarrow> FR_error (qf_error_message f))"
| "sm_result (SM_removed i) = None"

fun sm_journal :: "state_modification \<Rightarrow> string option" where
  "sm_journal (SM_updated u) = qu_journal u"
| "sm_journal (SM_failed f) = qf_journal f"
| "sm_journal (SM_removed i) = None"

fun sm_log_lines :: "state_modification \<Rightarrow> string list" where
  "sm_log_lines (SM_updated u) = qu_log_lines u"
| "sm_log_lines (SM_failed f) = qf_log_lines f"
| "sm_log_lines (SM_removed i) = []"

definition apply_result ::
  "state_modification \<Rightarrow> (query_id, function_result) omap \<Rightarrow> (query_id, function_result) omap"
where
  "apply_result m rs = (case sm_result m of Some r \<Rightarrow> om_insert (sm_id m) r rs | None \<Rightarrow> om_erase (sm_id m) rs)"

definition apply_journal ::
  "state_modification \<Rightarrow> (string, local_query) omap \<Rightarrow> (string, local_query) omap"
where
  "apply_journal m qs = (case sm_result m of Some r \<Rightarrow> put_journal (sm_id m) (sm_journal m) qs | None \<Rightarrow> qs)"

definition sm_log :: "base_client \<Rightarrow> state_modification \<Rightarrow> log_entry list" where
  "sm_log b m = (if sm_log_lines m = [] then []
     else [\<lparr>le_source = Source_query, le_udf_path = udf_path_for b (sm_id m), le_lines = sm_log_lines m\<rparr>])"

lemma apply_state_modification_eq:
  assumes ok: "queries_ok b"
  shows "apply_state_modification m (b, out) =
    Inr (b\<lparr>bc_query_set := apply_journal m (bc_query_set b),
           bc_remote_results := apply_result m (bc_remote_results b),
           bc_outstanding_queries := bc_outstanding_queries b - {sm_id m}\<rparr>,
         out\<lparr>rr_log_entries := rr_log_entries out @ sm_log b m\<rparr>)"
proof -
  have "queries_ok (set_remote_result i r b)" for i r
    using ok by (auto simp: queries_ok_def set_remote_result_def)
  then show ?thesis
    by (cases m) (auto simp: set_journal_eq set_remote_result_def apply_result_def apply_journal_def
      sm_log_def push_log_def Let_def split: option.splits)
qed

lemma om_wf_apply_result [simp]: "om_wf rs \<Longrightarrow> om_wf (apply_result m rs)"
  by (auto simp: apply_result_def split: option.split)

lemma om_wf_apply_journal [simp]: "om_wf qs \<Longrightarrow> om_wf (apply_journal m qs)"
  by (auto simp: apply_journal_def split: option.split)

lemma map_of_apply_journal:
  "map_of (apply_journal m qs) tok = map_option (\<lambda>q.
     if sm_result m \<noteq> None \<and> lq_id q = sm_id m then q\<lparr>lq_journal := sm_journal m\<rparr> else q) (map_of qs tok)"
  by (cases "map_of qs tok") (simp_all add: apply_journal_def map_of_put_journal split: option.split)

lemma queries_ok_apply:
  assumes ok: "queries_ok b"
  shows "queries_ok (b\<lparr>bc_query_set := apply_journal m (bc_query_set b),
           bc_remote_results := apply_result m (bc_remote_results b),
           bc_outstanding_queries := bc_outstanding_queries b - {sm_id m}\<rparr>)"
proof -
  note D = queries_okD [OF ok]
  have idx: "i < bc_next_query_id b
      \<and> (\<exists>q. map_of (apply_journal m (bc_query_set b)) tok = Some q \<and> lq_id q = i)"
    if tok: "map_of (bc_id_to_token b) i = Some tok" for i tok
  proof -
    obtain q where "map_of (bc_query_set b) tok = Some q" "lq_id q = i" using D(8) [OF tok] by blast
    with D(7) [OF tok] show ?thesis by (simp add: map_of_apply_journal)
  qed
  have ent: "map_of (bc_id_to_token b) (lq_id q) = Some tok
      \<and> tok = query_token (lq_udf_path q) (lq_args_json q) \<and> lq_num_subscribers q \<noteq> 0"
    if q: "map_of (apply_journal m (bc_query_set b)) tok = Some q" for tok q
  proof -
    obtain q' where q': "map_of (bc_query_set b) tok = Some q'"
      and "q = q' \<or> (\<exists>j. q = q'\<lparr>lq_journal := j\<rparr>)"
      using q unfolding map_of_apply_journal by (auto split: if_splits)
    with D(4) [OF q'] D(5) [OF q'] D(6) [OF q'] show ?thesis by auto
  qed
  show ?thesis unfolding queries_ok_def
    using D(1-3) D(9) by (simp, intro conjI allI impI) (use ent idx in blast)+
qed

text \<open>The journal changes nothing but itself, so the paths in the log are those before the transition.\<close>

lemma udf_path_for_apply:
  "udf_path_for (b\<lparr>bc_query_set := apply_journal m (bc_query_set b), bc_remote_results := rs,
     bc_outstanding_queries := os\<rparr>) i = udf_path_for b i"
  by (auto simp: udf_path_for_def map_of_apply_journal split: option.split)

lemma apply_state_modifications_eq:
  "queries_ok b \<Longrightarrow> apply_state_modifications ms (b, out) =
     Inr (b\<lparr>bc_query_set := fold apply_journal ms (bc_query_set b),
            bc_remote_results := fold apply_result ms (bc_remote_results b),
            bc_outstanding_queries := bc_outstanding_queries b - set (map sm_id ms)\<rparr>,
          out\<lparr>rr_log_entries := rr_log_entries out @ concat (map (sm_log b) ms),
              rr_changed_queries := rr_changed_queries out @ map sm_id ms\<rparr>)
   \<and> queries_ok (b\<lparr>bc_query_set := fold apply_journal ms (bc_query_set b),
            bc_remote_results := fold apply_result ms (bc_remote_results b),
            bc_outstanding_queries := bc_outstanding_queries b - set (map sm_id ms)\<rparr>)"
proof (induction ms arbitrary: b out)
  case Nil
  then show ?case by simp
next
  case (Cons m ms)
  let ?b = "b\<lparr>bc_query_set := apply_journal m (bc_query_set b),
           bc_remote_results := apply_result m (bc_remote_results b),
           bc_outstanding_queries := bc_outstanding_queries b - {sm_id m}\<rparr>"
  have log: "sm_log ?b = sm_log b" by (rule ext) (simp add: sm_log_def udf_path_for_apply)
  have sets: "bc_outstanding_queries b - {sm_id m} - sm_id ` set ms =
      bc_outstanding_queries b - insert (sm_id m) (sm_id ` set ms)" by auto
  show ?case
    using Cons.IH [OF queries_ok_apply [OF Cons.prems, of m]]
    by (simp add: apply_state_modification_eq [OF Cons.prems] log sets)
qed

text \<open>
  A transition from the version the client is at, in closed form: the results and journals are
  those of its modifications in order, the completed requests are the successes whose timestamp
  the end version has reached, and the version is the end version.
\<close>

lemma observe_timestamp_simps [simp]:
  "bc_ongoing_requests (observe_timestamp ts b) = bc_ongoing_requests b"
  "bc_next_request_id (observe_timestamp ts b) = bc_next_request_id b"
  "bc_remote_version (observe_timestamp ts b) = bc_remote_version b"
  "bc_query_set (observe_timestamp ts b) = bc_query_set b"
  "bc_id_to_token (observe_timestamp ts b) = bc_id_to_token b"
  "bc_remote_results (observe_timestamp ts b) = bc_remote_results b"
  "bc_next_query_id (observe_timestamp ts b) = bc_next_query_id b"
  "bc_outstanding_queries (observe_timestamp ts b) = bc_outstanding_queries b"
  "bc_outgoing (observe_timestamp ts b) = bc_outgoing b"
  "bc_query_set_version (observe_timestamp ts b) = bc_query_set_version b"
  "bc_identity_version (observe_timestamp ts b) = bc_identity_version b"
  "bc_auth (observe_timestamp ts b) = bc_auth b"
  "bc_session_id (observe_timestamp ts b) = bc_session_id b"
  "bc_connection_count (observe_timestamp ts b) = bc_connection_count b"
  "bc_next_subscription_index (observe_timestamp ts b) = bc_next_subscription_index b"
  by (simp_all add: observe_timestamp_def split: option.split)

lemma observe_timestamp_max:
  "bc_max_observed_timestamp (observe_timestamp ts b) = Some (case bc_max_observed_timestamp b of
     None \<Rightarrow> ts | Some old \<Rightarrow> max old ts)"
  by (auto simp: observe_timestamp_def max_def split: option.split)

definition flushed :: "timestamp \<Rightarrow> base_client \<Rightarrow> (request_id \<times> function_result) list" where
  "flushed w b = map (\<lambda>(rid, req). (rid, the (pr_result req)))
     (filter (\<lambda>(rid, req). flushable w req) (bc_ongoing_requests b))"

definition advance :: "transition_message \<Rightarrow> base_client \<Rightarrow> base_client" where
  "advance t b =
     (observe_timestamp (sv_ts (tr_end_version t))
       (b\<lparr>bc_query_set := fold apply_journal (tr_modifications t) (bc_query_set b),
          bc_remote_results := fold apply_result (tr_modifications t) (bc_remote_results b),
          bc_outstanding_queries := bc_outstanding_queries b - set (map sm_id (tr_modifications t)),
          bc_remote_version := tr_end_version t\<rparr>))
      \<lparr>bc_ongoing_requests :=
         filter (\<lambda>(rid, req). \<not> flushable (sv_ts (tr_end_version t)) req) (bc_ongoing_requests b)\<rparr>"

lemma requests_result:
  assumes "requests_ok b" "(rid, req) \<in> set (bc_ongoing_requests b)" "flushable w req"
  shows "pr_result req \<noteq> None"
proof -
  have "map_of (bc_ongoing_requests b) rid = Some req"
    using assms(1,2) requests_okD(1) [OF assms(1)] by (simp add: om_wf_map_of_iff)
  then show ?thesis
    using request_ok_flushable [OF requests_okD(3) [OF assms(1)] assms(3)] by auto
qed

lemma handle_transition_eq:
  assumes inv: "bc_inv b" and start: "tr_start_version t = bc_remote_version b"
  shows "handle_transition t b = Inr (advance t b,
     no_receive_result\<lparr>rr_state_changed := True,
       rr_changed_queries := map sm_id (tr_modifications t),
       rr_log_entries := concat (map (sm_log b) (tr_modifications t)),
       rr_completed_requests := flushed (sv_ts (tr_end_version t)) b\<rparr>)"
proof -
  have q: "queries_ok b" and r: "requests_ok b" using inv by (simp_all add: bc_inv_def)
  note eq = conjunct1 [OF apply_state_modifications_eq [OF q]]
  show ?thesis
    unfolding handle_transition_def eq
    apply (simp add: start)
    apply (subst flush_completed_eq)
    subgoal by (simp add: requests_result [OF r])
    apply (simp add: advance_def flushed_def no_receive_result_def)
    done
qed

lemma observed_le:
  "bc_max_observed_timestamp b = Some top \<Longrightarrow> x \<le> top \<Longrightarrow>
     \<exists>top'. bc_max_observed_timestamp (observe_timestamp ts b) = Some top' \<and> x \<le> top'"
  by (simp add: observe_timestamp_max max.coboundedI1)

lemma advance_requests_ok:
  assumes r: "requests_ok b"
  shows "requests_ok (advance t b)"
proof -
  let ?w = "sv_ts (tr_end_version t)"
  have "request_ok (advance t b) rid req"
    if req: "map_of (bc_ongoing_requests b) rid = Some req" and keep: "\<not> flushable ?w req" for rid req
  proof -
    have ok: "request_ok b rid req" by (rule requests_okD(3) [OF r req])
    then show ?thesis
      using keep unfolding request_ok_def
      by (auto simp: advance_def flushable_def observe_timestamp_max not_le max.coboundedI1 split: option.splits)
  qed
  then show ?thesis
    using requests_okD(1,2) [OF r] unfolding requests_ok_def
    by (auto simp: advance_def map_of_filter_om split: option.splits if_splits)
qed

lemma advance_inv: "bc_inv b \<Longrightarrow> bc_inv (advance t b)"
proof -
  assume inv: "bc_inv b"
  then have q: "queries_ok b" and r: "requests_ok b" by (simp_all add: bc_inv_def)
  have "queries_ok (advance t b)"
    using conjunct2 [OF apply_state_modifications_eq [OF q, of "tr_modifications t"]]
    by (auto simp: advance_def elim: ok_congs)
  moreover have "observed_ok (advance t b)"
    by (auto simp: observed_ok_def advance_def observe_timestamp_max max_def split: option.split)
  ultimately show ?thesis using advance_requests_ok [OF r] by (simp add: bc_inv_def)
qed

text \<open>Removing a request, and completing one that waits for its timestamp.\<close>

lemma requests_ok_erase:
  "requests_ok b \<Longrightarrow> requests_ok (b\<lparr>bc_ongoing_requests := om_erase rid (bc_ongoing_requests b)\<rparr>)"
  by (auto simp: requests_ok_def request_ok_def)

lemma bc_inv_erase:
  "bc_inv b \<Longrightarrow> bc_inv (b\<lparr>bc_ongoing_requests := om_erase rid (bc_ongoing_requests b)\<rparr>)"
  unfolding bc_inv_def using requests_ok_erase by (auto elim: ok_congs)

definition completed :: "mutation_response_message \<Rightarrow> timestamp \<Rightarrow> pending_request \<Rightarrow> pending_request" where
  "completed m ts req = req\<lparr>pr_completed := True, pr_ts := Some ts, pr_result := Some (mr_result m)\<rparr>"

definition hold_result ::
  "mutation_response_message \<Rightarrow> timestamp \<Rightarrow> pending_request \<Rightarrow> base_client \<Rightarrow> base_client"
where
  "hold_result m ts req b = observe_timestamp ts
     (b\<lparr>bc_ongoing_requests := om_insert (mr_id m) (completed m ts req) (bc_ongoing_requests b)\<rparr>)"

lemma unreached_not_flushable:
  assumes "request_ok b rid req" and "w = sv_ts (bc_remote_version b)"
  shows "\<not> flushable w req"
  using assms by (auto simp: request_ok_def flushable_def)

lemma filter_flush_insert:
  assumes wf: "om_wf m" and others: "\<And>i x. (i, x) \<in> set m \<Longrightarrow> \<not> flushable w x"
  shows "filter (\<lambda>(i, x). flushable w x) (om_insert k v m) = (if flushable w v then [(k, v)] else [])
    \<and> filter (\<lambda>(i, x). \<not> flushable w x) (om_insert k v m) =
        (if flushable w v then om_erase k m else om_insert k v m)"
proof -
  have ins: "om_wf (om_insert k v m)" using wf by simp
  have none: "filter (\<lambda>(i, x). flushable w x) m = []" using others by (auto simp: filter_empty_conv)
  have yes: "flushable w v \<Longrightarrow> filter (\<lambda>(i, x). flushable w x) (om_insert k v m) = [(k, v)]"
    by (rule om_wf_ext)
       (use ins wf others in \<open>auto simp: om_wf_Cons map_of_filter_om fun_eq_iff om_wf_map_of_iff
          split: option.split\<close>)
  have no: "\<not> flushable w v \<Longrightarrow> filter (\<lambda>(i, x). flushable w x) (om_insert k v m) = []"
    using others set_om_insert [OF wf, of k v] by (auto simp: filter_empty_conv)
  have drop: "flushable w v \<Longrightarrow> filter (\<lambda>(i, x). \<not> flushable w x) (om_insert k v m) = om_erase k m"
    by (rule om_wf_ext)
       (use ins wf others in \<open>auto simp: map_of_filter_om fun_eq_iff om_wf_map_of_iff
          om_wf_eq_map_of_iff split: option.split\<close>)
  have keep: "\<not> flushable w v \<Longrightarrow> filter (\<lambda>(i, x). \<not> flushable w x) (om_insert k v m) = om_insert k v m"
    using others set_om_insert [OF wf, of k v] by (auto simp: filter_id_conv)
  show ?thesis using yes no drop keep by simp
qed

text \<open>A mutation response in closed form, on each branch.\<close>

definition response_log ::
  "mutation_response_message \<Rightarrow> pending_request \<Rightarrow> receive_result"
where
  "response_log m req = push_log Source_mutation (mutation_path (pr_original_message req))
     (mr_log_lines m) no_receive_result"

lemma handle_mutation_response_done:
  assumes "map_of (bc_ongoing_requests b) (mr_id m) = Some req"
    and "\<not> fr_ok (mr_result m) \<or> mr_ts m = None"
  shows "handle_mutation_response m b =
    Inr (complete_request (mr_id m) (mr_result m) (b, response_log m req))"
  using assms by (auto simp: handle_mutation_response_def response_log_def Let_def split: option.split)

lemma handle_mutation_response_held:
  assumes inv: "bc_inv b" and req: "map_of (bc_ongoing_requests b) (mr_id m) = Some req"
    and ok: "fr_ok (mr_result m)" and ts: "mr_ts m = Some ts"
  shows "handle_mutation_response m b =
    (if ts \<le> sv_ts (bc_remote_version b)
     then Inr (complete_request (mr_id m) (mr_result m) (observe_timestamp ts b, response_log m req))
     else Inr (hold_result m ts req b, response_log m req))"
proof -
  let ?w = "sv_ts (bc_remote_version b)"
  have r: "requests_ok b" using inv by (simp add: bc_inv_def)
  note wf = requests_okD(1) [OF r]
  have others: "\<not> flushable ?w x" if "(i, x) \<in> set (bc_ongoing_requests b)" for i x
    using requests_okD(3) [OF r, of i x] that wf unreached_not_flushable
    by (auto simp: om_wf_map_of_iff)
  have new: "flushable ?w (completed m ts req) \<longleftrightarrow> ts \<le> ?w"
    by (simp add: flushable_def completed_def)
  note split = filter_flush_insert [OF wf others, where k = "mr_id m" and v = "completed m ts req"]
  have out: "rr_completed_requests (response_log m req) = []"
    by (simp add: response_log_def push_log_def no_receive_result_def)
  have eq: "flush_completed ?w (hold_result m ts req b, response_log m req) =
    (if ts \<le> ?w
     then Inr (complete_request (mr_id m) (mr_result m) (observe_timestamp ts b, response_log m req))
     else Inr (hold_result m ts req b, response_log m req))"
  proof (subst flush_completed_eq)
    fix rid x
    assume "(rid, x) \<in> set (bc_ongoing_requests (hold_result m ts req b))" and fl: "flushable ?w x"
    then have "x = completed m ts req \<or> (rid, x) \<in> set (bc_ongoing_requests b)"
      using set_om_insert_subset [of "mr_id m" "completed m ts req" "bc_ongoing_requests b"]
      by (auto simp: hold_result_def)
    then show "pr_result x \<noteq> None" using others fl by (auto simp: completed_def)
  next
    show "Inr ((hold_result m ts req b)\<lparr>bc_ongoing_requests :=
            filter (\<lambda>(rid, req). \<not> flushable ?w req) (bc_ongoing_requests (hold_result m ts req b))\<rparr>,
         (response_log m req)\<lparr>rr_completed_requests := rr_completed_requests (response_log m req) @
           map (\<lambda>(rid, req). (rid, the (pr_result req))) (filter (\<lambda>(rid, req). flushable ?w req)
             (bc_ongoing_requests (hold_result m ts req b)))\<rparr>) =
      (if ts \<le> ?w
       then Inr (complete_request (mr_id m) (mr_result m) (observe_timestamp ts b, response_log m req))
       else Inr (hold_result m ts req b, response_log m req))"
      using split new out
      by (simp add: hold_result_def complete_request_def observe_timestamp_def completed_def split: option.split)
  qed
  show ?thesis
    using eq unfolding handle_mutation_response_def response_log_def hold_result_def completed_def
    by (simp add: req ok ts Let_def)
qed

lemma hold_result_inv:
  assumes inv: "bc_inv b" and req: "map_of (bc_ongoing_requests b) (mr_id m) = Some req"
    and ok: "fr_ok (mr_result m)" and above: "sv_ts (bc_remote_version b) < ts"
  shows "bc_inv (hold_result m ts req b)"
proof -
  have q: "queries_ok b" and r: "requests_ok b" and o': "observed_ok b"
    using inv by (simp_all add: bc_inv_def)
  have "request_ok (hold_result m ts req b) (mr_id m) (completed m ts req)"
    using requests_okD(3) [OF r req] ok above
    by (auto simp: request_ok_def hold_result_def completed_def observe_timestamp_max split: option.split)
  moreover have "request_ok (hold_result m ts req b) rid x" if "request_ok b rid x" for rid x
    using that by (auto simp: request_ok_def hold_result_def observe_timestamp_max max.coboundedI1)
  ultimately have "requests_ok (hold_result m ts req b)"
    using requests_okD [OF r] req unfolding requests_ok_def by (auto simp: hold_result_def)
  moreover have "observed_ok (hold_result m ts req b)"
    using o' by (auto simp: observed_ok_def hold_result_def observe_timestamp_max max.coboundedI1)
  ultimately show ?thesis
    using q by (auto simp: bc_inv_def hold_result_def elim: ok_congs)
qed

lemma observe_timestamp_inv: "bc_inv b \<Longrightarrow> bc_inv (observe_timestamp ts b)"
proof -
  assume inv: "bc_inv b"
  then have r: "requests_ok b" by (simp add: bc_inv_def)
  have "request_ok (observe_timestamp ts b) rid x" if "request_ok b rid x" for rid x
    using that by (auto simp: request_ok_def observe_timestamp_max max.coboundedI1)
  then have "requests_ok (observe_timestamp ts b)"
    using r by (auto simp: requests_ok_def)
  moreover have "observed_ok (observe_timestamp ts b)"
    using inv by (auto simp: bc_inv_def observed_ok_def observe_timestamp_max max.coboundedI1)
  ultimately show ?thesis using inv by (auto simp: bc_inv_def elim: ok_congs)
qed

lemma complete_request_inv: "bc_inv b \<Longrightarrow> bc_inv (fst (complete_request rid r (b, out)))"
  by (simp add: complete_request_def bc_inv_erase)

text \<open>
  On a state with the invariant no server message makes \<open>receive_message\<close> throw: \<open>map::at\<close> finds
  its key and every emitted result is there; the new state has the invariant again.
\<close>

lemma receive_message_inv:
  assumes inv: "bc_inv b"
  shows "\<exists>b' out. receive_message m b = Inr (b', out) \<and> bc_inv b'"
proof (cases m)
  case (SV_transition t)
  show ?thesis
  proof (cases "tr_start_version t = bc_remote_version b")
    case True
    then show ?thesis using inv by (simp add: SV_transition handle_transition_eq advance_inv)
  next
    case False
    then show ?thesis using inv by (simp add: SV_transition handle_transition_def)
  qed
next
  case (SV_mutation_response mr)
  show ?thesis
  proof (cases "map_of (bc_ongoing_requests b) (mr_id mr)")
    case None
    then show ?thesis using inv by (simp add: SV_mutation_response handle_mutation_response_def)
  next
    case (Some req)
    show ?thesis
    proof (cases "fr_ok (mr_result mr) \<and> mr_ts mr \<noteq> None")
      case True
      then obtain ts where ts: "mr_ts mr = Some ts" "fr_ok (mr_result mr)" by auto
      show ?thesis
        using inv observe_timestamp_inv [OF inv] hold_result_inv [OF inv Some ts(2)]
          complete_request_inv [of "observe_timestamp ts b"]
        by (cases "ts \<le> sv_ts (bc_remote_version b)")
           (auto simp: SV_mutation_response handle_mutation_response_held [OF inv Some ts(2,1)]
             complete_request_def)
    next
      case False
      then show ?thesis
        using complete_request_inv [OF inv]
        by (auto simp: SV_mutation_response handle_mutation_response_done [OF Some] complete_request_def)
    qed
  qed
next
  case (SV_action_response a)
  then show ?thesis
    using inv bc_inv_erase [OF inv]
    by (auto simp: handle_action_response_def complete_request_def split: option.split)
qed (use inv in simp_all)

subsection \<open>Restart\<close>

text \<open>
  The state after \<open>restart\<close> in closed form: the queue holds at most one Authenticate, at most one
  ModifyQuerySet from version 0 to 1 with every live query and its journal, and then the surviving
  requests in ascending order.
\<close>

definition auth_after :: "auth_token option \<Rightarrow> base_client \<Rightarrow> auth_token option" where
  "auth_after refreshed b = (case refreshed of
     None \<Rightarrow> bc_auth b
   | Some tok \<Rightarrow> if at_type tok = Auth_none then None else Some tok)"

definition restored_auth :: "auth_token option \<Rightarrow> client_message list" where
  "restored_auth auth = (case auth of
     None \<Rightarrow> []
   | Some tok \<Rightarrow> [CM_authenticate \<lparr>am_base_version = 0, am_token = tok\<rparr>])"

definition restored_queries :: "(string, local_query) omap \<Rightarrow> client_message list" where
  "restored_queries qs = (if qs = [] then []
     else [CM_modify_query_set \<lparr>mq_base_version = 0, mq_new_version = 1,
             mq_modifications = map (\<lambda>(token, q). restore_query q) qs\<rparr>])"

definition surviving :: "base_client \<Rightarrow> (request_id, pending_request) omap" where
  "surviving b = filter (\<lambda>r. \<not> action_lost (unsent_actions (bc_outgoing b)) r) (bc_ongoing_requests b)"

definition lost_actions :: "base_client \<Rightarrow> (request_id, pending_request) omap" where
  "lost_actions b = filter (action_lost (unsent_actions (bc_outgoing b))) (bc_ongoing_requests b)"

lemma restart_eq:
  "restart refreshed b =
    (b\<lparr>bc_outgoing := restored_auth (auth_after refreshed b) @ restored_queries (bc_query_set b)
         @ map (\<lambda>(rid, req). pr_original_message req) (surviving b),
       bc_identity_version := (if auth_after refreshed b = None then 0 else 1),
       bc_query_set_version := (if bc_query_set b = [] then 0 else 1),
       bc_remote_version := initial_state_version, bc_remote_results := [],
       bc_auth := auth_after refreshed b,
       bc_outstanding_queries := set (map (\<lambda>(token, q). lq_id q) (bc_query_set b)),
       bc_ongoing_requests := surviving b\<rparr>,
     map (\<lambda>(rid, req). (rid, FR_error ''Connection lost while action was in flight'')) (lost_actions b))"
  by (simp add: restart_def Let_def refresh_auth_def auth_after_def enqueue_authenticate_def
      restore_query_set_def restore_requests_def surviving_def lost_actions_def restored_auth_def
      restored_queries_def push_outgoing_def split: option.split)

lemma restart_inv:
  assumes inv: "bc_inv b"
  shows "bc_inv (fst (restart refreshed b))"
proof -
  have q: "queries_ok b" and r: "requests_ok b" using inv by (simp_all add: bc_inv_def)
  have "request_ok (fst (restart refreshed b)) rid req" if ok: "request_ok b rid req" for rid req
  proof -
    have "0 < ts" if "sv_ts (bc_remote_version b) < ts" for ts
      using that by (metis word_gt_0 word_not_simps(1))
    then show ?thesis
      using ok by (auto simp: request_ok_def restart_eq initial_state_version_def)
  qed
  then have "requests_ok (fst (restart refreshed b))"
    using requests_okD [OF r] unfolding requests_ok_def
    by (auto simp: restart_eq surviving_def map_of_filter_om split: option.splits if_splits)
  moreover have "queries_ok (fst (restart refreshed b))"
    using q queries_okD(1,4) [OF q] by (auto simp: queries_ok_def restart_eq om_wf_map_of_iff)
  ultimately show ?thesis
    by (simp add: bc_inv_def observed_ok_def restart_eq initial_state_version_def)
qed

end
