(* ===== verification/Session.thy ===== *)
theory Session
  imports BaseClient "HOL-Library.Multiset"
begin

section \<open>Whole sessions: the state machine, the wire and the server\<close>

text \<open>
  A session is a \<open>base_client\<close> together with what it has put on the wire and what it has reported
  to its caller: the messages popped on the current connection and on the earlier ones, the
  completed requests, and the request identifiers whose serialization threw. Any sequence of the
  public operations is a run. The server is specified by \<open>server_accept\<close>: it takes a
  ModifyQuerySet or an Authenticate only at the version it is at, refuses to add a query it has
  or to remove one it does not have, and remembers the queries and the token.
\<close>

subsection \<open>Runs\<close>

record session =
  ss_client :: base_client
  ss_sent :: "client_message list"                       \<comment> \<open>popped since the last restart\<close>
  ss_history :: "client_message list"                    \<comment> \<open>popped on earlier connections\<close>
  ss_done :: "(request_id \<times> function_result) list"       \<comment> \<open>reported completions\<close>
  ss_spent :: "request_id list"                          \<comment> \<open>identifiers of calls that threw\<close>

datatype session_op =
    Subscribe string value_object
  | Unsubscribe subscriber_id
  | Mutation string value_object
  | Action string value_object
  | Set_auth auth_token
  | Receive server_message
  | Pop
  | Restart "auth_token option"
  | Make_connect string "64 word option"

definition new_session :: "string \<Rightarrow> session" where
  "new_session sid = \<lparr>ss_client = new_base_client sid, ss_sent = [], ss_history = [], ss_done = [],
     ss_spent = []\<rparr>"

definition request_step ::
  "(base_client \<Rightarrow> base_client \<times> request_id result) \<Rightarrow> session \<Rightarrow> session"
where
  "request_step f s = (case f (ss_client s) of
     (b, Inr rid) \<Rightarrow> s\<lparr>ss_client := b\<rparr>
   | (b, Inl e) \<Rightarrow> s\<lparr>ss_client := b, ss_spent := bc_next_request_id (ss_client s) # ss_spent s\<rparr>)"

fun session_step :: "json_lib \<Rightarrow> session \<Rightarrow> session_op \<Rightarrow> session" where
  "session_step L s (Subscribe p args) = s\<lparr>ss_client := fst (subscribe L p args (ss_client s))\<rparr>"
| "session_step L s (Unsubscribe sid) = s\<lparr>ss_client := unsubscribe sid (ss_client s)\<rparr>"
| "session_step L s (Mutation p args) = request_step (mutation L p args) s"
| "session_step L s (Action p args) = request_step (action L p args) s"
| "session_step L s (Set_auth tok) = s\<lparr>ss_client := set_auth tok (ss_client s)\<rparr>"
| "session_step L s (Receive m) = (case receive_message m (ss_client s) of
     Inr (b, out) \<Rightarrow> s\<lparr>ss_client := b, ss_done := ss_done s @ rr_completed_requests out\<rparr>
   | Inl e \<Rightarrow> s)"
| "session_step L s Pop = (case pop_next_message (ss_client s) of
     (b, Some m) \<Rightarrow> s\<lparr>ss_client := b, ss_sent := ss_sent s @ [m]\<rparr>
   | (b, None) \<Rightarrow> s\<lparr>ss_client := b\<rparr>)"
| "session_step L s (Restart tok) = (case restart tok (ss_client s) of
     (b, failed) \<Rightarrow> s\<lparr>ss_client := b, ss_history := ss_history s @ ss_sent s, ss_sent := [],
                       ss_done := ss_done s @ failed\<rparr>)"
| "session_step L s (Make_connect reason ts) =
     s\<lparr>ss_client := fst (make_connect_message reason ts (ss_client s))\<rparr>"

text \<open>An operation is enabled when the counter it takes a number from does not wrap.\<close>

fun session_ok :: "session \<Rightarrow> session_op \<Rightarrow> bool" where
  "session_ok s (Subscribe p args) = subscribe_ok (ss_client s)"
| "session_ok s (Mutation p args) = request_id_free (ss_client s)"
| "session_ok s (Action p args) = request_id_free (ss_client s)"
| "session_ok s _ = True"

subsection \<open>The server's side\<close>

record server_view =
  vw_queries :: "query_id \<Rightarrow> (string \<times> string) option"
  vw_query_set_version :: query_set_version
  vw_identity_version :: identity_version
  vw_token :: "auth_token option"

definition fresh_view :: server_view where
  "fresh_view = \<lparr>vw_queries = (\<lambda>_. None), vw_query_set_version = 0, vw_identity_version = 0,
     vw_token = None\<rparr>"

fun accept_modification ::
  "query_set_modification \<Rightarrow> (query_id \<Rightarrow> (string \<times> string) option)
    \<Rightarrow> (query_id \<Rightarrow> (string \<times> string) option) option"
where
  "accept_modification (QS_add a) qs =
     (if qs (qa_id a) = None then Some (qs(qa_id a \<mapsto> (qa_udf_path a, qa_args_json a))) else None)"
| "accept_modification (QS_remove i) qs =
     (if qs i = None then None else Some (qs(i := None)))"

fun accept_modifications ::
  "query_set_modification list \<Rightarrow> (query_id \<Rightarrow> (string \<times> string) option)
    \<Rightarrow> (query_id \<Rightarrow> (string \<times> string) option) option"
where
  "accept_modifications [] qs = Some qs"
| "accept_modifications (m # ms) qs = Option.bind (accept_modification m qs) (accept_modifications ms)"

fun server_accept :: "client_message \<Rightarrow> server_view \<Rightarrow> server_view option" where
  "server_accept (CM_modify_query_set m) v =
     (if mq_base_version m = vw_query_set_version v \<and> mq_new_version m = mq_base_version m + 1
      then map_option (\<lambda>qs. v\<lparr>vw_queries := qs, vw_query_set_version := mq_new_version m\<rparr>)
             (accept_modifications (mq_modifications m) (vw_queries v))
      else None)"
| "server_accept (CM_authenticate a) v =
     (if am_base_version a = vw_identity_version v
      then Some (v\<lparr>vw_identity_version := am_base_version a + 1,
             vw_token := (if at_type (am_token a) = Auth_none then None else Some (am_token a))\<rparr>)
      else None)"
| "server_accept (CM_mutation r) v = Some v"
| "server_accept (CM_action r) v = Some v"
| "server_accept (CM_connect c) v = None"

fun server_run :: "client_message list \<Rightarrow> server_view \<Rightarrow> server_view option" where
  "server_run [] v = Some v"
| "server_run (m # ms) v = Option.bind (server_accept m v) (server_run ms)"

text \<open>What the client wants the server to hold.\<close>

definition wanted :: "base_client \<Rightarrow> query_id \<Rightarrow> (string \<times> string) option" where
  "wanted b i = (case map_of (bc_id_to_token b) i of
     None \<Rightarrow> None
   | Some tok \<Rightarrow> map_option (\<lambda>q. (lq_udf_path q, lq_args_json q)) (map_of (bc_query_set b) tok))"

definition client_view :: "base_client \<Rightarrow> server_view" where
  "client_view b = \<lparr>vw_queries = wanted b, vw_query_set_version = bc_query_set_version b,
     vw_identity_version = bc_identity_version b, vw_token = bc_auth b\<rparr>"

lemma server_run_append:
  "server_run (ms @ ns) v = Option.bind (server_run ms v) (server_run ns)"
  by (induction ms arbitrary: v) (auto split: bind_splits)

definition in_step :: "session \<Rightarrow> bool" where
  "in_step s \<longleftrightarrow> server_run (ss_sent s @ bc_outgoing (ss_client s)) fresh_view =
     Some (client_view (ss_client s))"

text \<open>
  An operation keeps the two sides in step when the server accepts what it appends to the queue
  and ends where the client is.
\<close>

lemma in_step_push:
  assumes "in_step s" and "server_accept m (client_view (ss_client s)) = Some (client_view b)"
    and "bc_outgoing b = bc_outgoing (ss_client s) @ [m]"
  shows "in_step (s\<lparr>ss_client := b\<rparr>)"
  using assms unfolding in_step_def
  by (simp add: server_run_append del: append_assoc add: append_assoc [symmetric])

lemma in_step_same:
  assumes "in_step s" and "client_view b = client_view (ss_client s)"
    and "bc_outgoing b = bc_outgoing (ss_client s)"
  shows "in_step (s\<lparr>ss_client := b\<rparr>)"
  using assms by (simp add: in_step_def)

lemma wanted_cong:
  assumes "bc_id_to_token b' = bc_id_to_token b"
    and "\<And>tok. map_option (\<lambda>q. (lq_udf_path q, lq_args_json q)) (map_of (bc_query_set b') tok) =
      map_option (\<lambda>q. (lq_udf_path q, lq_args_json q)) (map_of (bc_query_set b) tok)"
  shows "wanted b' = wanted b"
  using assms by (simp add: wanted_def fun_eq_iff split: option.split)

lemma wanted_simps [simp]:
  "wanted (push_outgoing m b) = wanted b"
  "wanted (new_request k m b) = wanted b"
  "wanted (observe_timestamp ts b) = wanted b"
  "wanted (b\<lparr>bc_ongoing_requests := q\<rparr>) = wanted b"
  "wanted (b\<lparr>bc_next_request_id := n\<rparr>) = wanted b"
  "wanted (b\<lparr>bc_auth := au, bc_identity_version := iv\<rparr>) = wanted b"
  "wanted (b\<lparr>bc_outgoing := out\<rparr>) = wanted b"
  "wanted (b\<lparr>bc_connection_count := n\<rparr>) = wanted b"
  by (rule wanted_cong; simp add: new_request_def)+

text \<open>Fields the three bundled updates leave alone.\<close>

lemma new_query_simps [simp]:
  "bc_query_set_version (new_query p a b) = bc_query_set_version b + 1"
  "bc_identity_version (new_query p a b) = bc_identity_version b"
  "bc_auth (new_query p a b) = bc_auth b" "bc_outgoing (new_query p a b) = bc_outgoing b"
  "bc_next_request_id (new_query p a b) = bc_next_request_id b"
  "bc_ongoing_requests (new_query p a b) = bc_ongoing_requests b"
  by (simp_all add: new_query_def)

lemma drop_query_simps [simp]:
  "bc_query_set_version (drop_query i tok b) = bc_query_set_version b + 1"
  "bc_identity_version (drop_query i tok b) = bc_identity_version b"
  "bc_auth (drop_query i tok b) = bc_auth b" "bc_outgoing (drop_query i tok b) = bc_outgoing b"
  "bc_next_request_id (drop_query i tok b) = bc_next_request_id b"
  "bc_ongoing_requests (drop_query i tok b) = bc_ongoing_requests b"
  by (simp_all add: drop_query_def)

lemma new_request_simps [simp]:
  "bc_query_set_version (new_request k m b) = bc_query_set_version b"
  "bc_identity_version (new_request k m b) = bc_identity_version b"
  "bc_auth (new_request k m b) = bc_auth b" "bc_outgoing (new_request k m b) = bc_outgoing b"
  "bc_next_request_id (new_request k m b) = bc_next_request_id b + 1"
  by (simp_all add: new_request_def)

lemma wanted_new_query:
  assumes ok: "queries_ok b" and new: "map_of (bc_query_set b) (query_token p a) = None"
  shows "wanted (new_query p a b) = (wanted b)(bc_next_query_id b \<mapsto> (p, a))"
proof
  fix i
  have "tok \<noteq> query_token p a" if "map_of (bc_id_to_token b) i = Some tok" for tok
    using queries_okD(8) [OF ok that] new by auto
  then show "wanted (new_query p a b) i = ((wanted b)(bc_next_query_id b \<mapsto> (p, a))) i"
    by (auto simp: wanted_def new_query_def split: option.split)
qed

lemma wanted_drop_query:
  assumes ok: "queries_ok b" and tok: "map_of (bc_id_to_token b) i = Some tok"
  shows "wanted (drop_query i tok b) = (wanted b)(i := None)" and "wanted b i \<noteq> None"
proof -
  obtain q where q: "map_of (bc_query_set b) tok = Some q" "lq_id q = i"
    using queries_okD(8) [OF ok tok] by blast
  then show "wanted b i \<noteq> None" using tok by (simp add: wanted_def)
  have neq: "tok' \<noteq> tok" if "map_of (bc_id_to_token b) j = Some tok'" "j \<noteq> i" for j tok'
    using queries_okD(8) [OF ok that(1)] q that(2) by auto
  show "wanted (drop_query i tok b) = (wanted b)(i := None)"
  proof
    fix j
    show "wanted (drop_query i tok b) j = ((wanted b)(i := None)) j"
      using neq [of j] by (auto simp: wanted_def drop_query_def split: option.split)
  qed
qed

lemma wanted_fresh: "queries_ok b \<Longrightarrow> wanted b (bc_next_query_id b) = None"
  by (simp add: wanted_def fresh_query_id)

lemma in_step_subscribe:
  assumes inv: "bc_inv (ss_client s)" and step: "in_step s"
  shows "in_step (s\<lparr>ss_client := fst (subscribe L p args (ss_client s))\<rparr>)"
proof (cases "serialize_args L args")
  case (Inl e)
  then show ?thesis using step by (simp add: subscribe_def)
next
  case (Inr a)
  let ?b = "ss_client s" and ?p = "canonicalize_udf_path p"
  have ok: "queries_ok ?b" using inv by (simp add: bc_inv_def)
  have sub: "fst (subscribe L p args ?b) = fst (subscribe_query ?p a ?b)"
    using Inr by (simp add: subscribe_def split: prod.split)
  show ?thesis
  proof (cases "map_of (bc_query_set ?b) (query_token ?p a)")
    case None
    show ?thesis
      unfolding sub subscribe_query_new [OF ok None] fst_conv
      by (rule in_step_push [OF step])
         (simp_all add: client_view_def wanted_new_query [OF ok None] wanted_fresh [OF ok])
  next
    case (Some q)
    have "wanted (fst (subscribe_query ?p a ?b)) = wanted ?b"
      by (rule wanted_cong) (auto simp: subscribe_query_old [OF Some] Some)
    then show ?thesis
      unfolding sub by (intro in_step_same [OF step])
        (simp_all add: client_view_def subscribe_query_old [OF Some])
  qed
qed

lemma in_step_unsubscribe:
  assumes inv: "bc_inv (ss_client s)" and step: "in_step s"
  shows "in_step (s\<lparr>ss_client := unsubscribe sid (ss_client s)\<rparr>)"
proof (cases "map_of (bc_id_to_token (ss_client s)) (si_query sid)")
  case None
  then show ?thesis using step by (simp add: unsubscribe_unknown)
next
  case (Some tok)
  let ?b = "ss_client s"
  have ok: "queries_ok ?b" using inv by (simp add: bc_inv_def)
  obtain q where q: "map_of (bc_query_set ?b) tok = Some q" using queries_okD(8) [OF ok Some] by blast
  show ?thesis
  proof (cases "lq_num_subscribers q = 1")
    case True
    obtain w where w: "wanted ?b (si_query sid) = Some w"
      using wanted_drop_query(2) [OF ok Some] by auto
    show ?thesis
      unfolding unsubscribe_last [OF Some q True]
      by (rule in_step_push [OF step])
         (simp_all add: client_view_def wanted_drop_query(1) [OF ok Some] w)
  next
    case False
    have "wanted (unsubscribe sid ?b) = wanted ?b"
      by (rule wanted_cong) (auto simp: unsubscribe_shared [OF Some q False] q)
    then show ?thesis
      by (intro in_step_same [OF step]) (simp_all add: client_view_def unsubscribe_shared [OF Some q False])
  qed
qed

lemma in_step_set_auth: "in_step s \<Longrightarrow> in_step (s\<lparr>ss_client := set_auth tok (ss_client s)\<rparr>)"
  by (rule in_step_push) (auto simp: set_auth_def client_view_def)

lemma in_step_request:
  assumes inv: "bc_inv (ss_client s)" and step: "in_step s"
    and mk: "mk = CM_mutation \<or> mk = CM_action"
  shows "in_step (s\<lparr>ss_client := fst (enqueue_request k mk L p args (ss_client s))\<rparr>)"
proof (cases "serialize_args L args")
  case (Inl e)
  then show ?thesis
    by (intro in_step_same [OF step]) (simp_all add: enqueue_request_throws client_view_def)
next
  case (Inr a)
  have ok: "requests_ok (ss_client s)" using inv by (simp add: bc_inv_def)
  show ?thesis
    unfolding enqueue_request_ok [OF ok Inr refl] fst_conv
    by (rule in_step_push [OF step]) (use mk in \<open>auto simp: client_view_def\<close>)
qed

text \<open>Server messages do not change what the client wants; the journal is not part of the view.\<close>

lemma map_option_apply_journal:
  "map_option (\<lambda>q. (lq_udf_path q, lq_args_json q)) (map_of (apply_journal m qs) tok) =
   map_option (\<lambda>q. (lq_udf_path q, lq_args_json q)) (map_of qs tok)"
  by (cases "map_of qs tok") (simp_all add: map_of_apply_journal)

lemma map_option_fold_journal:
  "map_option (\<lambda>q. (lq_udf_path q, lq_args_json q)) (map_of (fold apply_journal ms qs) tok) =
   map_option (\<lambda>q. (lq_udf_path q, lq_args_json q)) (map_of qs tok)"
  by (induction ms arbitrary: qs) (simp_all add: map_option_apply_journal)

lemma receive_message_view:
  assumes inv: "bc_inv b" and r: "receive_message m b = Inr (b', out)"
  shows "client_view b' = client_view b \<and> bc_outgoing b' = bc_outgoing b
    \<and> bc_next_request_id b' = bc_next_request_id b"
proof (cases m)
  case (SV_transition t)
  show ?thesis
  proof (cases "tr_start_version t = bc_remote_version b")
    case True
    have "wanted (advance t b) = wanted b"
      by (rule wanted_cong) (simp_all add: advance_def map_option_fold_journal)
    then show ?thesis
      using r handle_transition_eq [OF inv True] by (auto simp: SV_transition client_view_def advance_def)
  next
    case False
    then show ?thesis using r by (simp add: SV_transition handle_transition_def)
  qed
next
  case (SV_mutation_response mr)
  show ?thesis
  proof (cases "map_of (bc_ongoing_requests b) (mr_id mr)")
    case None
    then show ?thesis using r by (simp add: SV_mutation_response handle_mutation_response_def)
  next
    case (Some req)
    have views: "client_view (b0\<lparr>bc_ongoing_requests := q\<rparr>) = client_view b0"
      "client_view (observe_timestamp ts b0) = client_view b0" for b0 q ts
      by (simp_all add: client_view_def)
    show ?thesis
    proof (cases "fr_ok (mr_result mr) \<and> mr_ts mr \<noteq> None")
      case True
      then obtain ts where ts: "mr_ts mr = Some ts" "fr_ok (mr_result mr)" by auto
      show ?thesis
        using r handle_mutation_response_held [OF inv Some ts(2,1)] views
        by (auto simp: SV_mutation_response complete_request_def hold_result_def split: if_splits)
    next
      case False
      then show ?thesis
        using r handle_mutation_response_done [OF Some] views
        by (auto simp: SV_mutation_response complete_request_def)
    qed
  qed
next
  case (SV_action_response a)
  then show ?thesis
    using r by (auto simp: handle_action_response_def complete_request_def client_view_def
        split: option.splits)
qed (use r in auto)

lemma in_step_receive:
  assumes inv: "bc_inv (ss_client s)" and step: "in_step s"
  shows "in_step (session_step L s (Receive m))"
proof -
  obtain b out where r: "receive_message m (ss_client s) = Inr (b, out)"
    using receive_message_inv [OF inv, of m] by blast
  show ?thesis
    using step receive_message_view [OF inv r] by (simp add: r in_step_def)
qed

lemma in_step_pop: "in_step s \<Longrightarrow> in_step (session_step L s Pop)"
  by (auto simp: in_step_def pop_next_message_def client_view_def split: list.splits)

text \<open>
  After a restart a server that knows nothing accepts the whole queue: the one ModifyQuerySet
  adds each live query under its own identifier.
\<close>

lemma accept_adds:
  assumes "distinct (map (\<lambda>(tok, q). lq_id q) qs)"
    and "\<And>tok q. (tok, q) \<in> set qs \<Longrightarrow> M (lq_id q) = None"
  shows "accept_modifications (map (\<lambda>(tok, q). restore_query q) qs) M =
    Some (M ++ map_of (map (\<lambda>(tok, q). (lq_id q, (lq_udf_path q, lq_args_json q))) qs))"
  using assms
proof (induction qs arbitrary: M)
  case (Cons e qs)
  obtain tok q where e: "e = (tok, q)" by (cases e)
  let ?M = "M(lq_id q \<mapsto> (lq_udf_path q, lq_args_json q))"
  have "accept_modifications (map (\<lambda>(tok, q). restore_query q) qs) ?M =
    Some (?M ++ map_of (map (\<lambda>(tok, q). (lq_id q, (lq_udf_path q, lq_args_json q))) qs))"
    using Cons.prems by (intro Cons.IH) (force simp: e)+
  moreover have "map_of (map (\<lambda>(tok, q). (lq_id q, (lq_udf_path q, lq_args_json q))) qs) (lq_id q) = None"
    using Cons.prems(1) by (force simp: e map_of_eq_None_iff)
  ultimately show ?case
    using Cons.prems(2) [of tok q]
    by (auto simp: e restore_query_def fun_eq_iff map_add_def split: option.split)
qed simp

lemma live_ids_distinct:
  assumes ok: "queries_ok b"
  shows "distinct (map (\<lambda>(tok, q). lq_id q) (bc_query_set b))"
proof -
  note wf = queries_okD(1) [OF ok]
  have "inj_on (\<lambda>(tok, q). lq_id q) (set (bc_query_set b))"
  proof (rule inj_onI, clarify)
    fix tok q tok' q'
    assume e: "(tok, q) \<in> set (bc_query_set b)" "(tok', q') \<in> set (bc_query_set b)"
      and same: "lq_id q = lq_id q'"
    then have m: "map_of (bc_query_set b) tok = Some q" "map_of (bc_query_set b) tok' = Some q'"
      using wf by (simp_all add: om_wf_map_of_iff)
    then have "tok = tok'" using queries_okD(4) [OF ok m(1)] queries_okD(4) [OF ok m(2)] same by simp
    with m show "tok = tok' \<and> q = q'" by simp
  qed
  moreover have "distinct (bc_query_set b)"
    using om_wf_distinct [OF wf] by (simp add: distinct_map)
  ultimately show ?thesis by (simp add: distinct_map)
qed

lemma wanted_map_of:
  assumes ok: "queries_ok b"
  shows "wanted b = map_of (map (\<lambda>(tok, q). (lq_id q, (lq_udf_path q, lq_args_json q))) (bc_query_set b))"
    (is "_ = map_of ?l")
proof
  fix i
  note D = queries_okD [OF ok]
  have dist: "distinct (map fst ?l)"
    using live_ids_distinct [OF ok] by (simp add: comp_def split_def)
  show "wanted b i = map_of ?l i"
  proof (cases "map_of (bc_id_to_token b) i")
    case None
    have "lq_id q \<noteq> i" if "(tok, q) \<in> set (bc_query_set b)" for tok q
      using that None D(1,4) by (auto simp: om_wf_map_of_iff)
    then have "map_of ?l i = None"
      by (fastforce simp: map_of_eq_None_iff)
    with None show ?thesis by (simp add: wanted_def)
  next
    case (Some tok)
    then obtain q where q: "map_of (bc_query_set b) tok = Some q" "lq_id q = i" using D(8) by blast
    then have "(i, (lq_udf_path q, lq_args_json q)) \<in> set ?l"
      using D(1) by (force simp: om_wf_map_of_iff)
    then have "map_of ?l i = Some (lq_udf_path q, lq_args_json q)"
      by (rule map_of_is_SomeI [OF dist])
    with Some q show ?thesis by (simp add: wanted_def)
  qed
qed

lemma server_run_requests:
  "(\<And>m. m \<in> set ms \<Longrightarrow> \<exists>r. m = CM_mutation r \<or> m = CM_action r) \<Longrightarrow> server_run ms v = Some v"
proof (induction ms)
  case (Cons m ms)
  then obtain r where "m = CM_mutation r \<or> m = CM_action r" by auto
  with Cons show ?case by auto
qed simp

lemma request_message_cases:
  assumes "request_ok b rid req"
  obtains r where "rq_id r = rid" "pr_original_message req = CM_mutation r" "pr_typ req = RK_mutation"
  | r where "rq_id r = rid" "pr_original_message req = CM_action r" "pr_typ req = RK_action"
  using assms by (cases "pr_typ req") (auto simp: request_ok_def)

lemma in_step_restart:
  assumes inv: "bc_inv (ss_client s)"
    and auth: "\<And>tok. bc_auth (ss_client s) = Some tok \<Longrightarrow> at_type tok \<noteq> Auth_none"
  shows "in_step (session_step L s (Restart refreshed))"
proof -
  let ?b = "ss_client s"
  have q: "queries_ok ?b" and r: "requests_ok ?b" using inv by (simp_all add: bc_inv_def)
  define auth' where "auth' = auth_after refreshed ?b"
  define v1 where "v1 = fresh_view\<lparr>vw_identity_version := (if auth' = None then 0 else 1), vw_token := auth'\<rparr>"
  have user: "at_type tok \<noteq> Auth_none" if "auth' = Some tok" for tok
    using that auth by (auto simp: auth'_def auth_after_def split: option.splits if_splits)
  have 1: "server_run (restored_auth auth') fresh_view = Some v1"
    using user by (cases auth') (simp_all add: restored_auth_def v1_def fresh_view_def)
  define v2 where "v2 = v1\<lparr>vw_queries := wanted ?b,
    vw_query_set_version := (if bc_query_set ?b = [] then 0 else 1)\<rparr>"
  have 2: "server_run (restored_queries (bc_query_set ?b)) v1 = Some v2"
  proof (cases "bc_query_set ?b = []")
    case True
    then show ?thesis
      by (simp add: restored_queries_def v2_def v1_def fresh_view_def wanted_map_of [OF q])
  next
    case False
    then show ?thesis
      using accept_adds [OF live_ids_distinct [OF q], of "\<lambda>_. None"]
      by (simp add: restored_queries_def v2_def v1_def fresh_view_def wanted_map_of [OF q])
  qed
  have 3: "server_run (map (\<lambda>(rid, req). pr_original_message req) (surviving ?b)) v2 = Some v2"
  proof (rule server_run_requests)
    fix m
    assume "m \<in> set (map (\<lambda>(rid, req). pr_original_message req) (surviving ?b))"
    then obtain rid req where "(rid, req) \<in> set (bc_ongoing_requests ?b)" and m: "m = pr_original_message req"
      by (auto simp: surviving_def)
    then have "request_ok ?b rid req"
      using requests_okD(1,3) [OF r] by (simp add: om_wf_map_of_iff)
    then show "\<exists>r. m = CM_mutation r \<or> m = CM_action r"
      unfolding m by (rule request_message_cases) auto
  qed
  define b' where "b' = fst (restart refreshed ?b)"
  have b': "bc_outgoing b' = restored_auth auth' @ restored_queries (bc_query_set ?b)
      @ map (\<lambda>(rid, req). pr_original_message req) (surviving ?b)"
    "bc_auth b' = auth'" "bc_identity_version b' = (if auth' = None then 0 else 1)"
    "bc_query_set_version b' = (if bc_query_set ?b = [] then 0 else 1)"
    by (simp_all add: b'_def restart_eq auth'_def)
  have w: "wanted b' = wanted ?b"
    by (rule wanted_cong) (simp_all add: b'_def restart_eq)
  have "server_run (bc_outgoing b') fresh_view = Some v2"
    unfolding b'(1) by (simp add: server_run_append 1 2 3)
  moreover have "v2 = client_view b'"
    by (simp add: v2_def v1_def client_view_def b' w fresh_view_def)
  ultimately show ?thesis
    by (simp add: in_step_def b'_def split: prod.split) (metis fst_conv)
qed

subsection \<open>Request accounting\<close>

text \<open>
  Every identifier handed out is in exactly one place: in flight, reported, or spent by a call
  that threw.
\<close>

definition done_ok :: "session \<Rightarrow> bool" where
  "done_ok s \<longleftrightarrow> mset (map fst (ss_done s)) + mset (ss_spent s)
     + mset (map fst (bc_ongoing_requests (ss_client s))) =
     mset_set {i. i < bc_next_request_id (ss_client s)}"

lemma mset_keys_erase:
  assumes "om_wf m" "map_of m k = Some v"
  shows "mset (map fst m) = add_mset k (mset (map fst (om_erase k m)))"
  using assms
proof (induction m)
  case (Cons e m)
  obtain a b where e: "e = (a, b)" by (cases e)
  show ?case
  proof (cases "a = k")
    case True
    then have "map_of m k = None" using Cons.prems(1) by (auto simp: e om_wf_Cons map_of_eq_None_iff)
    then have "om_erase k m = m" using Cons.prems(1) by (simp add: e om_wf_Cons om.erase_absent)
    then show ?thesis using True by (simp add: e om_erase_def)
  next
    case False
    then show ?thesis using Cons by (simp add: e om_wf_Cons om_erase_def)
  qed
qed simp

lemma mset_keys_insert:
  "map fst (om_insert k v m) = map fst m \<or> mset (map fst (om_insert k v m)) = add_mset k (mset (map fst m))"
  by (induction m) auto

lemma mset_keys_insert_new:
  "map_of m k = None \<Longrightarrow> mset (map fst (om_insert k v m)) = add_mset k (mset (map fst m))"
  by (induction m) (auto split: if_splits)

lemma mset_keys_insert_old:
  "om_wf m \<Longrightarrow> map_of m k = Some w \<Longrightarrow> map fst (om_insert k v m) = map fst m"
proof (induction m)
  case (Cons e m)
  obtain a b where e: "e = (a, b)" by (cases e)
  have "\<not> k < a" if "a \<noteq> k"
    using Cons.prems that by (force simp: e om_wf_Cons dest: map_of_SomeD)
  then show ?case using Cons by (auto simp: e om_wf_Cons)
qed simp

lemma mset_keys_filter:
  "mset (map fst (filter P m)) + mset (map fst (filter (\<lambda>x. \<not> P x) m)) = mset (map fst m)"
  by (induction m) auto

lemma map_fst_pairs: "map fst (map (\<lambda>(i, x). (i, f i x)) m) = map fst m"
  by (simp add: comp_def split_def)

text \<open>The reported requests are those that left the table.\<close>

lemma receive_message_requests:
  assumes inv: "bc_inv b" and r: "receive_message m b = Inr (b', out)"
  shows "mset (map fst (rr_completed_requests out)) + mset (map fst (bc_ongoing_requests b')) =
    mset (map fst (bc_ongoing_requests b))"
proof -
  have ok: "requests_ok b" using inv by (simp add: bc_inv_def)
  note wf = requests_okD(1) [OF ok]
  have complete: "mset (map fst (rr_completed_requests out)) + mset (map fst (bc_ongoing_requests b')) =
      mset (map fst (bc_ongoing_requests b))"
    if "(b', out) = complete_request k res (b0, out0)" "map_of (bc_ongoing_requests b) k = Some req"
      "bc_ongoing_requests b0 = bc_ongoing_requests b" "rr_completed_requests out0 = []" for k res b0 out0 req
    using that mset_keys_erase [OF wf that(2)] by (simp add: complete_request_def)
  have log: "rr_completed_requests (push_log src path ls no_receive_result) = []" for src path ls
    by (simp add: push_log_def no_receive_result_def)
  show ?thesis
  proof (cases m)
    case (SV_transition t)
    show ?thesis
    proof (cases "tr_start_version t = bc_remote_version b")
      case True
      let ?w = "sv_ts (tr_end_version t)"
      have "map fst (flushed ?w b) = map fst (filter (\<lambda>(rid, req). flushable ?w req) (bc_ongoing_requests b))"
        by (simp add: flushed_def comp_def split_def)
      then have "mset (map fst (flushed ?w b))
          + mset (map fst (filter (\<lambda>(rid, req). \<not> flushable ?w req) (bc_ongoing_requests b))) =
          mset (map fst (bc_ongoing_requests b))"
        using mset_keys_filter [of "\<lambda>(rid, req). flushable ?w req" "bc_ongoing_requests b"]
        by (simp add: case_prod_unfold del: mset_map)
      then show ?thesis
        using r handle_transition_eq [OF inv True]
        by (auto simp: SV_transition advance_def simp del: mset_map)
    next
      case False
      then show ?thesis using r by (auto simp: SV_transition handle_transition_def no_receive_result_def)
    qed
  next
    case (SV_mutation_response mr)
    show ?thesis
    proof (cases "map_of (bc_ongoing_requests b) (mr_id mr)")
      case None
      then show ?thesis
        using r by (auto simp: SV_mutation_response handle_mutation_response_def no_receive_result_def)
    next
      case (Some req)
      have none: "rr_completed_requests (response_log mr req) = []"
        by (simp add: response_log_def log)
      show ?thesis
      proof (cases "fr_ok (mr_result mr) \<and> mr_ts mr \<noteq> None")
        case True
        then obtain ts where ts: "mr_ts mr = Some ts" "fr_ok (mr_result mr)" by auto
        show ?thesis
        proof (cases "ts \<le> sv_ts (bc_remote_version b)")
          case True
          then show ?thesis
            using r handle_mutation_response_held [OF inv Some ts(2,1)] none
            by (intro complete [OF _ Some, of "mr_result mr" "observe_timestamp ts b"])
               (simp_all add: SV_mutation_response)
        next
          case False
          then show ?thesis
            using r handle_mutation_response_held [OF inv Some ts(2,1)] none
              mset_keys_insert_old [OF wf Some]
            by (auto simp: SV_mutation_response hold_result_def simp del: mset_map)
        qed
      next
        case False
        then show ?thesis
          using r handle_mutation_response_done [OF Some] none
          by (intro complete [OF _ Some, of "mr_result mr" b]) (auto simp: SV_mutation_response)
      qed
    qed
  next
    case (SV_action_response a)
    show ?thesis
    proof (cases "map_of (bc_ongoing_requests b) (ar_id a)")
      case None
      then show ?thesis
        using r by (auto simp: SV_action_response handle_action_response_def no_receive_result_def)
    next
      case (Some req)
      show ?thesis
        using r log
        by (intro complete [OF _ Some, of "ar_result a" b "push_log Source_action
              (action_path (pr_original_message req)) (ar_log_lines a) no_receive_result"])
           (auto simp: SV_action_response handle_action_response_def Some)
    qed
  qed (use r in \<open>auto simp: no_receive_result_def\<close>)
qed

lemma mset_below_Suc:
  assumes "(n :: request_id) + 1 \<noteq> 0"
  shows "mset_set {i. i < n + 1} = add_mset n (mset_set {i. i < n})"
proof -
  have "{i. i < n + 1} = insert n {i. i < n}"
    by (simp only: set_eq_iff mem_Collect_eq insert_iff less_plus_one [OF assms] order.order_iff_strict) blast
  then show ?thesis by simp
qed

lemma subscribe_requests:
  "bc_ongoing_requests (fst (subscribe L p args b)) = bc_ongoing_requests b
   \<and> bc_next_request_id (fst (subscribe L p args b)) = bc_next_request_id b"
  by (auto simp: subscribe_def subscribe_query_def Let_def push_outgoing_def split: sum.split option.split)

lemma unsubscribe_requests:
  "bc_ongoing_requests (unsubscribe sid b) = bc_ongoing_requests b
   \<and> bc_next_request_id (unsubscribe sid b) = bc_next_request_id b"
  by (auto simp: unsubscribe_def Let_def split: option.split)

lemma restart_requests:
  "mset (map fst (snd (restart tok b))) + mset (map fst (bc_ongoing_requests (fst (restart tok b)))) =
   mset (map fst (bc_ongoing_requests b))"
  using mset_keys_filter [of "action_lost (unsent_actions (bc_outgoing b))" "bc_ongoing_requests b"]
  by (simp add: restart_eq lost_actions_def surviving_def comp_def split_def del: mset_map)

lemma restart_requests_pair:
  "restart tok b = (b', failed) \<Longrightarrow>
     mset (map fst (bc_ongoing_requests b)) = mset (map fst failed) + mset (map fst (bc_ongoing_requests b'))"
  using restart_requests [of tok b] by (simp del: mset_map)

lemma restart_next: "restart tok b = (b', failed) \<Longrightarrow> bc_next_request_id b' = bc_next_request_id b"
  by (auto simp: restart_eq)

lemma done_ok_request:
  assumes inv: "bc_inv (ss_client s)" and ok: "done_ok s" and free: "request_id_free (ss_client s)"
  shows "done_ok (request_step (enqueue_request k mk L p args) s)"
proof -
  have r: "requests_ok (ss_client s)" using inv by (simp add: bc_inv_def)
  have free': "bc_next_request_id (ss_client s) + 1 \<noteq> 0" using free by (simp add: request_id_free_def)
  show ?thesis
  proof (cases "serialize_args L args")
    case (Inl e)
    then show ?thesis
      using ok by (simp add: done_ok_def request_step_def enqueue_request_throws mset_below_Suc [OF free'])
  next
    case (Inr a)
    show ?thesis
      using ok fresh_request_id [OF r] unfolding request_step_def enqueue_request_ok [OF r Inr refl] done_ok_def
      by (simp add: new_request_def mset_keys_insert_new mset_below_Suc [OF free'] del: mset_map)
  qed
qed

lemma done_ok_step:
  assumes inv: "bc_inv (ss_client s)" and ok: "done_ok s" and en: "session_ok s op"
  shows "done_ok (session_step L s op)"
proof (cases op)
  case (Receive m)
  obtain b out where r: "receive_message m (ss_client s) = Inr (b, out)"
    using receive_message_inv [OF inv, of m] by blast
  show ?thesis
    using ok receive_message_view [OF inv r]
    by (simp add: Receive r done_ok_def receive_message_requests [OF inv r, symmetric] ac_simps del: mset_map)
next
  case (Restart tok)
  show ?thesis
    using ok
    by (cases "restart tok (ss_client s)")
       (simp add: Restart done_ok_def restart_next restart_requests_pair ac_simps del: mset_map)
qed (use ok en done_ok_request [OF inv ok] in \<open>simp_all add: mutation_def action_def done_ok_def
      subscribe_requests unsubscribe_requests set_auth_def make_connect_message_def pop_next_message_def
      split: list.split\<close>)

subsection \<open>Requests on the wire\<close>

fun request_ids :: "client_message list \<Rightarrow> request_id list" where
  "request_ids [] = []"
| "request_ids (CM_mutation r # ms) = rq_id r # request_ids ms"
| "request_ids (CM_action r # ms) = rq_id r # request_ids ms"
| "request_ids (_ # ms) = request_ids ms"

fun action_ids :: "client_message list \<Rightarrow> request_id list" where
  "action_ids [] = []"
| "action_ids (CM_action r # ms) = rq_id r # action_ids ms"
| "action_ids (_ # ms) = action_ids ms"

lemma request_ids_append [simp]: "request_ids (ms @ ns) = request_ids ms @ request_ids ns"
  by (induction ms rule: request_ids.induct) auto

lemma action_ids_append [simp]: "action_ids (ms @ ns) = action_ids ms @ action_ids ns"
  by (induction ms rule: action_ids.induct) auto

lemma unsent_actions_eq: "unsent_actions q = set (action_ids q)"
  by (induction q rule: action_ids.induct) (auto simp: unsent_actions_def)

lemma action_ids_iff: "i \<in> set (action_ids ms) \<longleftrightarrow> (\<exists>r. CM_action r \<in> set ms \<and> rq_id r = i)"
  by (induction ms rule: action_ids.induct) auto

text \<open>
  On the current connection the requests are queued in the order their identifiers were taken,
  and every request in flight is among them.
\<close>

definition queue_ok :: "session \<Rightarrow> bool" where
  "queue_ok s \<longleftrightarrow>
     (let b = ss_client s; q = ss_sent s @ bc_outgoing b in
      sorted_wrt (<) (request_ids q)
      \<and> (\<forall>i \<in> set (request_ids q). i < bc_next_request_id b)
      \<and> (\<forall>rid req. map_of (bc_ongoing_requests b) rid = Some req \<longrightarrow> pr_original_message req \<in> set q))"

text \<open>An action is put in the queue anew only if it never left it.\<close>

definition actions_ok :: "session \<Rightarrow> bool" where
  "actions_ok s \<longleftrightarrow>
     (let b = ss_client s; q = ss_history s @ ss_sent s @ bc_outgoing b in
      distinct (action_ids q) \<and> (\<forall>i \<in> set (action_ids q). i < bc_next_request_id b))"

lemma queue_ok_same:
  assumes "queue_ok s" "request_ids ms = []"
    and "bc_outgoing b = bc_outgoing (ss_client s) @ ms"
    and "bc_next_request_id b = bc_next_request_id (ss_client s)"
    and "\<And>rid req. map_of (bc_ongoing_requests b) rid = Some req \<Longrightarrow>
      \<exists>req'. map_of (bc_ongoing_requests (ss_client s)) rid = Some req'
        \<and> pr_original_message req' = pr_original_message req"
  shows "queue_ok (s\<lparr>ss_client := b, ss_done := d\<rparr>)"
  using assms(1-4) assms(5) unfolding queue_ok_def Let_def by simp metis

lemma action_ids_of_requests: "request_ids ms = [] \<Longrightarrow> action_ids ms = []"
  by (induction ms rule: request_ids.induct) auto

lemma actions_ok_same:
  assumes "actions_ok s" "request_ids ms = []"
    and "bc_outgoing b = bc_outgoing (ss_client s) @ ms"
    and "bc_next_request_id b = bc_next_request_id (ss_client s)"
  shows "actions_ok (s\<lparr>ss_client := b, ss_done := d\<rparr>)"
  using assms(1,3,4) action_ids_of_requests [OF assms(2)] unfolding actions_ok_def Let_def by simp

lemma less_next: "(n :: 'a :: len word) + 1 \<noteq> 0 \<Longrightarrow> n < n + 1 \<and> (i < n \<longrightarrow> i < n + 1)"
  using less_plus_one [of n] by (auto intro: less_imp_le)

lemma queue_ok_request:
  assumes inv: "bc_inv (ss_client s)" and ok: "queue_ok s" "actions_ok s"
    and free: "request_id_free (ss_client s)" and mk: "mk = CM_mutation \<or> mk = CM_action"
  shows "queue_ok (request_step (enqueue_request k mk L p args) s)
    \<and> actions_ok (request_step (enqueue_request k mk L p args) s)"
proof -
  have r: "requests_ok (ss_client s)" using inv by (simp add: bc_inv_def)
  note less = less_next [OF free [unfolded request_id_free_def]]
  show ?thesis
  proof (cases "serialize_args L args")
    case (Inl e)
    then show ?thesis
      using ok less by (simp add: queue_ok_def actions_ok_def request_step_def enqueue_request_throws Let_def)
  next
    case (Inr a)
    show ?thesis
      using ok less mk unfolding request_step_def enqueue_request_ok [OF r Inr refl] queue_ok_def actions_ok_def Let_def
      by (auto simp: new_request_def sorted_wrt_append)
  qed
qed

lemma receive_message_originals:
  assumes inv: "bc_inv b" and r: "receive_message m b = Inr (b', out)"
    and req: "map_of (bc_ongoing_requests b') rid = Some req"
  shows "\<exists>req'. map_of (bc_ongoing_requests b) rid = Some req'
    \<and> pr_original_message req' = pr_original_message req \<and> pr_typ req' = pr_typ req"
proof -
  have ok: "requests_ok b" using inv by (simp add: bc_inv_def)
  note wf = requests_okD(1) [OF ok]
  show ?thesis
  proof (cases m)
    case (SV_transition t)
    show ?thesis
    proof (cases "tr_start_version t = bc_remote_version b")
      case True
      then show ?thesis
        using r handle_transition_eq [OF inv True] req
        by (auto simp: SV_transition advance_def map_of_filter_om [OF wf] split: option.splits if_splits)
    next
      case False
      then show ?thesis using r req by (simp add: SV_transition handle_transition_def)
    qed
  next
    case (SV_mutation_response mr)
    show ?thesis
    proof (cases "map_of (bc_ongoing_requests b) (mr_id mr)")
      case None
      then show ?thesis using r req by (simp add: SV_mutation_response handle_mutation_response_def)
    next
      case (Some req0)
      show ?thesis
      proof (cases "fr_ok (mr_result mr) \<and> mr_ts mr \<noteq> None")
        case True
        then obtain ts where ts: "mr_ts mr = Some ts" "fr_ok (mr_result mr)" by auto
        show ?thesis
          using r handle_mutation_response_held [OF inv Some ts(2,1)] req Some
          by (auto simp: SV_mutation_response complete_request_def hold_result_def completed_def split: if_splits)
      next
        case False
        then show ?thesis
          using r handle_mutation_response_done [OF Some] req
          by (auto simp: SV_mutation_response complete_request_def split: if_splits)
      qed
    qed
  next
    case (SV_action_response a)
    then show ?thesis
      using r req by (auto simp: handle_action_response_def complete_request_def split: option.splits if_splits)
  qed (use r req in auto)
qed

lemma request_ids_ongoing:
  assumes "\<And>rid req. (rid, req) \<in> set m \<Longrightarrow> request_ok b rid req"
  shows "request_ids (map (\<lambda>(rid, req). pr_original_message req) m) = map fst m
    \<and> action_ids (map (\<lambda>(rid, req). pr_original_message req) m) =
        map fst (filter (\<lambda>(rid, req). pr_typ req = RK_action) m)"
  using assms
proof (induction m)
  case (Cons e m)
  obtain rid req where e: "e = (rid, req)" by (cases e)
  have "request_ok b rid req" using Cons.prems by (simp add: e)
  then show ?case
    by (rule request_message_cases) (use Cons in \<open>simp_all add: e\<close>)
qed simp

lemma request_ids_restored [simp]:
  "request_ids (restored_auth auth) = []" "request_ids (restored_queries qs) = []"
  "action_ids (restored_auth auth) = []" "action_ids (restored_queries qs) = []"
  by (simp_all add: restored_auth_def restored_queries_def split: option.split)

lemma queue_ok_restart:
  assumes inv: "bc_inv (ss_client s)" and ok: "queue_ok s" "actions_ok s"
  shows "queue_ok (session_step L s (Restart tok)) \<and> actions_ok (session_step L s (Restart tok))"
proof -
  let ?b = "ss_client s"
  have r: "requests_ok ?b" using inv by (simp add: bc_inv_def)
  note R = requests_okD [OF r]
  have mem: "map_of (bc_ongoing_requests ?b) rid = Some req" if "(rid, req) \<in> set (surviving ?b)" for rid req
    using that R(1) by (auto simp: surviving_def om_wf_map_of_iff)
  have "request_ok ?b rid req" if "(rid, req) \<in> set (surviving ?b)" for rid req
    using mem [OF that] R(3) by blast
  note ids = request_ids_ongoing [OF this]
  have wf: "om_wf (surviving ?b)" using R(1) by (simp add: surviving_def)
  have sorted: "sorted_wrt (<) (map fst (surviving ?b))" using wf by (simp add: om_wf_def)
  have below: "i < bc_next_request_id ?b" if "i \<in> fst ` set (surviving ?b)" for i
    using that mem R(2) by fastforce
  let ?acts = "map fst (filter (\<lambda>(rid, req). pr_typ req = RK_action) (surviving ?b))"
  have dist: "distinct ?acts"
    using om_wf_distinct [OF om_wf_filter [OF wf]] .
  have unsent: "set ?acts \<subseteq> set (action_ids (bc_outgoing ?b))"
    by (auto simp: surviving_def action_lost_def unsent_actions_eq)
  have all: "pr_original_message req \<in> (\<lambda>(rid, req). pr_original_message req) ` set (surviving ?b)"
    if "map_of (surviving ?b) rid = Some req" for rid req
    using map_of_SomeD [OF that] by force
  show ?thesis
    using ok ids sorted below dist unsent all unfolding queue_ok_def actions_ok_def Let_def
    by (auto simp: restart_eq)
qed

subsection \<open>The session invariant\<close>

definition auth_ok :: "base_client \<Rightarrow> bool" where
  "auth_ok b \<longleftrightarrow> (\<forall>tok. bc_auth b = Some tok \<longrightarrow> at_type tok \<noteq> Auth_none)"

definition session_inv :: "session \<Rightarrow> bool" where
  "session_inv s \<longleftrightarrow> bc_inv (ss_client s) \<and> auth_ok (ss_client s) \<and> in_step s \<and> done_ok s
     \<and> queue_ok s \<and> actions_ok s"

lemma session_inv_new: "session_inv (new_session sid)"
  using bc_inv_new [of sid]
  by (simp add: session_inv_def new_session_def auth_ok_def in_step_def done_ok_def queue_ok_def
      actions_ok_def new_base_client_def fresh_view_def client_view_def wanted_def fun_eq_iff)

lemma subscribe_frame:
  "bc_auth (fst (subscribe L p args b)) = bc_auth b
   \<and> (\<exists>ms. bc_outgoing (fst (subscribe L p args b)) = bc_outgoing b @ ms \<and> request_ids ms = [])"
  by (auto simp: subscribe_def subscribe_query_def Let_def push_outgoing_def split: sum.split option.split)

lemma unsubscribe_frame:
  "bc_auth (unsubscribe sid b) = bc_auth b
   \<and> (\<exists>ms. bc_outgoing (unsubscribe sid b) = bc_outgoing b @ ms \<and> request_ids ms = [])"
  by (auto simp: unsubscribe_def Let_def split: option.split)

lemma session_update_done: "s\<lparr>ss_client := b\<rparr> = s\<lparr>ss_client := b, ss_done := ss_done s\<rparr>"
  by simp

lemma request_step_frame:
  "auth_ok (ss_client s) \<Longrightarrow> auth_ok (ss_client (request_step (enqueue_request k mk L p args) s))"
  by (auto simp: request_step_def enqueue_request_def Let_def auth_ok_def split: sum.split)

lemma in_step_request_step:
  "bc_inv (ss_client s) \<Longrightarrow> in_step s \<Longrightarrow> mk = CM_mutation \<or> mk = CM_action \<Longrightarrow>
     in_step (request_step (enqueue_request k mk L p args) s)"
  using in_step_request [of s mk k L p args]
  by (auto simp: request_step_def in_step_def split: prod.splits sum.splits)

lemma session_inv_request:
  assumes inv: "session_inv s" and free: "request_id_free (ss_client s)"
    and mk: "mk = (case k of RK_mutation \<Rightarrow> CM_mutation | RK_action \<Rightarrow> CM_action)"
  shows "session_inv (request_step (enqueue_request k mk L p args) s)"
proof -
  have mk': "mk = CM_mutation \<or> mk = CM_action" using mk by (cases k) auto
  have "ss_client (request_step (enqueue_request k mk L p args) s) =
      fst (enqueue_request k mk L p args (ss_client s))"
    by (simp add: request_step_def split: prod.split sum.split)
  then show ?thesis
    using inv enqueue_request_inv [OF _ free mk] in_step_request_step [OF _ _ mk']
      done_ok_request [OF _ _ free] queue_ok_request [OF _ _ _ free mk'] request_step_frame [of s k mk L p args]
    by (simp add: session_inv_def)
qed

text \<open>Operations that queue no request and leave the requests alone.\<close>

lemma session_inv_local:
  assumes inv: "session_inv s" and b: "bc_inv b" "in_step (s\<lparr>ss_client := b\<rparr>)" "auth_ok b"
    and out: "bc_outgoing b = bc_outgoing (ss_client s) @ ms" "request_ids ms = []"
    and req: "bc_ongoing_requests b = bc_ongoing_requests (ss_client s)"
      "bc_next_request_id b = bc_next_request_id (ss_client s)"
  shows "session_inv (s\<lparr>ss_client := b\<rparr>)"
proof -
  have ok: "queue_ok s" "actions_ok s" "done_ok s" using inv by (simp_all add: session_inv_def)
  have "queue_ok (s\<lparr>ss_client := b\<rparr>)"
    by (subst session_update_done, rule queue_ok_same [OF ok(1) out(2,1) req(2)]) (simp add: req(1))
  moreover have "actions_ok (s\<lparr>ss_client := b\<rparr>)"
    by (subst session_update_done, rule actions_ok_same [OF ok(2) out(2,1) req(2)])
  moreover have "done_ok (s\<lparr>ss_client := b\<rparr>)" using ok(3) req by (simp add: done_ok_def)
  ultimately show ?thesis using b by (simp add: session_inv_def)
qed

lemma session_inv_receive:
  assumes inv: "session_inv s"
  shows "session_inv (session_step L s (Receive m))"
proof -
  have b: "bc_inv (ss_client s)" using inv by (simp add: session_inv_def)
  obtain b' out where r: "receive_message m (ss_client s) = Inr (b', out)" and b': "bc_inv b'"
    using receive_message_inv [OF b, of m] by blast
  note view = receive_message_view [OF b r]
  have "auth_ok b'" using inv view by (simp add: session_inv_def auth_ok_def client_view_def)
  moreover have "queue_ok (session_step L s (Receive m))"
  proof -
    have "queue_ok (s\<lparr>ss_client := b', ss_done := ss_done s @ rr_completed_requests out\<rparr>)"
      by (rule queue_ok_same [where ms = "[]"])
         (use inv view receive_message_originals [OF b r] in \<open>auto simp: session_inv_def\<close>)
    then show ?thesis by (simp add: r)
  qed
  moreover have "actions_ok (session_step L s (Receive m))"
  proof -
    have "actions_ok (s\<lparr>ss_client := b', ss_done := ss_done s @ rr_completed_requests out\<rparr>)"
      by (rule actions_ok_same [where ms = "[]"]) (use inv view in \<open>auto simp: session_inv_def\<close>)
    then show ?thesis by (simp add: r)
  qed
  moreover have "done_ok (session_step L s (Receive m))"
    by (rule done_ok_step [OF b]) (use inv in \<open>auto simp: session_inv_def\<close>)
  moreover have "in_step (session_step L s (Receive m))"
    by (rule in_step_receive [OF b]) (use inv in \<open>auto simp: session_inv_def\<close>)
  ultimately show ?thesis using b' by (simp add: session_inv_def r)
qed

lemma session_inv_restart:
  assumes inv: "session_inv s"
  shows "session_inv (session_step L s (Restart tok))"
proof -
  have b: "bc_inv (ss_client s)" and auth: "auth_ok (ss_client s)" using inv by (simp_all add: session_inv_def)
  obtain b' failed where r: "restart tok (ss_client s) = (b', failed)" by fastforce
  have "bc_auth b' = auth_after tok (ss_client s)" using r by (auto simp: restart_eq)
  then have "auth_ok b'" using auth by (auto simp: auth_ok_def auth_after_def split: option.splits if_splits)
  moreover have "bc_inv b'" using restart_inv [OF b, of tok] r by simp
  moreover have "in_step (session_step L s (Restart tok))"
    by (rule in_step_restart [OF b]) (use auth in \<open>auto simp: auth_ok_def\<close>)
  moreover have "done_ok (session_step L s (Restart tok))"
    by (rule done_ok_step [OF b]) (use inv in \<open>auto simp: session_inv_def\<close>)
  moreover have "queue_ok (session_step L s (Restart tok)) \<and> actions_ok (session_step L s (Restart tok))"
    by (rule queue_ok_restart [OF b]) (use inv in \<open>auto simp: session_inv_def\<close>)
  ultimately show ?thesis by (simp add: session_inv_def r)
qed

lemma pop_inv: "bc_inv b \<Longrightarrow> bc_inv (b\<lparr>bc_outgoing := q\<rparr>)"
  unfolding bc_inv_def by (auto elim: ok_congs)

lemma session_inv_pop: "session_inv s \<Longrightarrow> session_inv (session_step L s Pop)"
  using in_step_pop [of s L]
  by (cases "bc_outgoing (ss_client s)")
     (simp_all add: session_inv_def pop_next_message_def pop_inv auth_ok_def done_ok_def queue_ok_def
      actions_ok_def Let_def, blast)

lemma session_inv_step:
  assumes inv: "session_inv s" and en: "session_ok s op"
  shows "session_inv (session_step L s op)"
proof -
  have b: "bc_inv (ss_client s)" and step: "in_step s" and auth: "auth_ok (ss_client s)"
    using inv by (simp_all add: session_inv_def)
  show ?thesis
  proof (cases op)
    case (Subscribe p args)
    obtain ms where ms: "bc_outgoing (fst (subscribe L p args (ss_client s))) = bc_outgoing (ss_client s) @ ms"
      "request_ids ms = []" using subscribe_frame by blast
    have "auth_ok (fst (subscribe L p args (ss_client s)))"
      using auth subscribe_frame by (simp add: auth_ok_def)
    with ms show ?thesis
      using en subscribe_inv [OF b] in_step_subscribe [OF b step] subscribe_requests
      by (auto simp: Subscribe intro!: session_inv_local [OF inv])
  next
    case (Unsubscribe sid)
    obtain ms where ms: "bc_outgoing (unsubscribe sid (ss_client s)) = bc_outgoing (ss_client s) @ ms"
      "request_ids ms = []" using unsubscribe_frame by blast
    have "auth_ok (unsubscribe sid (ss_client s))"
      using auth unsubscribe_frame by (simp add: auth_ok_def)
    with ms show ?thesis
      using unsubscribe_inv [OF b] in_step_unsubscribe [OF b step] unsubscribe_requests
      by (auto simp: Unsubscribe intro!: session_inv_local [OF inv])
  next
    case (Set_auth tok)
    show ?thesis
      unfolding Set_auth session_step.simps
      by (rule session_inv_local [OF inv set_auth_inv [OF b] in_step_set_auth [OF step]])
         (auto simp: set_auth_def auth_ok_def)
  next
    case (Make_connect reason ts)
    have "bc_inv (ss_client s\<lparr>bc_connection_count := bc_connection_count (ss_client s) + 1\<rparr>)"
      using b unfolding bc_inv_def by (auto elim: ok_congs)
    then show ?thesis
      using in_step_same [OF step] auth
      by (auto simp: Make_connect make_connect_message_def client_view_def auth_ok_def
          intro!: session_inv_local [OF inv, where ms = "[]"])
  next
    case (Mutation p args)
    show ?thesis
      using session_inv_request [OF inv, of CM_mutation RK_mutation] en by (simp add: Mutation mutation_def)
  next
    case (Action p args)
    show ?thesis
      using session_inv_request [OF inv, of CM_action RK_action] en by (simp add: Action action_def)
  qed (use inv session_inv_receive session_inv_pop session_inv_restart in simp_all)
qed

interpretation ss: guarded_machine "session_step L" session_ok session_inv for L
  by unfold_locales (rule session_inv_step)

text \<open>A session at the end of a run of enabled operations.\<close>

definition session_run :: "json_lib \<Rightarrow> string \<Rightarrow> session_op list \<Rightarrow> session" where
  "session_run L sid ops = run (session_step L) (new_session sid) ops"

definition session_runs :: "json_lib \<Rightarrow> string \<Rightarrow> session_op list \<Rightarrow> bool" where
  "session_runs L sid ops \<longleftrightarrow> ok_run (session_step L) session_ok (new_session sid) ops"

lemma session_run_inv: "session_runs L sid ops \<Longrightarrow> session_inv (session_run L sid ops)"
  unfolding session_runs_def session_run_def by (rule ss.run_keeps [OF session_inv_new])

lemma session_run_client: "session_runs L sid ops \<Longrightarrow> bc_inv (ss_client (session_run L sid ops))"
  using session_run_inv by (simp add: session_inv_def)

end
