(* ===== verification/SessionProps.thy ===== *)
theory SessionProps
  imports Session
begin

section \<open>What every session run satisfies\<close>

text \<open>
  The properties of \<open>base_client\<close> over whole runs: agreement with the server, accounting of the
  requests, order and multiplicity of what goes on the wire, and the effect of each server
  message and of \<open>restart\<close> on a reachable state. The witnesses run one session with subscribed
  queries, a mutation, an action, a lost connection and answers of the server.
\<close>

subsection \<open>A session to try the properties on\<close>

definition demo_lib :: json_lib where
  "demo_lib = \<lparr>jl_dump = (\<lambda>_. Inr ''{}''), jl_parse = (\<lambda>t. Inl (Json_exception ''parse error''))\<rparr>"

definition demo_ops :: "session_op list" where
  "demo_ops = [Make_connect ''InitialConnect'' None, Subscribe ''messages.js:list'' [],
     Subscribe ''messages:list'' [], Set_auth (auth_token_user ''jwt''), Mutation ''messages:send'' [],
     Action ''mail:send'' [], Pop, Pop, Pop, Pop, Action ''mail:ping'' []]"

definition demo_success :: server_message where
  "demo_success = SV_mutation_response \<lparr>mr_id = 0, mr_result = FR_success VNull, mr_ts = Some 7,
     mr_log_lines = []\<rparr>"

definition demo_transition :: server_message where
  "demo_transition = SV_transition \<lparr>tr_start_version = initial_state_version,
     tr_end_version = \<lparr>sv_query_set = 1, sv_identity = 1, sv_ts = 9\<rparr>,
     tr_modifications = [SM_updated \<lparr>qu_id = 0, qu_result = VNull, qu_log_lines = [''hello''],
       qu_journal = Some ''j''\<rparr>]\<rparr>"

definition demo_lost :: "session_op list" where
  "demo_lost = demo_ops @ [Receive demo_success, Restart None, Pop, Pop, Receive demo_transition]"

lemma demo_runs: "session_runs demo_lib ''s'' demo_ops" "session_runs demo_lib ''s'' demo_lost"
  by code_simp+

subsection \<open>The client and the server stay in step\<close>

text \<open>
  \<open>C1\<close>: the server accepts every message the client queues, at the version it is at. After any run
  of the public operations, a server that starts empty on this connection accepts everything
  popped on it so far, and after the messages still queued it holds exactly the client's query
  set (the path and arguments of each live query identifier), its two versions and its token.
\<close>

theorem server_in_step:
  assumes "session_runs L sid ops"
  defines "s \<equiv> session_run L sid ops"
  shows "server_run (ss_sent s) fresh_view \<noteq> None
    \<and> server_run (ss_sent s @ bc_outgoing (ss_client s)) fresh_view =
       Some \<lparr>vw_queries = wanted (ss_client s), vw_query_set_version = bc_query_set_version (ss_client s),
             vw_identity_version = bc_identity_version (ss_client s), vw_token = bc_auth (ss_client s)\<rparr>"
proof -
  have step: "in_step s" using session_run_inv [OF assms(1)] by (simp add: session_inv_def s_def)
  then have "server_run (ss_sent s) fresh_view \<noteq> None"
    by (cases "server_run (ss_sent s) fresh_view") (auto simp: in_step_def server_run_append)
  with step show ?thesis by (simp add: in_step_def client_view_def)
qed

lemma server_in_step_witness:
  "session_runs demo_lib ''s'' demo_lost
   \<and> (\<exists>v. server_run (ss_sent (session_run demo_lib ''s'' demo_lost)) fresh_view = Some v)
   \<and> wanted (ss_client (session_run demo_lib ''s'' demo_lost)) 0 = Some (''messages:list'', ''[{}]'')"
proof -
  have "wanted (ss_client (session_run demo_lib ''s'' demo_lost)) 0 = Some (''messages:list'', ''[{}]'')"
    by code_simp
  then show ?thesis using server_in_step [OF demo_runs(2)] demo_runs(2) by blast
qed

subsection \<open>Requests\<close>

lemma mset_eq_mset_set:
  assumes "mset xs = mset_set A" and "finite A"
  shows "distinct xs \<and> set xs = A"
proof -
  have "set xs = A" using assms by (metis finite_set_mset_mset_set set_mset_mset)
  moreover have "distinct xs"
    using assms by (simp add: distinct_count_atmost_1 calculation count_mset_set')
  ultimately show ?thesis by simp
qed

text \<open>
  \<open>C21\<close>: every request completes exactly once. After any run, the identifiers reported to the
  caller (by \<open>receive_message\<close> or by \<open>restart\<close>), those in flight and those of calls whose
  arguments could not be serialized are pairwise distinct, and together they are exactly the
  identifiers taken so far: no request is reported twice, and none is lost.
\<close>

theorem requests_accounted:
  assumes "session_runs L sid ops"
  defines "s \<equiv> session_run L sid ops"
  shows "distinct (map fst (ss_done s) @ ss_spent s @ map fst (bc_ongoing_requests (ss_client s)))
    \<and> set (map fst (ss_done s) @ ss_spent s @ map fst (bc_ongoing_requests (ss_client s))) =
        {i. i < bc_next_request_id (ss_client s)}"
proof (rule mset_eq_mset_set)
  have "done_ok s" using session_run_inv [OF assms(1)] by (simp add: session_inv_def s_def)
  then show "mset (map fst (ss_done s) @ ss_spent s @ map fst (bc_ongoing_requests (ss_client s))) =
      mset_set {i. i < bc_next_request_id (ss_client s)}"
    by (simp add: done_ok_def add.assoc)
qed simp

lemma requests_accounted_witness:
  "map fst (ss_done (session_run demo_lib ''s'' demo_lost)) = [1, 0]
   \<and> 2 \<notin> fst ` set (ss_done (session_run demo_lib ''s'' demo_lost))"
proof -
  have reported: "map fst (ss_done (session_run demo_lib ''s'' demo_lost)) = [1, 0]"
    and flight: "map fst (bc_ongoing_requests (ss_client (session_run demo_lib ''s'' demo_lost))) = [2]"
    by code_simp+
  show ?thesis
    using requests_accounted [OF demo_runs(2)] reported flight
    by (metis (no_types, lifting) distinct.simps(2) distinct_append image_set in_set_conv_decomp
        list.set_intros(1) disjoint_iff Un_iff set_append)
qed

text \<open>
  \<open>C24\<close>: an action is put on the wire at most once. Over all connections of a run, the action
  requests that were popped have different identifiers, and none of them is in the queue again:
  a restart resends only the actions that had never left the queue.
\<close>

theorem actions_at_most_once:
  assumes "session_runs L sid ops"
  defines "s \<equiv> session_run L sid ops"
  shows "distinct (action_ids (ss_history s @ ss_sent s @ bc_outgoing (ss_client s)))"
  using session_run_inv [OF assms(1)] by (simp add: session_inv_def actions_ok_def s_def Let_def)

lemma actions_at_most_once_witness:
  "action_ids (ss_history (session_run demo_lib ''s'' demo_lost)) = [1]
   \<and> action_ids (bc_outgoing (ss_client (session_run demo_lib ''s'' demo_lost))) = [2]
   \<and> 1 \<notin> set (action_ids (ss_sent (session_run demo_lib ''s'' demo_lost)))"
proof -
  have "action_ids (ss_history (session_run demo_lib ''s'' demo_lost)) = [1]"
    and "action_ids (bc_outgoing (ss_client (session_run demo_lib ''s'' demo_lost))) = [2]"
    by code_simp+
  then show ?thesis using actions_at_most_once [OF demo_runs(2)] by simp
qed

text \<open>
  \<open>C27\<close>: requests are sent in order, and none in flight is forgotten. On each connection the
  requests popped and queued have strictly ascending identifiers, that is the order the calls
  were made in, each at most once, and the message of every request in flight is among them.
\<close>

theorem requests_in_order:
  assumes "session_runs L sid ops"
  defines "s \<equiv> session_run L sid ops"
  shows "sorted_wrt (<) (request_ids (ss_sent s @ bc_outgoing (ss_client s)))
    \<and> (\<forall>(rid, req) \<in> set (bc_ongoing_requests (ss_client s)).
         pr_original_message req \<in> set (ss_sent s @ bc_outgoing (ss_client s)))"
proof -
  have ok: "queue_ok s" and b: "bc_inv (ss_client s)"
    using session_run_inv [OF assms(1)] by (simp_all add: session_inv_def s_def)
  have "om_wf (bc_ongoing_requests (ss_client s))" using b by (simp add: bc_inv_def requests_ok_def)
  with ok show ?thesis by (auto simp: queue_ok_def Let_def om_wf_map_of_iff)
qed

lemma requests_in_order_witness:
  "request_ids (ss_sent (session_run demo_lib ''s'' demo_lost)
     @ bc_outgoing (ss_client (session_run demo_lib ''s'' demo_lost))) = [0, 2]
   \<and> sorted_wrt (<) [0 :: 32 word, 2]"
proof -
  have "request_ids (ss_sent (session_run demo_lib ''s'' demo_lost)
     @ bc_outgoing (ss_client (session_run demo_lib ''s'' demo_lost))) = [0, 2]" by code_simp
  with requests_in_order [OF demo_runs(2)] show ?thesis by simp
qed

subsection \<open>Server messages\<close>

text \<open>
  \<open>C25\<close>: \<open>receive_message\<close> never throws. On every state a run reaches and for every server
  message it returns: \<open>query_set_.at\<close> always finds its key and the result of a completed request
  is always there when it is delivered. AuthError, FatalError, an unassembled chunk, a Ping and a
  response to an unknown request leave the state as it is.
\<close>

theorem receive_message_total:
  assumes "session_runs L sid ops"
  defines "b \<equiv> ss_client (session_run L sid ops)"
  shows "\<exists>b' out. receive_message m b = Inr (b', out)
    \<and> (case m of SV_transition t \<Rightarrow> True
       | SV_mutation_response r \<Rightarrow> map_of (bc_ongoing_requests b) (mr_id r) = None \<longrightarrow> b' = b \<and> out = no_receive_result
       | SV_action_response r \<Rightarrow> map_of (bc_ongoing_requests b) (ar_id r) = None \<longrightarrow> b' = b \<and> out = no_receive_result
       | SV_ping \<Rightarrow> b' = b \<and> out = no_receive_result
       | _ \<Rightarrow> b' = b \<and> rr_reconnect_reason out \<noteq> None \<and> rr_completed_requests out = [])"
proof -
  have inv: "bc_inv b" unfolding b_def by (rule session_run_client [OF assms(1)])
  obtain b' out where r: "receive_message m b = Inr (b', out)" using receive_message_inv [OF inv, of m] by blast
  show ?thesis
    by (rule exI [of _ b'], rule exI [of _ out])
       (use r in \<open>auto simp: handle_mutation_response_def handle_action_response_def no_receive_result_def
          split: server_message.split option.splits\<close>)
qed

lemma receive_message_total_witness:
  "\<exists>b' out. receive_message demo_success (ss_client (session_run demo_lib ''s'' demo_ops)) = Inr (b', out)"
  using receive_message_total [OF demo_runs(1), of demo_success] by blast

lemma map_of_fold_result:
  "map_of (fold apply_result ms rs) i =
     fold (\<lambda>m r. if sm_id m = i then sm_result m else r) ms (map_of rs i)"
  by (induction ms arbitrary: rs) (auto simp: apply_result_def split: option.split)

lemma requests_entry:
  "bc_inv b \<Longrightarrow> (rid, req) \<in> set (bc_ongoing_requests b) \<Longrightarrow> request_ok b rid req"
  unfolding bc_inv_def by (auto simp: requests_ok_def om_wf_map_of_iff)

text \<open>
  \<open>C22\<close>: a transition, and read-your-writes. A transition that does not start at the client's
  version changes nothing and asks for a reconnect. One that does moves the client to its end
  version; each query's latest result is the one of the last modification that names it (none
  after a removal); and it delivers exactly the held mutation successes whose timestamp the end
  version has reached, in ascending order of their identifiers. Those it leaves in flight have a
  later timestamp.
\<close>

theorem transition_spec:
  assumes "session_runs L sid ops"
  defines "b \<equiv> ss_client (session_run L sid ops)"
  shows "\<exists>b' out. receive_message (SV_transition t) b = Inr (b', out)
    \<and> (if tr_start_version t \<noteq> bc_remote_version b
       then b' = b \<and> out = no_receive_result\<lparr>rr_reconnect_reason := Some ''StartVersionMismatch''\<rparr>
       else bc_remote_version b' = tr_end_version t \<and> rr_state_changed out \<and> rr_reconnect_reason out = None
         \<and> rr_changed_queries out = map sm_id (tr_modifications t)
         \<and> (\<forall>i. latest_result b' i =
              fold (\<lambda>m r. if sm_id m = i then sm_result m else r) (tr_modifications t) (latest_result b i))
         \<and> bc_outstanding_queries b' = bc_outstanding_queries b - set (map sm_id (tr_modifications t))
         \<and> wanted b' = wanted b
         \<and> sorted_wrt (<) (map fst (rr_completed_requests out))
         \<and> (\<forall>(rid, r) \<in> set (rr_completed_requests out). fr_ok r \<and> (\<exists>req ts.
              (rid, req) \<in> set (bc_ongoing_requests b) \<and> pr_result req = Some r
              \<and> pr_ts req = Some ts \<and> ts \<le> sv_ts (tr_end_version t)))
         \<and> (\<forall>(rid, req) \<in> set (bc_ongoing_requests b). rid \<notin> fst ` set (rr_completed_requests out) \<longrightarrow>
              (rid, req) \<in> set (bc_ongoing_requests b')
              \<and> (pr_completed req \<longrightarrow> (\<exists>ts. pr_ts req = Some ts \<and> sv_ts (tr_end_version t) < ts))))"
proof (cases "tr_start_version t = bc_remote_version b")
  case False
  then show ?thesis by (simp add: handle_transition_def)
next
  case True
  have inv: "bc_inv b" unfolding b_def by (rule session_run_client [OF assms(1)])
  have wf: "om_wf (bc_ongoing_requests b)" using inv by (simp add: bc_inv_def requests_ok_def)
  let ?w = "sv_ts (tr_end_version t)"
  have ids: "map fst (flushed ?w b) = map fst (filter (\<lambda>(rid, req). flushable ?w req) (bc_ongoing_requests b))"
    by (simp add: flushed_def comp_def split_def)
  then have sorted: "sorted_wrt (<) (map fst (flushed ?w b))"
    using om_wf_filter [OF wf] by (simp add: om_wf_def)
  have done': "fr_ok r \<and> (\<exists>req ts. (rid, req) \<in> set (bc_ongoing_requests b) \<and> pr_result req = Some r
      \<and> pr_ts req = Some ts \<and> ts \<le> ?w)" if mem: "(rid, r) \<in> set (flushed ?w b)" for rid r
  proof -
    obtain req where req: "(rid, req) \<in> set (bc_ongoing_requests b)" "flushable ?w req" "r = the (pr_result req)"
      using mem by (auto simp: flushed_def)
    with request_ok_flushable [OF requests_entry [OF inv req(1)] req(2)] show ?thesis by auto
  qed
  have kept: "\<not> flushable ?w req \<and> (pr_completed req \<longrightarrow> (\<exists>ts. pr_ts req = Some ts \<and> ?w < ts))"
    if "(rid, req) \<in> set (bc_ongoing_requests b)" "rid \<notin> fst ` set (flushed ?w b)" for rid req
  proof -
    have "\<not> flushable ?w req"
    proof
      assume "flushable ?w req"
      then have "rid \<in> set (map fst (filter (\<lambda>(rid, req). flushable ?w req) (bc_ongoing_requests b)))"
        using that(1) by force
      then have "rid \<in> set (map fst (flushed ?w b))" by (simp only: ids)
      with that(2) show False by simp
    qed
    with requests_entry [OF inv that(1)] show ?thesis
      by (auto simp: request_ok_def flushable_def not_le)
  qed
  have view: "wanted (advance t b) = wanted b"
    by (rule wanted_cong) (simp_all add: advance_def map_option_fold_journal)
  show ?thesis
    using handle_transition_eq [OF inv True] True sorted done' kept view
    by (auto simp: advance_def latest_result_def map_of_fold_result no_receive_result_def)
qed

lemma transition_spec_witness:
  "\<exists>b' out. receive_message demo_transition (ss_client (session_run demo_lib ''s'' (take 14 demo_lost))) = Inr (b', out)
     \<and> bc_remote_version b' = \<lparr>sv_query_set = 1, sv_identity = 1, sv_ts = 9\<rparr>
     \<and> rr_changed_queries out = [0]"
proof -
  have runs: "session_runs demo_lib ''s'' (take 14 demo_lost)" by code_simp
  have "bc_remote_version (ss_client (session_run demo_lib ''s'' (take 14 demo_lost))) = initial_state_version"
    by code_simp
  with transition_spec [OF runs, of "\<lparr>tr_start_version = initial_state_version,
     tr_end_version = \<lparr>sv_query_set = 1, sv_identity = 1, sv_ts = 9\<rparr>,
     tr_modifications = [SM_updated \<lparr>qu_id = 0, qu_result = VNull, qu_log_lines = [''hello''],
       qu_journal = Some ''j''\<rparr>]\<rparr>"]
  show ?thesis unfolding demo_transition_def by (simp del: receive_message.simps) blast
qed

text \<open>
  A mutation response. A response to an unknown identifier changes nothing. A success with a
  timestamp the client's version has not reached is held: nothing is delivered and the request
  stays in flight, completed, with the result and the timestamp. Every other response (a failure,
  a success whose timestamp is reached, a success without a timestamp) is delivered at once, and
  the request is gone. The other requests and the query results do not change.
\<close>

theorem mutation_response_spec:
  assumes "session_runs L sid ops"
  defines "b \<equiv> ss_client (session_run L sid ops)"
  shows "\<exists>b' out. receive_message (SV_mutation_response m) b = Inr (b', out)
    \<and> bc_remote_version b' = bc_remote_version b \<and> bc_remote_results b' = bc_remote_results b
    \<and> (case map_of (bc_ongoing_requests b) (mr_id m) of
         None \<Rightarrow> b' = b \<and> out = no_receive_result
       | Some req \<Rightarrow>
           (if fr_ok (mr_result m) \<and> (\<exists>ts. mr_ts m = Some ts \<and> sv_ts (bc_remote_version b) < ts)
            then rr_completed_requests out = []
              \<and> map_of (bc_ongoing_requests b') = (map_of (bc_ongoing_requests b))(mr_id m \<mapsto>
                   req\<lparr>pr_completed := True, pr_ts := mr_ts m, pr_result := Some (mr_result m)\<rparr>)
            else rr_completed_requests out = [(mr_id m, mr_result m)]
              \<and> map_of (bc_ongoing_requests b') = (map_of (bc_ongoing_requests b))(mr_id m := None)))"
proof -
  have inv: "bc_inv b" unfolding b_def by (rule session_run_client [OF assms(1)])
  show ?thesis
  proof (cases "map_of (bc_ongoing_requests b) (mr_id m)")
    case None
    then show ?thesis by (simp add: handle_mutation_response_def)
  next
    case (Some req)
    have none: "rr_completed_requests (response_log m req) = []"
      by (simp add: response_log_def push_log_def no_receive_result_def)
    show ?thesis
    proof (cases "fr_ok (mr_result m) \<and> mr_ts m \<noteq> None")
      case True
      then obtain ts where ts: "mr_ts m = Some ts" "fr_ok (mr_result m)" by auto
      show ?thesis
        using handle_mutation_response_held [OF inv Some ts(2,1)] Some ts none
        by (cases "ts \<le> sv_ts (bc_remote_version b)")
           (simp_all add: complete_request_def hold_result_def completed_def not_le)
    next
      case False
      then show ?thesis
        using handle_mutation_response_done [OF Some] Some none
        by (auto simp: complete_request_def)
    qed
  qed
qed

lemma mutation_response_spec_witness:
  "\<exists>b' out. receive_message demo_success (ss_client (session_run demo_lib ''s'' demo_ops)) = Inr (b', out)
     \<and> rr_completed_requests out = [] \<and> map_of (bc_ongoing_requests b') 0 \<noteq> None"
proof -
  let ?b = "ss_client (session_run demo_lib ''s'' demo_ops)"
  have "map_of (bc_ongoing_requests ?b) 0 \<noteq> None" "sv_ts (bc_remote_version ?b) = 0" by code_simp+
  then show ?thesis
    using mutation_response_spec [OF demo_runs(1), of "\<lparr>mr_id = 0, mr_result = FR_success VNull,
        mr_ts = Some 7, mr_log_lines = []\<rparr>"]
    unfolding demo_success_def by (auto simp: fr_ok_def simp del: receive_message.simps)
qed

subsection \<open>Restart\<close>

lemma action_in_flight_sent:
  assumes inv: "session_inv s" and e: "(rid, req) \<in> set (bc_ongoing_requests (ss_client s))"
    and act: "pr_typ req = RK_action"
  shows "rid \<in> unsent_actions (bc_outgoing (ss_client s)) \<longleftrightarrow> pr_original_message req \<notin> set (ss_sent s)"
proof -
  have b: "bc_inv (ss_client s)" and q: "queue_ok s" and a: "actions_ok s"
    using inv by (simp_all add: session_inv_def)
  have "request_ok (ss_client s) rid req" by (rule requests_entry [OF b e])
  then obtain r where r: "rq_id r = rid" "pr_original_message req = CM_action r"
    using act by (auto elim: request_message_cases)
  have "om_wf (bc_ongoing_requests (ss_client s))" using b by (simp add: bc_inv_def requests_ok_def)
  then have "map_of (bc_ongoing_requests (ss_client s)) rid = Some req" using e by (simp add: om_wf_map_of_iff)
  then have "pr_original_message req \<in> set (ss_sent s @ bc_outgoing (ss_client s))"
    using q unfolding queue_ok_def Let_def by blast
  then have mem: "CM_action r \<in> set (ss_sent s @ bc_outgoing (ss_client s))" by (simp only: r(2))
  have "rid \<notin> set (action_ids (ss_sent s)) \<or> rid \<notin> set (action_ids (bc_outgoing (ss_client s)))"
    using a by (auto simp: actions_ok_def Let_def)
  moreover have "CM_action r \<in> set ms \<Longrightarrow> rid \<in> set (action_ids ms)" for ms
    using r(1) by (auto simp: action_ids_iff)
  ultimately show ?thesis
    using mem unfolding unsent_actions_eq r(2) by auto
qed

text \<open>
  \<open>C23\<close>: a restart. It fails exactly the actions in flight that were put on the wire on the lost
  connection, in ascending order and with the documented error. The queue then holds, in this
  order: an Authenticate from version 0 when a token is set, one ModifyQuerySet from version 0 to
  1 that adds every live query with its journal when there is one, and the message of every other
  request in flight, ascending. Nothing the client wants is lost, the results are forgotten, and
  exactly the live queries are outstanding.
\<close>

theorem restart_spec:
  assumes "session_runs L sid ops"
  defines "s \<equiv> session_run L sid ops"
  shows "let b = ss_client s; (b', failed) = restart tok b;
       lost = (\<lambda>(rid, req). pr_typ req = RK_action \<and> pr_original_message req \<in> set (ss_sent s));
       auth = (case tok of None \<Rightarrow> bc_auth b | Some t \<Rightarrow> if at_type t = Auth_none then None else Some t)
     in failed = map (\<lambda>(rid, req). (rid, FR_error ''Connection lost while action was in flight''))
                   (filter lost (bc_ongoing_requests b))
      \<and> bc_ongoing_requests b' = filter (\<lambda>r. \<not> lost r) (bc_ongoing_requests b)
      \<and> bc_outgoing b' =
          (case auth of None \<Rightarrow> [] | Some t \<Rightarrow> [CM_authenticate \<lparr>am_base_version = 0, am_token = t\<rparr>])
          @ (if bc_query_set b = [] then []
             else [CM_modify_query_set \<lparr>mq_base_version = 0, mq_new_version = 1,
                     mq_modifications = map (\<lambda>(token, q). restore_query q) (bc_query_set b)\<rparr>])
          @ map (\<lambda>(rid, req). pr_original_message req) (bc_ongoing_requests b')
      \<and> request_ids (bc_outgoing b') = map fst (bc_ongoing_requests b')
      \<and> wanted b' = wanted b \<and> bc_auth b' = auth \<and> bc_remote_version b' = initial_state_version
      \<and> (\<forall>i. latest_result b' i = None) \<and> bc_outstanding_queries b' = dom (wanted b)"
proof -
  let ?b = "ss_client s"
  let ?lost = "\<lambda>(rid, req). pr_typ req = RK_action \<and> pr_original_message req \<in> set (ss_sent s)"
  have inv: "session_inv s" unfolding s_def by (rule session_run_inv [OF assms(1)])
  then have b: "bc_inv ?b" by (simp add: session_inv_def)
  then have q: "queries_ok ?b" by (simp add: bc_inv_def)
  have lost: "action_lost (unsent_actions (bc_outgoing ?b)) e \<longleftrightarrow> ?lost e"
    if "e \<in> set (bc_ongoing_requests ?b)" for e
    using action_in_flight_sent [OF inv] that by (auto simp: action_lost_def)
  have surv: "surviving ?b = filter (\<lambda>r. \<not> ?lost r) (bc_ongoing_requests ?b)"
    unfolding surviving_def by (rule filter_cong) (use lost in auto)
  have gone: "lost_actions ?b = filter ?lost (bc_ongoing_requests ?b)"
    unfolding lost_actions_def by (rule filter_cong) (use lost in auto)
  have ids: "request_ids (map (\<lambda>(rid, req). pr_original_message req) (surviving ?b)) = map fst (surviving ?b)"
    using request_ids_ongoing [of "surviving ?b" ?b] requests_entry [OF b] by (auto simp: surviving_def)
  have w: "wanted (fst (restart tok ?b)) = wanted ?b"
    by (rule wanted_cong) (simp_all add: restart_eq)
  have outst: "set (map (\<lambda>(token, q). lq_id q) (bc_query_set ?b)) = dom (wanted ?b)"
    unfolding wanted_map_of [OF q] by (auto simp: dom_map_of_conv_image_fst image_image split_def)
  have auth: "auth_after tok ?b =
      (case tok of None \<Rightarrow> bc_auth ?b | Some t \<Rightarrow> if at_type t = Auth_none then None else Some t)"
    by (simp add: auth_after_def)
  show ?thesis
    unfolding Let_def restart_eq prod.case surv [symmetric] gone [symmetric] auth [symmetric]
    using ids w outst
    by (simp add: restart_eq restored_auth_def restored_queries_def latest_result_def split: option.split)
qed

lemma restart_spec_witness:
  "map fst (snd (restart None (ss_client (session_run demo_lib ''s'' demo_ops)))) = [1]
   \<and> wanted (fst (restart None (ss_client (session_run demo_lib ''s'' demo_ops)))) =
       wanted (ss_client (session_run demo_lib ''s'' demo_ops))"
proof -
  let ?s = "session_run demo_lib ''s'' demo_ops"
  have "map fst (filter (\<lambda>(rid, req). pr_typ req = RK_action \<and> pr_original_message req \<in> set (ss_sent ?s))
      (bc_ongoing_requests (ss_client ?s))) = [1]" by code_simp
  then show ?thesis
    using restart_spec [OF demo_runs(1), of None]
    by (simp add: Let_def split: prod.splits) (simp add: comp_def split_def)
qed

subsection \<open>Subscriptions\<close>

text \<open>
  The query set is keyed by \<open>path|args\<close>. The path is arbitrary text, so the key is unambiguous only
  because of the form of the arguments: in JSON text a bar or a backslash appears inside string
  literals only. \<open>scan\<close> follows the quotes; \<open>well_quoted\<close> says that a text is of that form.
\<close>

datatype quoting = Outside | Inside | Escaped

fun scan_char :: "quoting \<Rightarrow> char \<Rightarrow> quoting option" where
  "scan_char Outside c =
     (if c = CHR 0x22 then Some Inside
      else if c = CHR ''|'' \<or> c = CHR 0x5C then None else Some Outside)"
| "scan_char Inside c =
     (if c = CHR 0x22 then Some Outside else if c = CHR 0x5C then Some Escaped else Some Inside)"
| "scan_char Escaped c = Some Inside"

fun scan :: "quoting \<Rightarrow> string \<Rightarrow> quoting option" where
  "scan q [] = Some q"
| "scan q (c # cs) = Option.bind (scan_char q c) (\<lambda>q'. scan q' cs)"

definition well_quoted :: "string \<Rightarrow> bool" where
  "well_quoted t \<longleftrightarrow> scan Outside t = Some Outside"

lemma scan_append: "scan q (s @ t) = Option.bind (scan q s) (\<lambda>q'. scan q' t)"
  by (induction s arbitrary: q) (auto split: bind_splits)

text \<open>Read from outside and from inside a literal, a text never ends in the same state.\<close>

lemma scan_phases: "scan Outside t = Some x \<Longrightarrow> scan Inside t = Some y \<Longrightarrow> x \<noteq> y"
proof (induction t arbitrary: x y)
  case (Cons c t)
  show ?case
  proof (cases "c = CHR 0x22")
    case True
    then show ?thesis using Cons.IH [of y x] Cons.prems by auto
  next
    case False
    then show ?thesis using Cons by (auto split: if_splits)
  qed
qed simp

lemma query_token_inj:
  assumes wq: "well_quoted a" "well_quoted a'" and eq: "query_token p a = query_token p' a'"
  shows "p = p' \<and> a = a'"
proof -
  have no: False if wx: "well_quoted x" "well_quoted (us @ CHR ''|'' # x)" for us x
  proof -
    obtain q where "scan Outside us = Some q" "scan q (CHR ''|'' # x) = Some Outside"
      using wx(2) by (auto simp: well_quoted_def scan_append bind_eq_Some_conv)
    then have "scan Inside x = Some Outside" by (cases q) auto
    with wx(1) scan_phases [of x Outside Outside] show False
      by (simp add: well_quoted_def)
  qed
  have "p @ CHR ''|'' # a = p' @ CHR ''|'' # a'" using eq by (simp add: query_token_def)
  then obtain us where "p = p' @ us \<and> us @ CHR ''|'' # a = CHR ''|'' # a'
      \<or> p @ us = p' \<and> CHR ''|'' # a = us @ CHR ''|'' # a'"
    by (auto simp: append_eq_append_conv2)
  then show ?thesis using no wq by (cases us) auto
qed

lemma live_token:
  assumes ok: "queries_ok b" and w: "wanted b i = Some (p, a)"
  shows "map_of (bc_id_to_token b) i = Some (query_token p a)
    \<and> (\<exists>q. map_of (bc_query_set b) (query_token p a) = Some q \<and> lq_id q = i
         \<and> lq_udf_path q = p \<and> lq_args_json q = a)"
  using w queries_okD(5,8) [OF ok] by (fastforce simp: wanted_def split: option.splits)

lemma token_live:
  assumes ok: "queries_ok b" and q: "map_of (bc_query_set b) tok = Some q"
  shows "wanted b (lq_id q) = Some (lq_udf_path q, lq_args_json q)"
  using q queries_okD(4) [OF ok q] by (simp add: wanted_def)

text \<open>Every argument text in the query set came from the serializer.\<close>

definition wanted_quoted :: "session \<Rightarrow> bool" where
  "wanted_quoted s \<longleftrightarrow> (\<forall>i p a. wanted (ss_client s) i = Some (p, a) \<longrightarrow> well_quoted a)"

lemma serialize_args_quoted:
  assumes lib: "\<forall>j t. jl_dump L j = Inr t \<longrightarrow> well_quoted t" and ser: "serialize_args L args = Inr a"
  shows "well_quoted a"
proof -
  obtain t j where "jl_dump L j = Inr t" "a = ''['' @ t @ '']''"
    using ser by (auto simp: serialize_args_def to_wire_json_def result_simps)
  with lib show ?thesis by (auto simp: well_quoted_def scan_append)
qed

lemma subscribe_Inr:
  "serialize_args L args = Inr a \<Longrightarrow> subscribe L p args b =
     (fst (subscribe_query (canonicalize_udf_path p) a b), Inr (snd (subscribe_query (canonicalize_udf_path p) a b)))"
  by (simp add: subscribe_def split: prod.split)

lemma wanted_subscribe:
  assumes ok: "queries_ok b" and ser: "serialize_args L args = Inr a"
  shows "wanted (fst (subscribe L p args b)) = wanted b
    \<or> wanted (fst (subscribe L p args b)) = (wanted b)(bc_next_query_id b \<mapsto> (canonicalize_udf_path p, a))"
proof (cases "map_of (bc_query_set b) (query_token (canonicalize_udf_path p) a)")
  case None
  then show ?thesis
    using wanted_new_query [OF ok None] by (simp add: subscribe_Inr [OF ser] subscribe_query_new [OF ok])
next
  case (Some q)
  have "wanted (fst (subscribe_query (canonicalize_udf_path p) a b)) = wanted b"
    by (rule wanted_cong) (auto simp: subscribe_query_old [OF Some] Some)
  then show ?thesis by (simp add: subscribe_Inr [OF ser])
qed

lemma wanted_unsubscribe:
  assumes ok: "queries_ok b"
  shows "wanted (unsubscribe sid b) = wanted b \<or> wanted (unsubscribe sid b) = (wanted b)(si_query sid := None)"
proof (cases "map_of (bc_id_to_token b) (si_query sid)")
  case None
  then show ?thesis by (simp add: unsubscribe_unknown)
next
  case (Some tok)
  then obtain q where q: "map_of (bc_query_set b) tok = Some q" using queries_okD(8) [OF ok] by blast
  show ?thesis
  proof (cases "lq_num_subscribers q = 1")
    case True
    then show ?thesis
      using wanted_drop_query(1) [OF ok Some] by (simp add: unsubscribe_last [OF Some q])
  next
    case False
    have "wanted (unsubscribe sid b) = wanted b"
      by (rule wanted_cong) (auto simp: unsubscribe_shared [OF Some q False] q)
    then show ?thesis ..
  qed
qed

lemma wanted_request:
  "wanted (ss_client (request_step (enqueue_request k mk L p args) s)) = wanted (ss_client s)"
  by (rule wanted_cong)
     (auto simp: request_step_def enqueue_request_def Let_def split: sum.split)

lemma wanted_quoted_step:
  assumes lib: "\<forall>j t. jl_dump L j = Inr t \<longrightarrow> well_quoted t"
    and inv: "session_inv s" and wq: "wanted_quoted s"
  shows "wanted_quoted (session_step L s op)"
proof -
  have b: "bc_inv (ss_client s)" using inv by (simp add: session_inv_def)
  then have q: "queries_ok (ss_client s)" by (simp add: bc_inv_def)
  show ?thesis
  proof (cases op)
    case (Subscribe p args)
    show ?thesis
    proof (cases "serialize_args L args")
      case (Inl e)
      then show ?thesis using wq by (simp add: Subscribe subscribe_def wanted_quoted_def)
    next
      case (Inr a)
      then show ?thesis
        using wq wanted_subscribe [OF q Inr, of p] serialize_args_quoted [OF lib Inr]
        by (auto simp: Subscribe wanted_quoted_def split: if_splits)
    qed
  next
    case (Unsubscribe sid)
    then show ?thesis
      using wq wanted_unsubscribe [OF q, of sid] by (auto simp: wanted_quoted_def split: if_splits)
  next
    case (Receive m)
    obtain b' out where r: "receive_message m (ss_client s) = Inr (b', out)"
      using receive_message_inv [OF b, of m] by blast
    then have "wanted b' = wanted (ss_client s)"
      using receive_message_view [OF b r] by (simp add: client_view_def)
    then show ?thesis using wq by (simp add: Receive r wanted_quoted_def)
  next
    case (Restart tok)
    obtain b' failed where r: "restart tok (ss_client s) = (b', failed)" by fastforce
    have "wanted (fst (restart tok (ss_client s))) = wanted (ss_client s)"
      by (rule wanted_cong) (simp_all add: restart_eq)
    then show ?thesis using wq by (simp add: Restart r wanted_quoted_def)
  next
    case Pop
    then show ?thesis using wq by (auto simp: pop_next_message_def wanted_quoted_def split: list.split)
  next
    case (Set_auth tok)
    have "wanted (set_auth tok (ss_client s)) = wanted (ss_client s)"
      by (rule wanted_cong) (simp_all add: set_auth_def)
    then show ?thesis using wq by (simp add: Set_auth wanted_quoted_def)
  next
    case (Make_connect reason ts)
    then show ?thesis using wq by (simp add: make_connect_message_def wanted_quoted_def)
  qed (use wq in \<open>simp_all add: mutation_def action_def wanted_quoted_def wanted_request\<close>)
qed

lemma wanted_quoted_run:
  assumes lib: "\<forall>j t. jl_dump L j = Inr t \<longrightarrow> well_quoted t"
  shows "session_inv s \<Longrightarrow> wanted_quoted s \<Longrightarrow> ok_run (session_step L) session_ok s ops \<Longrightarrow>
    wanted_quoted (run (session_step L) s ops)"
  by (induction ops arbitrary: s) (auto intro: wanted_quoted_step [OF lib] session_inv_step)

text \<open>\<open>subscribe\<close> on a token that is new, and on one that is live.\<close>

lemma subscribe_fresh:
  assumes ok: "queries_ok b" and ser: "serialize_args L args = Inr a"
    and None: "map_of (bc_query_set b) (query_token (canonicalize_udf_path p) a) = None"
  defines "i \<equiv> bc_next_query_id b"
  shows "\<exists>b'. subscribe L p args b = (b', Inr (Subscriber_id i (bc_next_subscription_index b)))
    \<and> wanted b' = (wanted b)(i \<mapsto> (canonicalize_udf_path p, a))
    \<and> (\<forall>j. wanted b j \<noteq> Some (canonicalize_udf_path p, a))
    \<and> bc_outgoing b' = bc_outgoing b @ [CM_modify_query_set \<lparr>mq_base_version = bc_query_set_version b,
          mq_new_version = bc_query_set_version b + 1, mq_modifications = [QS_add \<lparr>qa_id = i,
            qa_udf_path = canonicalize_udf_path p, qa_args_json = a, qa_journal = None,
            qa_component_path = None\<rparr>]\<rparr>]"
proof (intro exI conjI allI)
  let ?p = "canonicalize_udf_path p"
  let ?b' = "fst (subscribe_query ?p a b)"
  show "subscribe L p args b = (?b', Inr (Subscriber_id i (bc_next_subscription_index b)))"
    unfolding subscribe_Inr [OF ser] subscribe_query_new [OF ok None] i_def by simp
  show "wanted ?b' = (wanted b)(i \<mapsto> (?p, a))"
    unfolding subscribe_query_new [OF ok None] i_def by (simp add: wanted_new_query [OF ok None])
  show "wanted b j \<noteq> Some (?p, a)" for j using live_token [OF ok, of j ?p a] None by auto
qed (simp add: subscribe_query_new [OF ok None] i_def)

lemma subscribe_live:
  assumes ok: "queries_ok b" and ser: "serialize_args L args = Inr a"
    and Some: "map_of (bc_query_set b) (query_token (canonicalize_udf_path p) a) = Some q"
    and quoted: "\<forall>j p' a'. wanted b j = Some (p', a') \<longrightarrow> well_quoted a'" "well_quoted a"
  shows "\<exists>b'. subscribe L p args b = (b', Inr (Subscriber_id (lq_id q) (bc_next_subscription_index b)))
    \<and> wanted b' = wanted b \<and> bc_outgoing b' = bc_outgoing b
    \<and> (\<forall>j. wanted b j = Some (canonicalize_udf_path p, a) \<longleftrightarrow> j = lq_id q)"
proof (intro exI conjI allI)
  let ?p = "canonicalize_udf_path p"
  let ?b' = "fst (subscribe_query ?p a b)"
  have live: "wanted b (lq_id q) = Some (lq_udf_path q, lq_args_json q)" by (rule token_live [OF ok Some])
  have "query_token (lq_udf_path q) (lq_args_json q) = query_token ?p a"
    using queries_okD(5) [OF ok Some] by simp
  then have "lq_udf_path q = ?p \<and> lq_args_json q = a"
    by (rule query_token_inj [OF quoted(1) [rule_format, OF live] quoted(2)])
  then show "wanted b j = Some (?p, a) \<longleftrightarrow> j = lq_id q" for j
    using live live_token [OF ok, of j ?p a] Some by auto
  show "subscribe L p args b = (?b', Inr (Subscriber_id (lq_id q) (bc_next_subscription_index b)))"
    unfolding subscribe_Inr [OF ser] subscribe_query_old [OF Some] by simp
  show "wanted ?b' = wanted b"
    by (rule wanted_cong) (auto simp: subscribe_query_old [OF Some] Some)
  show "bc_outgoing ?b' = bc_outgoing b" unfolding subscribe_query_old [OF Some] by simp
qed

text \<open>
  \<open>C26\<close>: one server subscription per query. With a serializer that quotes as JSON does, two live
  query identifiers never have the same path and arguments, and \<open>subscribe\<close> returns a fresh
  subscriber of the query asked for: when a query with this canonical path and these arguments is
  live its identifier is shared and nothing is sent; otherwise the query gets the next identifier
  and one ModifyQuerySet that adds it is queued.
\<close>

theorem subscribe_spec:
  assumes run: "session_runs L sid ops" and lib: "\<forall>j t. jl_dump L j = Inr t \<longrightarrow> well_quoted t"
    and ser: "serialize_args L args = Inr a"
  defines "b \<equiv> ss_client (session_run L sid ops)"
  shows "\<exists>b' i. subscribe L p args b = (b', Inr (Subscriber_id i (bc_next_subscription_index b)))
    \<and> wanted b' i = Some (canonicalize_udf_path p, a)
    \<and> (\<forall>j. wanted b' j = Some (canonicalize_udf_path p, a) \<longrightarrow> j = i)
    \<and> (if wanted b i = Some (canonicalize_udf_path p, a)
       then wanted b' = wanted b \<and> bc_outgoing b' = bc_outgoing b
       else i = bc_next_query_id b \<and> wanted b' = (wanted b)(i \<mapsto> (canonicalize_udf_path p, a))
         \<and> (\<forall>j. wanted b j \<noteq> Some (canonicalize_udf_path p, a))
         \<and> bc_outgoing b' = bc_outgoing b @ [CM_modify_query_set \<lparr>mq_base_version = bc_query_set_version b,
              mq_new_version = bc_query_set_version b + 1, mq_modifications = [QS_add \<lparr>qa_id = i,
                qa_udf_path = canonicalize_udf_path p, qa_args_json = a, qa_journal = None,
                qa_component_path = None\<rparr>]\<rparr>])"
proof -
  let ?p = "canonicalize_udf_path p"
  have inv: "bc_inv b" unfolding b_def by (rule session_run_client [OF run])
  then have ok: "queries_ok b" by (simp add: bc_inv_def)
  have "wanted_quoted (new_session sid)"
    by (simp add: wanted_quoted_def new_session_def new_base_client_def wanted_def)
  then have quoted: "\<forall>j p' a'. wanted b j = Some (p', a') \<longrightarrow> well_quoted a'"
    using wanted_quoted_run [OF lib session_inv_new] run
    unfolding b_def session_runs_def session_run_def wanted_quoted_def by blast
  have wa: "well_quoted a" by (rule serialize_args_quoted [OF lib ser])
  show ?thesis
  proof (cases "map_of (bc_query_set b) (query_token ?p a)")
    case None
    let ?i = "bc_next_query_id b"
    obtain b' where b': "subscribe L p args b = (b', Inr (Subscriber_id ?i (bc_next_subscription_index b)))"
        "wanted b' = (wanted b)(?i \<mapsto> (?p, a))" "\<And>j. wanted b j \<noteq> Some (?p, a)"
        "bc_outgoing b' = bc_outgoing b @ [CM_modify_query_set \<lparr>mq_base_version = bc_query_set_version b,
          mq_new_version = bc_query_set_version b + 1, mq_modifications = [QS_add \<lparr>qa_id = ?i,
            qa_udf_path = ?p, qa_args_json = a, qa_journal = None, qa_component_path = None\<rparr>]\<rparr>]"
      using subscribe_fresh [OF ok ser None] by blast
    then show ?thesis by (intro exI [of _ b'] exI [of _ ?i]) simp
  next
    case (Some q)
    obtain b' where b': "subscribe L p args b = (b', Inr (Subscriber_id (lq_id q) (bc_next_subscription_index b)))"
        "wanted b' = wanted b" "bc_outgoing b' = bc_outgoing b" "\<And>j. wanted b j = Some (?p, a) \<longleftrightarrow> j = lq_id q"
      using subscribe_live [OF ok ser Some quoted wa] by blast
    then show ?thesis by (intro exI [of _ b'] exI [of _ "lq_id q"]) simp
  qed
qed

lemma subscribe_spec_witness:
  "\<exists>b'. subscribe demo_lib ''messages:list'' [] (ss_client (session_run demo_lib ''s'' demo_ops)) =
     (b', Inr (Subscriber_id 0 2)) \<and> bc_outgoing b' = bc_outgoing (ss_client (session_run demo_lib ''s'' demo_ops))"
proof -
  let ?b = "ss_client (session_run demo_lib ''s'' demo_ops)"
  have lib: "\<forall>j t. jl_dump demo_lib j = Inr t \<longrightarrow> well_quoted t"
    by (simp add: demo_lib_def well_quoted_def)
  have ser: "serialize_args demo_lib [] = Inr ''[{}]''" by code_simp
  have canon: "canonicalize_udf_path ''messages:list'' = ''messages:list''" by code_simp
  have live: "wanted ?b 0 = Some (''messages:list'', ''[{}]'')" "bc_next_subscription_index ?b = 2"
    "bc_next_query_id ?b = 1" by code_simp+
  obtain b' i where b': "subscribe demo_lib ''messages:list'' [] ?b = (b', Inr (Subscriber_id i 2))"
    "if wanted ?b i = Some (''messages:list'', ''[{}]'')
     then wanted b' = wanted ?b \<and> bc_outgoing b' = bc_outgoing ?b
     else \<forall>j. wanted ?b j \<noteq> Some (''messages:list'', ''[{}]'')"
    "\<forall>j. wanted b' j = Some (''messages:list'', ''[{}]'') \<longrightarrow> j = i"
    using subscribe_spec [OF demo_runs(1) lib ser, of "''messages:list''"]
    unfolding canon live(2) by (meson)
  have "wanted ?b i = Some (''messages:list'', ''[{}]'')"
  proof (rule ccontr)
    assume "wanted ?b i \<noteq> Some (''messages:list'', ''[{}]'')"
    with b'(2) have "wanted ?b 0 \<noteq> Some (''messages:list'', ''[{}]'')" by (simp only: if_False)
    with live(1) show False by simp
  qed
  then have same: "wanted b' = wanted ?b" "bc_outgoing b' = bc_outgoing ?b" using b'(2) by simp_all
  with b'(3) live(1) have "i = 0" by metis
  with b'(1) same show ?thesis by blast
qed

text \<open>The subscriber just returned, dropped again: of a query it was the first one of, and of a shared one.\<close>

lemma unsubscribe_fresh:
  fixes n :: "64 word"
  assumes ok: "queries_ok b" and None: "map_of (bc_query_set b) (query_token p a) = None"
    and free: "bc_next_query_id b + 1 \<noteq> 0"
  defines "b2 \<equiv> unsubscribe (Subscriber_id (bc_next_query_id b) n) (fst (subscribe_query p a b))"
  shows "bc_query_set b2 = bc_query_set b \<and> bc_id_to_token b2 = bc_id_to_token b \<and> wanted b2 = wanted b"
proof -
  let ?t = "query_token p a" and ?i = "bc_next_query_id b" and ?b1 = "fst (subscribe_query p a b)"
  note wf = queries_okD(1,2) [OF ok]
  have i: "map_of (bc_id_to_token b) ?i = None" by (rule fresh_query_id [OF ok])
  have tok: "map_of (bc_id_to_token ?b1) ?i = Some ?t"
    "\<exists>q. map_of (bc_query_set ?b1) ?t = Some q \<and> lq_num_subscribers q = 1"
    by (simp_all add: subscribe_query_new [OF ok None] new_query_def)
  then have un: "b2 = push_outgoing (CM_modify_query_set \<lparr>mq_base_version = bc_query_set_version ?b1,
        mq_new_version = bc_query_set_version ?b1 + 1, mq_modifications = [QS_remove ?i]\<rparr>) (drop_query ?i ?t ?b1)"
    unfolding b2_def using unsubscribe_last [of ?b1 "Subscriber_id ?i n" ?t] by auto
  have "om_erase ?t (om_insert ?t x (bc_query_set b)) = bc_query_set b" for x
    using om.erase_emplace_fresh [OF wf(1) None] None by (simp add: om_emplace_fresh)
  moreover have "om_erase ?i (om_insert ?i x (bc_id_to_token b)) = bc_id_to_token b" for x
    using om.erase_emplace_fresh [OF wf(2) i] i by (simp add: om_emplace_fresh)
  ultimately have restored: "bc_query_set (drop_query ?i ?t ?b1) = bc_query_set b"
    "bc_id_to_token (drop_query ?i ?t ?b1) = bc_id_to_token b"
    by (simp_all add: drop_query_def subscribe_query_new [OF ok None] new_query_def)
  moreover have "wanted (drop_query ?i ?t ?b1) = wanted b" by (rule wanted_cong) (simp_all add: restored)
  ultimately show ?thesis using un by simp
qed

lemma unsubscribe_again:
  fixes n :: "64 word"
  assumes ok: "queries_ok b" and Some: "map_of (bc_query_set b) (query_token p a) = Some q"
    and count: "lq_num_subscribers q + 1 \<noteq> 0"
  defines "b2 \<equiv> unsubscribe (Subscriber_id (lq_id q) n) (fst (subscribe_query p a b))"
  shows "bc_query_set b2 = bc_query_set b \<and> bc_id_to_token b2 = bc_id_to_token b \<and> wanted b2 = wanted b
    \<and> bc_outgoing b2 = bc_outgoing b"
proof -
  let ?t = "query_token p a" and ?b1 = "fst (subscribe_query p a b)"
  let ?q = "q\<lparr>lq_num_subscribers := lq_num_subscribers q + 1\<rparr>"
  note wf = queries_okD(1,2) [OF ok]
  have "map_of (bc_id_to_token b) (lq_id q) = Some ?t" by (rule queries_okD(4) [OF ok Some])
  then have "map_of (bc_id_to_token ?b1) (lq_id q) = Some ?t" "map_of (bc_query_set ?b1) ?t = Some ?q"
    by (simp_all add: subscribe_query_old [OF Some])
  moreover have "lq_num_subscribers ?q \<noteq> 1" using queries_okD(6) [OF ok Some] by simp
  ultimately have un: "b2 = ?b1\<lparr>bc_query_set :=
      om_insert ?t (?q\<lparr>lq_num_subscribers := lq_num_subscribers ?q - 1\<rparr>) (bc_query_set ?b1)\<rparr>"
    unfolding b2_def using unsubscribe_shared [of ?b1 "Subscriber_id (lq_id q) n" ?t ?q] by simp
  have "om_insert ?t q (om_insert ?t ?q (bc_query_set b)) = om_insert ?t q (bc_query_set b)"
    by (rule om.assign_assign [OF wf(1)])
  also have "\<dots> = bc_query_set b" by (rule om_wf_ext) (use wf Some in auto)
  finally have restored: "bc_query_set b2 = bc_query_set b" "bc_id_to_token b2 = bc_id_to_token b"
    "bc_outgoing b2 = bc_outgoing b"
    unfolding un by (simp_all add: subscribe_query_old [OF Some])
  moreover have "wanted b2 = wanted b" by (rule wanted_cong) (simp_all add: restored)
  ultimately show ?thesis by simp
qed

text \<open>
  Unsubscribing undoes subscribing. Dropping the subscriber that \<open>subscribe\<close> just returned
  gives back the query set, with its subscriber counts and journals, the index of tokens and what
  the server is asked to hold; a query that had other subscribers is not touched on the server.
\<close>

theorem subscribe_unsubscribe:
  assumes run: "session_runs L sid ops" and en: "session_ok (session_run L sid ops) (Subscribe p args)"
    and ser: "serialize_args L args = Inr a"
  defines "b \<equiv> ss_client (session_run L sid ops)"
  shows "\<exists>b1 sub. subscribe L p args b = (b1, Inr sub)
    \<and> bc_query_set (unsubscribe sub b1) = bc_query_set b
    \<and> bc_id_to_token (unsubscribe sub b1) = bc_id_to_token b
    \<and> wanted (unsubscribe sub b1) = wanted b
    \<and> (wanted b (si_query sub) \<noteq> None \<longrightarrow> bc_outgoing (unsubscribe sub b1) = bc_outgoing b)"
proof -
  let ?p = "canonicalize_udf_path p" and ?t = "query_token (canonicalize_udf_path p) a"
  have inv: "bc_inv b" unfolding b_def by (rule session_run_client [OF run])
  then have ok: "queries_ok b" by (simp add: bc_inv_def)
  have free: "bc_next_query_id b + 1 \<noteq> 0"
    and count: "map_of (bc_query_set b) t = Some q \<Longrightarrow> lq_num_subscribers q + 1 \<noteq> 0" for t q
    using en subscribe_okD [of b] by (simp_all add: b_def)
  note sub = subscribe_Inr [OF ser]
  show ?thesis
  proof (cases "map_of (bc_query_set b) ?t")
    case None
    then show ?thesis
      using unsubscribe_fresh [OF ok None free] wanted_fresh [OF ok]
      by (simp add: sub) (simp add: subscribe_query_new [OF ok None])
  next
    case (Some q)
    then show ?thesis
      using unsubscribe_again [OF ok Some count [OF Some]]
      by (simp add: sub) (simp add: subscribe_query_old [OF Some])
  qed
qed

lemma subscribe_unsubscribe_witness:
  "\<exists>b1 sub. subscribe demo_lib ''users'' [] (ss_client (session_run demo_lib ''s'' demo_ops)) = (b1, Inr sub)
    \<and> wanted (unsubscribe sub b1) = wanted (ss_client (session_run demo_lib ''s'' demo_ops))"
proof -
  have "serialize_args demo_lib [] = Inr ''[{}]''" by code_simp
  moreover have "session_ok (session_run demo_lib ''s'' demo_ops) (Subscribe ''users'' [])" by code_simp
  ultimately show ?thesis using subscribe_unsubscribe [OF demo_runs(1)] by blast
qed

subsection \<open>Timestamps\<close>

definition observed :: "session \<Rightarrow> timestamp" where
  "observed s = (case bc_max_observed_timestamp (ss_client s) of None \<Rightarrow> 0 | Some ts \<Rightarrow> ts)"

lemma receive_message_observed:
  assumes inv: "bc_inv b" and r: "receive_message m b = Inr (b', out)"
  shows "bc_max_observed_timestamp b' = bc_max_observed_timestamp b
    \<or> (\<exists>ts. bc_max_observed_timestamp b' = bc_max_observed_timestamp (observe_timestamp ts b))"
proof (cases m)
  case (SV_transition t)
  then show ?thesis
    using r handle_transition_eq [OF inv]
    by (cases "tr_start_version t = bc_remote_version b")
       (auto simp: handle_transition_def advance_def observe_timestamp_max)
next
  case (SV_mutation_response mr)
  show ?thesis
  proof (cases "map_of (bc_ongoing_requests b) (mr_id mr)")
    case None
    then show ?thesis using r by (simp add: SV_mutation_response handle_mutation_response_def)
  next
    case (Some req)
    show ?thesis
    proof (cases "fr_ok (mr_result mr) \<and> mr_ts mr \<noteq> None")
      case True
      then obtain ts where ts: "mr_ts mr = Some ts" "fr_ok (mr_result mr)" by auto
      show ?thesis
        using r handle_mutation_response_held [OF inv Some ts(2,1)]
        by (auto simp: SV_mutation_response complete_request_def hold_result_def observe_timestamp_max
            split: if_splits)
    next
      case False
      then show ?thesis
        using r handle_mutation_response_done [OF Some] by (auto simp: SV_mutation_response complete_request_def)
    qed
  qed
next
  case (SV_action_response a)
  then show ?thesis
    using r by (auto simp: handle_action_response_def complete_request_def split: option.splits)
qed (use r in auto)

lemma observed_step:
  assumes inv: "session_inv s"
  shows "observed s \<le> observed (session_step L s op)"
proof (cases op)
  case (Receive m)
  have b: "bc_inv (ss_client s)" using inv by (simp add: session_inv_def)
  obtain b' out where r: "receive_message m (ss_client s) = Inr (b', out)"
    using receive_message_inv [OF b, of m] by blast
  show ?thesis
    using receive_message_observed [OF b r]
    by (auto simp: Receive r observed_def observe_timestamp_max max_def split: option.splits)
qed (auto simp: observed_def subscribe_def subscribe_query_def Let_def unsubscribe_def request_step_def
      mutation_def action_def enqueue_request_def set_auth_def pop_next_message_def restart_eq
      make_connect_message_def split: sum.split option.split list.split)

text \<open>
  The largest observed timestamp only grows, over reconnects too, and covers the version the
  client is at and every success it holds, so the timestamp a Connect message reports is never
  behind anything the client has seen.
\<close>

theorem observed_monotone:
  assumes "session_runs L sid (ops @ later)"
  defines "s \<equiv> session_run L sid ops" and "s' \<equiv> session_run L sid (ops @ later)"
  shows "observed s \<le> observed s' \<and> sv_ts (bc_remote_version (ss_client s')) \<le> observed s'
    \<and> (\<forall>(rid, req) \<in> set (bc_ongoing_requests (ss_client s')). pr_completed req \<longrightarrow>
         (\<exists>ts. pr_ts req = Some ts \<and> ts \<le> observed s'))"
proof -
  have split: "session_runs L sid ops" "ok_run (session_step L) session_ok s later"
    "s' = run (session_step L) s later"
    using assms(1) by (simp_all add: session_runs_def ok_run_append s_def s'_def session_run_def run_append)
  have inv: "session_inv s" unfolding s_def by (rule session_run_inv [OF split(1)])
  have "observed s \<le> observed s'"
    unfolding split(3) by (rule ss.run_mono [OF _ inv split(2)]) (rule observed_step)
  moreover have b: "bc_inv (ss_client s')"
    unfolding s'_def by (rule session_run_client [OF assms(1)])
  then have "sv_ts (bc_remote_version (ss_client s')) \<le> observed s'"
    by (auto simp: bc_inv_def observed_ok_def observed_def)
  moreover have "\<exists>ts. pr_ts req = Some ts \<and> ts \<le> observed s'"
    if "(rid, req) \<in> set (bc_ongoing_requests (ss_client s'))" "pr_completed req" for rid req
    using requests_entry [OF b that(1)] that(2) by (auto simp: request_ok_def observed_def)
  ultimately show ?thesis by blast
qed

lemma observed_monotone_witness:
  "observed (session_run demo_lib ''s'' demo_ops) \<le> observed (session_run demo_lib ''s'' demo_lost)
   \<and> observed (session_run demo_lib ''s'' demo_lost) = 9"
proof -
  have "observed (session_run demo_lib ''s'' demo_lost) = 9" by code_simp
  then show ?thesis
    using observed_monotone [of demo_lib "''s''" demo_ops] demo_runs(2) unfolding demo_lost_def by blast
qed

end
