(* ===== verification/Protocol.thy ===== *)
theory Protocol
  imports Messages
begin

section \<open>Encoding and decoding messages (\<open>src/protocol.cpp\<close>)\<close>

text \<open>
  Client messages to JSON documents and JSON documents to server messages, with every error of
  the decoder. The errors of the decoder are \<open>protocol_error\<close>s, but not all of them: the
  payload of a failed query, mutation or action is decoded outside the \<open>try\<close> blocks that turn
  a \<open>codec_error\<close> into a \<open>protocol_error\<close>, so it escapes as it is.
\<close>

definition quoted :: "string \<Rightarrow> string" where
  "quoted s = CHR 0x27 # s @ [CHR 0x27]"

definition parse_or_throw :: "json_lib \<Rightarrow> string \<Rightarrow> string \<Rightarrow> json result" where
  "parse_or_throw L t what =
     (case jl_parse L t of
        Inl e \<Rightarrow> Inl (Protocol_error (what @ '': invalid JSON: '' @ exn_what e))
      | Inr j \<Rightarrow> Inr j)"

definition args_dom :: "json_lib \<Rightarrow> string \<Rightarrow> json result" where
  "args_dom L args_json = parse_or_throw L args_json ''args''"

subsection \<open>Field access\<close>

definition require :: "json \<Rightarrow> string \<Rightarrow> string \<Rightarrow> json result" where
  "require j field message_type =
     (case json_find j field of
        None \<Rightarrow> Inl (Protocol_error (message_type @ '': missing field '' @ quoted field))
      | Some f \<Rightarrow> Inr f)"

text \<open>
  \<open>get<std::uint32_t>()\<close> of an integer is a \<open>static_cast\<close>: the low 32 bits, with no range
  check.
\<close>

definition require_u32 :: "json \<Rightarrow> string \<Rightarrow> string \<Rightarrow> 32 word result" where
  "require_u32 j field message_type =
     bindr (require j field message_type) (\<lambda>f.
       case f of
         JInt i \<Rightarrow> Inr (ucast i)
       | JUInt i \<Rightarrow> Inr (ucast i)
       | _ \<Rightarrow> Inl (Protocol_error (message_type @ '': field '' @ quoted field @ '' is not an integer'')))"

definition require_string :: "json \<Rightarrow> string \<Rightarrow> string \<Rightarrow> string result" where
  "require_string j field message_type =
     bindr (require j field message_type) (\<lambda>f.
       case json_string f of
         Some s \<Rightarrow> Inr s
       | None \<Rightarrow> Inl (Protocol_error (message_type @ '': field '' @ quoted field @ '' is not a string'')))"

definition decode_timestamp :: "json \<Rightarrow> string \<Rightarrow> timestamp result" where
  "decode_timestamp f message_type =
     (case json_string f of
        None \<Rightarrow> Inl (Protocol_error (message_type @ '': timestamp is not a string''))
      | Some s \<Rightarrow> catch_codec (le_base64_to_uint64 s)
                   (\<lambda>w. Protocol_error (message_type @ '': bad timestamp: '' @ w)))"

definition decode_log_lines :: "json \<Rightarrow> string \<Rightarrow> string list result" where
  "decode_log_lines j message_type =
     (case json_find j ''logLines'' of
        None \<Rightarrow> Inr []
      | Some (JArray ls) \<Rightarrow> Inr (List.map_filter json_string ls)
      | Some _ \<Rightarrow> Inl (Protocol_error (message_type @ '': logLines is not an array'')))"

definition optional_journal :: "json \<Rightarrow> string option result" where
  "optional_journal j =
     (case json_find j ''journal'' of
        None \<Rightarrow> Inr None
      | Some JNull \<Rightarrow> Inr None
      | Some (JString s) \<Rightarrow> Inr (Some s)
      | Some _ \<Rightarrow> Inl (Protocol_error ''journal is not a string''))"

definition decode_state_version :: "json \<Rightarrow> string \<Rightarrow> state_version result" where
  "decode_state_version j message_type =
     bindr (require_u32 j ''querySet'' message_type) (\<lambda>q.
     bindr (require_u32 j ''identity'' message_type) (\<lambda>i.
     bindr (require j ''ts'' message_type) (\<lambda>f.
     bindr (decode_timestamp f message_type) (\<lambda>t.
       Inr \<lparr>sv_query_set = q, sv_identity = i, sv_ts = t\<rparr>))))"

subsection \<open>Encoding client messages\<close>

text \<open>A JSON object from an initializer list, and \<open>j[key] = v\<close>.\<close>

definition json_obj :: "(string \<times> json) list \<Rightarrow> (string, json) omap" where
  "json_obj kvs = fold (\<lambda>(k, v) m. om_insert k v m) kvs []"

definition set_opt :: "string \<Rightarrow> json option \<Rightarrow> (string, json) omap \<Rightarrow> (string, json) omap" where
  "set_opt k v m = (case v of None \<Rightarrow> m | Some j \<Rightarrow> om_insert k j m)"

definition j_u32 :: "32 word \<Rightarrow> json" where
  "j_u32 n = JUInt (ucast n)"

definition encode_auth :: "authenticate_message \<Rightarrow> json result" where
  "encode_auth m =
     (let j = json_obj [(''type'', JString ''Authenticate''), (''baseVersion'', j_u32 (am_base_version m))];
          tok = am_token m
      in case at_type tok of
           Auth_none \<Rightarrow> Inr (JObject (om_insert ''tokenType'' (JString ''None'') j))
         | Auth_user \<Rightarrow> Inr (JObject (om_insert ''value'' (JString (at_value tok))
             (om_insert ''tokenType'' (JString ''User'') j)))
         | Auth_admin \<Rightarrow>
             (let j' = om_insert ''value'' (JString (at_value tok))
                         (om_insert ''tokenType'' (JString ''Admin'') j)
              in case at_acting_as tok of
                   None \<Rightarrow> Inr (JObject j')
                 | Some attrs \<Rightarrow> bindr (value_to_json (VObject attrs)) (\<lambda>a.
                     Inr (JObject (om_insert ''impersonating'' a j')))))"

definition encode_connect :: "connect_message \<Rightarrow> json" where
  "encode_connect m =
     JObject (set_opt ''clientTs'' (map_option JUInt (cm_client_ts m))
       (set_opt ''maxObservedTimestamp''
          (map_option (\<lambda>t. JString (uint64_to_le_base64 t)) (cm_max_observed_timestamp m))
          (json_obj [(''type'', JString ''Connect''), (''sessionId'', JString (cm_session_id m)),
             (''connectionCount'', j_u32 (cm_connection_count m)),
             (''lastCloseReason'', JString (cm_last_close_reason m))])))"

fun encode_modification :: "json_lib \<Rightarrow> query_set_modification \<Rightarrow> json result" where
  "encode_modification L (QS_add a) =
     bindr (args_dom L (qa_args_json a)) (\<lambda>args.
       Inr (JObject (set_opt ''componentPath'' (map_option JString (qa_component_path a))
         (set_opt ''journal'' (map_option JString (qa_journal a))
           (json_obj [(''type'', JString ''Add''), (''queryId'', j_u32 (qa_id a)),
              (''udfPath'', JString (qa_udf_path a)), (''args'', args)])))))"
| "encode_modification L (QS_remove i) =
     Inr (JObject (json_obj [(''type'', JString ''Remove''), (''queryId'', j_u32 i)]))"

fun encode_modifications :: "json_lib \<Rightarrow> query_set_modification list \<Rightarrow> json list result" where
  "encode_modifications L [] = Inr []"
| "encode_modifications L (m # ms) =
     bindr (encode_modification L m) (\<lambda>j.
     bindr (encode_modifications L ms) (\<lambda>js. Inr (j # js)))"

definition encode_modify_query_set :: "json_lib \<Rightarrow> modify_query_set_message \<Rightarrow> json result" where
  "encode_modify_query_set L m =
     bindr (encode_modifications L (mq_modifications m)) (\<lambda>mods.
       Inr (JObject (json_obj [(''type'', JString ''ModifyQuerySet''),
         (''baseVersion'', j_u32 (mq_base_version m)), (''newVersion'', j_u32 (mq_new_version m)),
         (''modifications'', JArray mods)])))"

definition encode_request :: "json_lib \<Rightarrow> string \<Rightarrow> request_message \<Rightarrow> json result" where
  "encode_request L type m =
     bindr (args_dom L (rq_args_json m)) (\<lambda>args.
       Inr (JObject (set_opt ''componentPath'' (map_option JString (rq_component_path m))
         (json_obj [(''type'', JString type), (''requestId'', j_u32 (rq_id m)),
            (''udfPath'', JString (rq_udf_path m)), (''args'', args)]))))"

fun client_encoder :: "json_lib \<Rightarrow> client_message \<Rightarrow> json result" where
  "client_encoder L (CM_connect m) = Inr (encode_connect m)"
| "client_encoder L (CM_authenticate m) = encode_auth m"
| "client_encoder L (CM_modify_query_set m) = encode_modify_query_set L m"
| "client_encoder L (CM_mutation m) = encode_request L ''Mutation'' m"
| "client_encoder L (CM_action m) = encode_request L ''Action'' m"

definition encode_client_message :: "json_lib \<Rightarrow> client_message \<Rightarrow> string result" where
  "encode_client_message L m = bindr (client_encoder L m) (jl_dump L)"

subsection \<open>Decoding server messages\<close>

text \<open>\<open>find("errorData")\<close> present and not null: the payload of a \<open>ConvexError\<close>.\<close>

definition decode_error_data :: "json \<Rightarrow> convex_value option result" where
  "decode_error_data j =
     (case json_find j ''errorData'' of
        None \<Rightarrow> Inr None
      | Some JNull \<Rightarrow> Inr None
      | Some d \<Rightarrow> bindr (json_to_value d) (\<lambda>v. Inr (Some v)))"

definition decode_query_updated :: "json \<Rightarrow> state_modification result" where
  "decode_query_updated j =
     bindr (require_u32 j ''queryId'' ''QueryUpdated'') (\<lambda>i.
     bindr (catch_codec (bindr (require j ''value'' ''QueryUpdated'') json_to_value)
              (\<lambda>w. Protocol_error (''QueryUpdated: bad value: '' @ w))) (\<lambda>v.
     bindr (decode_log_lines j ''QueryUpdated'') (\<lambda>ls.
     bindr (optional_journal j) (\<lambda>jn.
       Inr (SM_updated \<lparr>qu_id = i, qu_result = v, qu_log_lines = ls, qu_journal = jn\<rparr>)))))"

definition decode_query_failed :: "json \<Rightarrow> state_modification result" where
  "decode_query_failed j =
     bindr (require_u32 j ''queryId'' ''QueryFailed'') (\<lambda>i.
     bindr (require_string j ''errorMessage'' ''QueryFailed'') (\<lambda>msg.
     bindr (decode_error_data j) (\<lambda>d.
     bindr (decode_log_lines j ''QueryFailed'') (\<lambda>ls.
     bindr (optional_journal j) (\<lambda>jn.
       Inr (SM_failed \<lparr>qf_id = i, qf_error_message = msg, qf_error_data = d,
              qf_log_lines = ls, qf_journal = jn\<rparr>))))))"

definition decode_modification :: "json \<Rightarrow> state_modification result" where
  "decode_modification j =
     bindr (require_string j ''type'' ''Transition modification'') (\<lambda>mod_type.
       if mod_type = ''QueryUpdated'' then decode_query_updated j
       else if mod_type = ''QueryFailed'' then decode_query_failed j
       else if mod_type = ''QueryRemoved'' then
         bindr (require_u32 j ''queryId'' ''QueryRemoved'') (\<lambda>i. Inr (SM_removed i))
       else Inl (Protocol_error (''Transition: unknown modification type '' @ quoted mod_type)))"

fun decode_modifications :: "json list \<Rightarrow> state_modification list result" where
  "decode_modifications [] = Inr []"
| "decode_modifications (j # js) =
     bindr (decode_modification j) (\<lambda>m. bindr (decode_modifications js) (\<lambda>ms. Inr (m # ms)))"

definition decode_transition :: "json \<Rightarrow> transition_message result" where
  "decode_transition j =
     bindr (bindr (require j ''startVersion'' ''Transition'')
              (\<lambda>s. decode_state_version s ''Transition'')) (\<lambda>start.
     bindr (bindr (require j ''endVersion'' ''Transition'')
              (\<lambda>s. decode_state_version s ''Transition'')) (\<lambda>fin.
     bindr (require j ''modifications'' ''Transition'') (\<lambda>mods.
     case mods of
       JArray ms \<Rightarrow> bindr (decode_modifications ms) (\<lambda>ds.
         Inr \<lparr>tr_start_version = start, tr_end_version = fin, tr_modifications = ds\<rparr>)
     | _ \<Rightarrow> Inl (Protocol_error ''Transition: modifications is not an array''))))"

definition decode_function_result :: "json \<Rightarrow> string \<Rightarrow> function_result result" where
  "decode_function_result j message_type =
     bindr (require j ''success'' message_type) (\<lambda>success.
     case json_bool success of
       None \<Rightarrow> Inl (Protocol_error (message_type @ '': success is not a boolean''))
     | Some ok \<Rightarrow>
         bindr (require j ''result'' message_type) (\<lambda>res.
         if ok then
           bindr (catch_codec (json_to_value res)
                    (\<lambda>w. Protocol_error (message_type @ '': bad result value: '' @ w)))
             (\<lambda>v. Inr (FR_success v))
         else
           (case json_string res of
              None \<Rightarrow> Inl (Protocol_error (message_type @ '': failure result is not an error string''))
            | Some msg \<Rightarrow>
                bindr (decode_error_data j) (\<lambda>d.
                  Inr (case d of
                         Some v \<Rightarrow> FR_app_error \<lparr>ce_message = msg, ce_data = v\<rparr>
                       | None \<Rightarrow> FR_error msg)))))"

definition decode_mutation_response :: "json \<Rightarrow> mutation_response_message result" where
  "decode_mutation_response j =
     bindr (require_u32 j ''requestId'' ''MutationResponse'') (\<lambda>i.
     bindr (decode_function_result j ''MutationResponse'') (\<lambda>r.
     bindr (case json_find j ''ts'' of
              None \<Rightarrow> Inr None
            | Some JNull \<Rightarrow> Inr None
            | Some f \<Rightarrow> bindr (decode_timestamp f ''MutationResponse'') (\<lambda>t. Inr (Some t))) (\<lambda>t.
     bindr (decode_log_lines j ''MutationResponse'') (\<lambda>ls.
       Inr \<lparr>mr_id = i, mr_result = r, mr_ts = t, mr_log_lines = ls\<rparr>))))"

definition decode_action_response :: "json \<Rightarrow> action_response_message result" where
  "decode_action_response j =
     bindr (require_u32 j ''requestId'' ''ActionResponse'') (\<lambda>i.
     bindr (decode_function_result j ''ActionResponse'') (\<lambda>r.
     bindr (decode_log_lines j ''ActionResponse'') (\<lambda>ls.
       Inr \<lparr>ar_id = i, ar_result = r, ar_log_lines = ls\<rparr>)))"

text \<open>
  \<open>get<std::uint32_t>()\<close> of a floating-point number truncates; out of the range of the result
  the conversion has no defined meaning (\<open>None\<close>).
\<close>

definition f64_to_u32 :: "float64 \<Rightarrow> 32 word option" where
  "f64_to_u32 d =
     (let e = unat (f64_exponent d)
      in if e < 1023 then Some 0
         else if f64_signbit d \<or> 1055 \<le> e then None
         else Some (ucast (drop_bit (1075 - e) (0x10000000000000 + f64_mantissa d))))"

definition decode_auth_error :: "json \<Rightarrow> auth_error_message result" where
  "decode_auth_error j =
     bindr (require_string j ''error'' ''AuthError'') (\<lambda>err.
     bindr (case json_find j ''baseVersion'' of
              Some (JInt i) \<Rightarrow> Inr (Some (ucast i))
            | Some (JUInt i) \<Rightarrow> Inr (Some (ucast i))
            | Some (JFloat d) \<Rightarrow>
                (case f64_to_u32 d of
                   None \<Rightarrow> Inl (Undefined_behaviour ''AuthError: baseVersion out of range'')
                 | Some n \<Rightarrow> Inr (Some n))
            | _ \<Rightarrow> Inr None) (\<lambda>base.
       Inr \<lparr>ae_error = err, ae_base_version = base,
            ae_auth_update_attempted =
              (case Option.bind (json_find j ''authUpdateAttempted'') json_bool of
                 Some b \<Rightarrow> b | None \<Rightarrow> False)\<rparr>))"

definition decode_chunk :: "json \<Rightarrow> transition_chunk_message result" where
  "decode_chunk j =
     bindr (require_string j ''chunk'' ''TransitionChunk'') (\<lambda>c.
     bindr (require_u32 j ''partNumber'' ''TransitionChunk'') (\<lambda>n.
     bindr (require_u32 j ''totalParts'' ''TransitionChunk'') (\<lambda>t.
     bindr (require_string j ''transitionId'' ''TransitionChunk'') (\<lambda>i.
       Inr \<lparr>tc_chunk = c, tc_part_number = n, tc_total_parts = t, tc_transition_id = i\<rparr>))))"

definition decode_server_json :: "json \<Rightarrow> server_message result" where
  "decode_server_json j =
     (case j of
        JObject _ \<Rightarrow>
          bindr (require_string j ''type'' ''server message'') (\<lambda>type.
            if type = ''Transition'' then bindr (decode_transition j) (\<lambda>t. Inr (SV_transition t))
            else if type = ''MutationResponse'' then
              bindr (decode_mutation_response j) (\<lambda>m. Inr (SV_mutation_response m))
            else if type = ''ActionResponse'' then
              bindr (decode_action_response j) (\<lambda>a. Inr (SV_action_response a))
            else if type = ''AuthError'' then
              bindr (decode_auth_error j) (\<lambda>e. Inr (SV_auth_error e))
            else if type = ''FatalError'' then
              bindr (require_string j ''error'' ''FatalError'') (\<lambda>e. Inr (SV_fatal_error e))
            else if type = ''Ping'' then Inr SV_ping
            else if type = ''TransitionChunk'' then
              bindr (decode_chunk j) (\<lambda>c. Inr (SV_transition_chunk c))
            else Inl (Protocol_error (''unsupported server message type '' @ quoted type)))
      | _ \<Rightarrow> Inl (Protocol_error ''server message is not an object''))"

definition decode_server_message :: "json_lib \<Rightarrow> string \<Rightarrow> server_message result" where
  "decode_server_message L t =
     bindr (parse_or_throw L t ''server message'') decode_server_json"

subsection \<open>The errors of the decoder\<close>

lemma le_base64_error:
  "le_base64_to_int64 s = Inl e \<Longrightarrow> \<exists>m. e = Codec_error m"
  "le_base64_to_uint64 s = Inl e \<Longrightarrow> \<exists>m. e = Codec_error m"
  "le_base64_to_double s = Inl e \<Longrightarrow> \<exists>m. e = Codec_error m"
  "decode_b64 w s = Inl e \<Longrightarrow> \<exists>m. e = Codec_error m"
proof -
  have b64: "\<exists>m. e = Codec_error m" if "decode_b64 w s = Inl e" for w e
  proof (cases "base64_decode s")
    case (Inl e')
    then obtain m where "e' = Invalid_argument m"
      by (auto simp: base64_decode_def split: if_splits dest: decode_quanta_error)
    with Inl that show ?thesis by (auto simp: decode_b64_def)
  qed (use that in \<open>simp add: decode_b64_def\<close>)
  have le: "\<exists>m. e = Codec_error m" if "from_le_bytes w bs = Inl e" for w bs e
    using that by (auto simp: from_le_bytes_def split: if_splits)
  show "le_base64_to_int64 s = Inl e \<Longrightarrow> \<exists>m. e = Codec_error m"
    "le_base64_to_uint64 s = Inl e \<Longrightarrow> \<exists>m. e = Codec_error m"
    "le_base64_to_double s = Inl e \<Longrightarrow> \<exists>m. e = Codec_error m"
    "decode_b64 w s = Inl e \<Longrightarrow> \<exists>m. e = Codec_error m"
    using b64 le by (auto simp: le_base64_to_int64_def le_base64_to_uint64_def
        le_base64_to_double_def result_simps)
qed

lemma special_object_error:
  assumes "special_object fs = Some (Inl e)"
  shows "\<exists>m. e = Codec_error m"
proof -
  obtain key it where fs: "fs = [(key, it)]"
    using assms by (cases fs; cases "tl fs") (auto simp: special_object_def)
  have payload: "\<exists>m. e = Codec_error m" if "decode_float_payload s = Inl e" for s
    using that by (auto simp: decode_float_payload_def result_simps split: if_splits dest: le_base64_error)
  consider "key = ''$integer''" | "key = ''$float''" | "key = ''$bytes''"
    | "key = ''$set'' \<or> key = ''$map''"
    using assms unfolding fs special_object_def by (auto split: if_splits)
  then show ?thesis
    using assms unfolding fs special_object_def
    by cases (auto simp: result_simps split: option.splits dest: le_base64_error payload)
qed

lemma json_to_value_error_aux:
  "json_to_value j = Inl e \<Longrightarrow> \<exists>m. e = Codec_error m"
  "array_to_value js = Inl e \<Longrightarrow> \<exists>m. e = Codec_error m"
  "object_to_value ob fs = Inl e \<Longrightarrow> \<exists>m. e = Codec_error m"
  by (induction j and js and ob fs arbitrary: e and e and e
      rule: json_to_value_array_to_value_object_to_value.induct)
    (auto simp: result_simps split: option.splits dest: special_object_error)

lemmas json_to_value_error = json_to_value_error_aux(1)

text \<open>
  A computation throws nothing but \<open>protocol_error\<close>s. The decoders that satisfy it are
  collected in \<open>protocol_only\<close>.
\<close>

definition only_protocol :: "'a result \<Rightarrow> bool" where
  "only_protocol r \<longleftrightarrow> (\<forall>e. r = Inl e \<longrightarrow> (\<exists>m. e = Protocol_error m))"

named_theorems protocol_only \<open>decoders that throw only protocol errors\<close>

lemma only_protocol_Inr [protocol_only]: "only_protocol (Inr x)"
  and only_protocol_Inl [protocol_only]: "only_protocol (Inl (Protocol_error m))"
  by (simp_all add: only_protocol_def)

lemma only_protocol_bindr:
  "only_protocol m \<Longrightarrow> (\<And>x. m = Inr x \<Longrightarrow> only_protocol (f x)) \<Longrightarrow> only_protocol (bindr m f)"
  by (cases m) (auto simp: only_protocol_def)

lemma only_protocol_catch:
  "(\<And>e. r = Inl e \<Longrightarrow> (\<exists>m. e = Codec_error m) \<or> (\<exists>m. e = Protocol_error m)) \<Longrightarrow>
     only_protocol (catch_codec r (\<lambda>w. Protocol_error (f w)))"
  by (cases "(r, \<lambda>w. Protocol_error (f w))" rule: catch_codec.cases) (auto simp: only_protocol_def)

lemma only_protocol_fields [protocol_only]:
  "only_protocol (require j f mt)" "only_protocol (require_u32 j f mt)"
  "only_protocol (require_string j f mt)" "only_protocol (decode_log_lines j mt)"
  "only_protocol (optional_journal j)" "only_protocol (decode_timestamp j mt)"
proof -
  show req: "only_protocol (require j f mt)" for j f mt
    by (simp add: require_def only_protocol_def split: option.split)
  show "only_protocol (require_u32 j f mt)" "only_protocol (require_string j f mt)"
    unfolding require_u32_def require_string_def
    by (auto intro!: only_protocol_bindr req protocol_only split: json.split option.split)
  show "only_protocol (decode_log_lines j mt)" "only_protocol (optional_journal j)"
    unfolding decode_log_lines_def optional_journal_def
    by (auto intro!: protocol_only split: json.split option.split)
  show "only_protocol (decode_timestamp j mt)"
    unfolding decode_timestamp_def
    by (auto intro!: protocol_only only_protocol_catch dest: le_base64_error split: option.split)
qed

lemma only_protocol_state_version [protocol_only]: "only_protocol (decode_state_version j mt)"
  unfolding decode_state_version_def by (intro only_protocol_bindr protocol_only)

lemma only_protocol_query_updated [protocol_only]: "only_protocol (decode_query_updated j)"
proof -
  have "(\<exists>m. e = Codec_error m) \<or> (\<exists>m. e = Protocol_error m)"
    if "bindr (require j f mt) json_to_value = Inl e" for f mt e
    using that only_protocol_fields(1) [of j f mt]
    by (auto simp: result_simps only_protocol_def dest: json_to_value_error)
  then show ?thesis
    unfolding decode_query_updated_def
    by (intro only_protocol_bindr protocol_only only_protocol_catch)
qed

text \<open>The error payloads of a message: its own, and those of its modifications.\<close>

definition own_payload :: "json \<Rightarrow> json list" where
  "own_payload j = (case json_find j ''errorData'' of None \<Rightarrow> [] | Some d \<Rightarrow> [d])"

definition error_payloads :: "json \<Rightarrow> json list" where
  "error_payloads j =
     own_payload j @
     (case json_find j ''modifications'' of Some (JArray ms) \<Rightarrow> concat (map own_payload ms) | _ \<Rightarrow> [])"

lemma decode_error_data_error:
  "decode_error_data j = Inl e \<Longrightarrow>
     \<exists>d \<in> set (own_payload j). json_to_value d = Inl e \<and> (\<exists>m. e = Codec_error m)"
  by (auto simp: decode_error_data_def own_payload_def result_simps
      split: option.splits json.splits dest: json_to_value_error_aux special_object_error)

text \<open>\<open>leaks r ds\<close>: what \<open>r\<close> throws is a protocol error or the codec error of a payload in \<open>ds\<close>.\<close>

definition leaks :: "'a result \<Rightarrow> json list \<Rightarrow> bool" where
  "leaks r ds \<longleftrightarrow> (\<forall>e. r = Inl e \<longrightarrow>
     (\<exists>m. e = Protocol_error m) \<or> (\<exists>d \<in> set ds. json_to_value d = Inl e \<and> (\<exists>m. e = Codec_error m)))"

lemma leaks_only_protocol: "only_protocol r \<Longrightarrow> leaks r ds"
  by (auto simp: leaks_def only_protocol_def)

lemma leaks_bindr: "leaks m ds \<Longrightarrow> (\<And>x. m = Inr x \<Longrightarrow> leaks (f x) ds) \<Longrightarrow> leaks (bindr m f) ds"
  by (cases m) (auto simp: leaks_def)

lemma leaks_mono: "leaks r ds \<Longrightarrow> set ds \<subseteq> set es \<Longrightarrow> leaks r es"
  unfolding leaks_def by blast

lemma leaks_error_data: "leaks (decode_error_data j) (own_payload j)"
  by (auto simp: leaks_def dest: decode_error_data_error)

lemmas leaks_intros = leaks_bindr leaks_error_data leaks_only_protocol [OF only_protocol_fields(1)]
  leaks_only_protocol [OF only_protocol_fields(2)] leaks_only_protocol [OF only_protocol_fields(3)]
  leaks_only_protocol [OF only_protocol_fields(4)] leaks_only_protocol [OF only_protocol_fields(5)]
  leaks_only_protocol [OF only_protocol_Inr] leaks_only_protocol [OF only_protocol_Inl]
  leaks_only_protocol [OF only_protocol_query_updated]

lemma leaks_modification: "leaks (decode_modification j) (own_payload j)"
  unfolding decode_modification_def decode_query_failed_def
  by (auto intro!: leaks_intros)

lemma leaks_modifications: "leaks (decode_modifications js) (concat (map own_payload js))"
proof (induction js)
  case (Cons j js)
  then show ?case
    by (auto intro!: leaks_intros intro: leaks_mono [OF leaks_modification] leaks_mono [OF Cons])
qed (simp add: leaks_intros)

lemma leaks_transition: "leaks (decode_transition j) (error_payloads j)"
proof -
  have "leaks (decode_modifications ms) (error_payloads j)"
    if "require j ''modifications'' mt = Inr (JArray ms)" for ms mt
    using that by (intro leaks_mono [OF leaks_modifications])
      (auto simp: require_def error_payloads_def split: option.splits)
  then show ?thesis
    unfolding decode_transition_def
    by (auto intro!: leaks_intros leaks_only_protocol [OF only_protocol_state_version]
        split: json.split)
qed

lemma leaks_function_result: "leaks (decode_function_result j mt) (own_payload j)"
  unfolding decode_function_result_def
  by (auto intro!: leaks_intros leaks_only_protocol [OF only_protocol_catch]
      dest!: json_to_value_error split: option.split)

lemma leaks_responses:
  "leaks (decode_mutation_response j) (own_payload j)"
  "leaks (decode_action_response j) (own_payload j)"
  unfolding decode_mutation_response_def decode_action_response_def
  by (auto intro!: leaks_intros leaks_function_result
      leaks_only_protocol [OF only_protocol_fields(6)] split: option.split json.split)

lemma own_payload_subset: "set (own_payload j) \<subseteq> set (error_payloads j)"
  by (simp add: error_payloads_def)

lemma decode_auth_error_error:
  "decode_auth_error j = Inl e \<Longrightarrow> (\<exists>m. e = Protocol_error m) \<or>
     (\<exists>m d. e = Undefined_behaviour m \<and> json_find j ''baseVersion'' = Some (JFloat d))"
  using only_protocol_fields(3) [of j "''error''" "''AuthError''"]
  by (auto simp: decode_auth_error_def result_simps only_protocol_def
      split: option.splits json.splits)

lemma decode_chunk_error: "only_protocol (decode_chunk j)"
  unfolding decode_chunk_def by (intro only_protocol_bindr protocol_only)

text \<open>What may come out of the decoder of a message.\<close>

definition decoder_error :: "json \<Rightarrow> exn \<Rightarrow> bool" where
  "decoder_error j e \<longleftrightarrow> (\<exists>m. e = Protocol_error m)
     \<or> (\<exists>d \<in> set (error_payloads j). json_to_value d = Inl e \<and> (\<exists>m. e = Codec_error m))
     \<or> (\<exists>m d. e = Undefined_behaviour m \<and> json_find j ''baseVersion'' = Some (JFloat d))"

definition throws_decoder_error :: "json \<Rightarrow> 'a result \<Rightarrow> bool" where
  "throws_decoder_error j r \<longleftrightarrow> (\<forall>e. r = Inl e \<longrightarrow> decoder_error j e)"

lemma throws_bindr:
  "throws_decoder_error j m \<Longrightarrow> (\<And>x. throws_decoder_error j (f x)) \<Longrightarrow>
     throws_decoder_error j (bindr m f)"
  by (cases m) (auto simp: throws_decoder_error_def)

lemma throws_leaks: "leaks r (error_payloads j) \<Longrightarrow> throws_decoder_error j r"
  unfolding leaks_def throws_decoder_error_def decoder_error_def by blast

lemmas throws_payload = throws_leaks [OF leaks_mono [OF _ own_payload_subset]]

lemmas throws_intros = throws_bindr throws_leaks [OF leaks_transition]
  throws_payload [OF leaks_responses(1)] throws_payload [OF leaks_responses(2)]
  throws_leaks [OF leaks_only_protocol, OF decode_chunk_error]
  throws_leaks [OF leaks_only_protocol, OF only_protocol_fields(3)]
  throws_leaks [OF leaks_only_protocol, OF only_protocol_Inr]
  throws_leaks [OF leaks_only_protocol, OF only_protocol_Inl]

lemma throws_auth_error: "throws_decoder_error j (decode_auth_error j)"
  unfolding throws_decoder_error_def decoder_error_def using decode_auth_error_error by blast

lemma throws_if:
  "throws_decoder_error j a \<Longrightarrow> throws_decoder_error j b \<Longrightarrow>
     throws_decoder_error j (if P then a else b)"
  by simp

lemma throws_server_json: "throws_decoder_error j (decode_server_json j)"
  unfolding decode_server_json_def
  by (split json.split) (intro conjI allI impI throws_intros throws_if throws_auth_error)

lemma decode_server_json_error: "decode_server_json j = Inl e \<Longrightarrow> decoder_error j e"
  using throws_server_json by (auto simp: throws_decoder_error_def)

text \<open>
  Every error of the message decoder is a \<open>protocol_error\<close>, with two exceptions: the
  \<open>codec_error\<close> of an error payload (\<open>errorData\<close>) that is not a valid value, which is
  thrown as it is, although the header promises protocol errors and the client catches
  nothing else; and a fractional or huge \<open>baseVersion\<close>, whose conversion is undefined. The
  last conjunct shows the first exception on a failed query.
\<close>

theorem decode_error_kinds:
  "(case decode_server_json j of
      Inr _ \<Rightarrow> True
    | Inl e \<Rightarrow> (\<exists>m. e = Protocol_error m)
        \<or> (\<exists>d \<in> set (error_payloads j). json_to_value d = Inl e \<and> (\<exists>m. e = Codec_error m))
        \<or> (\<exists>m d. e = Undefined_behaviour m \<and> json_find j ''baseVersion'' = Some (JFloat d)))
   \<and> decode_server_json (JObject [(''errorData'', JObject [(''$integer'', JBool True)]),
        (''requestId'', JUInt 7), (''result'', JString ''boom''), (''success'', JBool False),
        (''type'', JString ''MutationResponse'')])
     = Inl (Codec_error ''$integer payload must be a string'')"
proof
  show "case decode_server_json j of Inr _ \<Rightarrow> True
    | Inl e \<Rightarrow> (\<exists>m. e = Protocol_error m)
        \<or> (\<exists>d \<in> set (error_payloads j). json_to_value d = Inl e \<and> (\<exists>m. e = Codec_error m))
        \<or> (\<exists>m d. e = Undefined_behaviour m \<and> json_find j ''baseVersion'' = Some (JFloat d))"
    using decode_server_json_error [of j]
    by (cases "decode_server_json j") (simp_all add: decoder_error_def)
qed code_simp

subsection \<open>The documents of the protocol\<close>

text \<open>
  The documents a server sends for each message, as the protocol describes them. They are the
  specification the decoder is measured against, not a part of the client.
\<close>

definition wire_opt :: "('a \<Rightarrow> json) \<Rightarrow> 'a option \<Rightarrow> json" where
  "wire_opt f v = (case v of None \<Rightarrow> JNull | Some x \<Rightarrow> f x)"

definition wire_ts :: "timestamp \<Rightarrow> json" where
  "wire_ts t = JString (uint64_to_le_base64 t)"

definition wire_lines :: "string list \<Rightarrow> json" where
  "wire_lines ls = JArray (map JString ls)"

definition wire_version :: "state_version \<Rightarrow> json" where
  "wire_version v = JObject (json_obj [(''querySet'', j_u32 (sv_query_set v)),
     (''identity'', j_u32 (sv_identity v)), (''ts'', wire_ts (sv_ts v))])"

definition wire_payload :: "convex_value option \<Rightarrow> json result" where
  "wire_payload d = (case d of None \<Rightarrow> Inr JNull | Some v \<Rightarrow> value_to_json v)"

fun wire_modification :: "state_modification \<Rightarrow> json result" where
  "wire_modification (SM_updated u) = bindr (value_to_json (qu_result u)) (\<lambda>v.
     Inr (JObject (json_obj [(''type'', JString ''QueryUpdated''), (''queryId'', j_u32 (qu_id u)),
       (''value'', v), (''logLines'', wire_lines (qu_log_lines u)),
       (''journal'', wire_opt JString (qu_journal u))])))"
| "wire_modification (SM_failed f) = bindr (wire_payload (qf_error_data f)) (\<lambda>d.
     Inr (JObject (json_obj [(''type'', JString ''QueryFailed''), (''queryId'', j_u32 (qf_id f)),
       (''errorMessage'', JString (qf_error_message f)), (''errorData'', d),
       (''logLines'', wire_lines (qf_log_lines f)), (''journal'', wire_opt JString (qf_journal f))])))"
| "wire_modification (SM_removed i) =
     Inr (JObject (json_obj [(''type'', JString ''QueryRemoved''), (''queryId'', j_u32 i)]))"

fun wire_modifications :: "state_modification list \<Rightarrow> json list result" where
  "wire_modifications [] = Inr []"
| "wire_modifications (m # ms) =
     bindr (wire_modification m) (\<lambda>j. bindr (wire_modifications ms) (\<lambda>js. Inr (j # js)))"

definition wire_result :: "function_result \<Rightarrow> (bool \<times> json \<times> json) result" where
  "wire_result r = (case r of
      FR_success v \<Rightarrow> bindr (value_to_json v) (\<lambda>j. Inr (True, j, JNull))
    | FR_error m \<Rightarrow> Inr (False, JString m, JNull)
    | FR_app_error e \<Rightarrow> bindr (value_to_json (ce_data e)) (\<lambda>d. Inr (False, JString (ce_message e), d)))"

fun wire_server_message :: "server_message \<Rightarrow> json result" where
  "wire_server_message (SV_transition t) = bindr (wire_modifications (tr_modifications t)) (\<lambda>ms.
     Inr (JObject (json_obj [(''type'', JString ''Transition''),
       (''startVersion'', wire_version (tr_start_version t)),
       (''endVersion'', wire_version (tr_end_version t)), (''modifications'', JArray ms)])))"
| "wire_server_message (SV_mutation_response m) = bindr (wire_result (mr_result m)) (\<lambda>(ok, r, d).
     Inr (JObject (json_obj [(''type'', JString ''MutationResponse''), (''requestId'', j_u32 (mr_id m)),
       (''success'', JBool ok), (''result'', r), (''errorData'', d),
       (''ts'', wire_opt wire_ts (mr_ts m)), (''logLines'', wire_lines (mr_log_lines m))])))"
| "wire_server_message (SV_action_response a) = bindr (wire_result (ar_result a)) (\<lambda>(ok, r, d).
     Inr (JObject (json_obj [(''type'', JString ''ActionResponse''), (''requestId'', j_u32 (ar_id a)),
       (''success'', JBool ok), (''result'', r), (''errorData'', d),
       (''logLines'', wire_lines (ar_log_lines a))])))"
| "wire_server_message (SV_auth_error e) =
     Inr (JObject (json_obj [(''type'', JString ''AuthError''), (''error'', JString (ae_error e)),
       (''baseVersion'', wire_opt j_u32 (ae_base_version e)),
       (''authUpdateAttempted'', JBool (ae_auth_update_attempted e))]))"
| "wire_server_message (SV_fatal_error e) =
     Inr (JObject (json_obj [(''type'', JString ''FatalError''), (''error'', JString e)]))"
| "wire_server_message SV_ping = Inr (JObject (json_obj [(''type'', JString ''Ping'')]))"
| "wire_server_message (SV_transition_chunk c) =
     Inr (JObject (json_obj [(''type'', JString ''TransitionChunk''), (''chunk'', JString (tc_chunk c)),
       (''partNumber'', j_u32 (tc_part_number c)), (''totalParts'', j_u32 (tc_total_parts c)),
       (''transitionId'', JString (tc_transition_id c))]))"

text \<open>
  The values a message carries: well-formed, free of NaNs (whose payloads the wire does not
  keep), and an error payload is not null (null on the wire means that there is none).
\<close>

definition payload_ok :: "convex_value \<Rightarrow> bool" where
  "payload_ok v \<longleftrightarrow> value_wf v \<and> nan_free v"

fun result_wf :: "function_result \<Rightarrow> bool" where
  "result_wf (FR_success v) = payload_ok v"
| "result_wf (FR_error m) = True"
| "result_wf (FR_app_error e) = (payload_ok (ce_data e) \<and> ce_data e \<noteq> VNull)"

fun modification_wf :: "state_modification \<Rightarrow> bool" where
  "modification_wf (SM_updated u) = payload_ok (qu_result u)"
| "modification_wf (SM_failed f) =
     (case qf_error_data f of None \<Rightarrow> True | Some v \<Rightarrow> payload_ok v \<and> v \<noteq> VNull)"
| "modification_wf (SM_removed i) = True"

fun message_wf :: "server_message \<Rightarrow> bool" where
  "message_wf (SV_transition t) = list_all modification_wf (tr_modifications t)"
| "message_wf (SV_mutation_response m) = result_wf (mr_result m)"
| "message_wf (SV_action_response a) = result_wf (ar_result a)"
| "message_wf _ = True"

lemma map_of_json_obj [simp]: "map_of (json_obj kvs) = map_of (rev kvs)"
proof -
  have "map_of (fold (\<lambda>(k, v) m. om_insert k v m) kvs m) = map_of (rev kvs @ m)" for m
    by (induction kvs arbitrary: m) (auto simp: fun_eq_iff map_add_def split: option.split)
  then show ?thesis by (simp add: json_obj_def)
qed

lemma json_find_obj: "json_find (JObject (json_obj kvs)) k = map_of (rev kvs) k"
  by (simp add: json_find_def)

lemma payload_decodes: "payload_ok v \<Longrightarrow> value_to_json v = Inr j \<Longrightarrow> json_to_value j = Inr v"
  using codec_roundtrip_aux(1) by (auto simp: payload_ok_def canon_nan_id)

lemma value_to_json_null: "value_to_json v = Inr JNull \<longleftrightarrow> v = VNull"
  by (cases v) (auto simp: result_simps)

lemma ucast_u32_u64 [simp]: "ucast (ucast (n :: 32 word) :: 64 word) = n"
  by (rule bit_word_eqI) (simp add: bit_simps)

text \<open>Reading the fields of a document that was written with them.\<close>

lemma require_field: "json_find j f = Some x \<Longrightarrow> require j f mt = Inr x"
  by (simp add: require_def)

lemma read_fields:
  "json_find j f = Some (j_u32 n) \<Longrightarrow> require_u32 j f mt = Inr n"
  "json_find j f = Some (JString s) \<Longrightarrow> require_string j f mt = Inr s"
  "json_find j ''logLines'' = Some (wire_lines ls) \<Longrightarrow> decode_log_lines j mt = Inr ls"
  "json_find j ''journal'' = Some (wire_opt JString jn) \<Longrightarrow> optional_journal j = Inr jn"
proof -
  have "List.map_filter json_string (map JString ls) = ls" for ls
    by (induction ls) (simp_all add: map_filter_simps json_string_def)
  then show "json_find j ''logLines'' = Some (wire_lines ls) \<Longrightarrow> decode_log_lines j mt = Inr ls"
    by (simp add: decode_log_lines_def wire_lines_def)
qed (auto simp: require_u32_def require_string_def require_def j_u32_def json_string_def
    optional_journal_def wire_opt_def split: option.split)

lemma read_ts [simp]: "decode_timestamp (wire_ts t) mt = Inr t"
  by (simp add: decode_timestamp_def wire_ts_def json_string_def)

lemma read_version [simp]: "decode_state_version (wire_version v) mt = Inr v"
  unfolding decode_state_version_def wire_version_def
  by (simp add: read_fields(1) require_field json_find_obj)

lemma read_error_data:
  assumes "json_find j ''errorData'' = Some d" "wire_payload v = Inr d"
    and "case v of None \<Rightarrow> True | Some x \<Rightarrow> payload_ok x \<and> x \<noteq> VNull"
  shows "decode_error_data j = Inr v"
proof (cases v)
  case None
  with assms show ?thesis by (simp add: decode_error_data_def wire_payload_def)
next
  case (Some x)
  with assms have "d \<noteq> JNull" "json_to_value d = Inr x"
    by (auto simp: wire_payload_def value_to_json_null payload_decodes)
  with Some assms show ?thesis
    by (cases d) (auto simp: decode_error_data_def result_simps)
qed

lemma read_modification:
  "modification_wf m \<Longrightarrow> wire_modification m = Inr j \<Longrightarrow> decode_modification j = Inr m"
proof (cases m)
  case (SM_updated u)
  assume "modification_wf m" "wire_modification m = Inr j"
  with SM_updated obtain v where "value_to_json (qu_result u) = Inr v" "json_to_value v = Inr (qu_result u)"
    and j: "j = JObject (json_obj [(''type'', JString ''QueryUpdated''), (''queryId'', j_u32 (qu_id u)),
       (''value'', v), (''logLines'', wire_lines (qu_log_lines u)),
       (''journal'', wire_opt JString (qu_journal u))])"
    by (auto simp: result_simps payload_decodes)
  then show ?thesis
    unfolding decode_modification_def decode_query_updated_def SM_updated
    by (simp add: read_fields require_field json_find_obj)
next
  case (SM_failed f)
  assume "modification_wf m" "wire_modification m = Inr j"
  with SM_failed obtain d where "wire_payload (qf_error_data f) = Inr d"
    and j: "j = JObject (json_obj [(''type'', JString ''QueryFailed''), (''queryId'', j_u32 (qf_id f)),
       (''errorMessage'', JString (qf_error_message f)), (''errorData'', d),
       (''logLines'', wire_lines (qf_log_lines f)), (''journal'', wire_opt JString (qf_journal f))])"
    by (auto simp: result_simps)
  moreover from this have "decode_error_data j = Inr (qf_error_data f)"
    using \<open>modification_wf m\<close> SM_failed
    by (intro read_error_data [of _ d]) (auto simp: json_find_obj)
  ultimately show ?thesis
    unfolding decode_modification_def decode_query_failed_def SM_failed
    by (simp add: read_fields require_field json_find_obj)
next
  case (SM_removed i)
  assume "wire_modification m = Inr j"
  with SM_removed show ?thesis
    unfolding decode_modification_def by (auto simp: read_fields json_find_obj)
qed

lemma read_modifications:
  "list_all modification_wf ms \<Longrightarrow> wire_modifications ms = Inr js \<Longrightarrow> decode_modifications js = Inr ms"
  by (induction ms arbitrary: js) (auto simp: result_simps read_modification)

lemma read_function_result:
  assumes "result_wf r" "wire_result r = Inr (ok, res, d)"
    and "json_find j ''success'' = Some (JBool ok)" "json_find j ''result'' = Some res"
      "json_find j ''errorData'' = Some d"
  shows "decode_function_result j mt = Inr r"
proof (cases r)
  case (FR_success v)
  with assms show ?thesis
    by (auto simp: decode_function_result_def wire_result_def require_field json_bool_def
        result_simps payload_decodes)
next
  case (FR_error m)
  with assms have "decode_error_data j = Inr None"
    by (intro read_error_data [of _ d]) (auto simp: wire_result_def wire_payload_def)
  with FR_error assms show ?thesis
    by (auto simp: decode_function_result_def wire_result_def require_field json_bool_def json_string_def)
next
  case (FR_app_error e)
  with assms have "decode_error_data j = Inr (Some (ce_data e))"
    by (intro read_error_data [of _ d]) (auto simp: wire_result_def wire_payload_def result_simps)
  with FR_app_error assms show ?thesis
    by (auto simp: decode_function_result_def wire_result_def require_field json_bool_def
        json_string_def result_simps)
qed

lemma read_transition:
  assumes "message_wf (SV_transition t)" and "wire_server_message (SV_transition t) = Inr j"
  shows "decode_server_json j = Inr (SV_transition t)"
proof -
  obtain ms where "wire_modifications (tr_modifications t) = Inr ms"
    and "j = JObject (json_obj [(''type'', JString ''Transition''),
       (''startVersion'', wire_version (tr_start_version t)),
       (''endVersion'', wire_version (tr_end_version t)), (''modifications'', JArray ms)])"
    using assms(2) by (auto simp: result_simps)
  moreover from this have "decode_modifications ms = Inr (tr_modifications t)"
    using assms(1) by (auto intro: read_modifications)
  ultimately show ?thesis
    unfolding decode_server_json_def decode_transition_def
    by (simp add: read_fields require_field json_find_obj)
qed

lemma read_mutation_response:
  assumes "message_wf (SV_mutation_response r)" and "wire_server_message (SV_mutation_response r) = Inr j"
  shows "decode_server_json j = Inr (SV_mutation_response r)"
proof -
  obtain ok res d where w: "wire_result (mr_result r) = Inr (ok, res, d)"
    and j: "j = JObject (json_obj [(''type'', JString ''MutationResponse''), (''requestId'', j_u32 (mr_id r)),
       (''success'', JBool ok), (''result'', res), (''errorData'', d),
       (''ts'', wire_opt wire_ts (mr_ts r)), (''logLines'', wire_lines (mr_log_lines r))])"
    using assms(2) by (auto simp: result_simps)
  have "decode_function_result j ''MutationResponse'' = Inr (mr_result r)"
    using w assms(1) by (intro read_function_result [of _ ok res d]) (auto simp: json_find_obj j)
  then show ?thesis
    unfolding decode_server_json_def decode_mutation_response_def j
    by (simp add: read_fields json_find_obj wire_opt_def wire_ts_def split: option.split)
      (simp add: wire_ts_def [symmetric])
qed

lemma read_action_response:
  assumes "message_wf (SV_action_response a)" and "wire_server_message (SV_action_response a) = Inr j"
  shows "decode_server_json j = Inr (SV_action_response a)"
proof -
  obtain ok res d where w: "wire_result (ar_result a) = Inr (ok, res, d)"
    and j: "j = JObject (json_obj [(''type'', JString ''ActionResponse''), (''requestId'', j_u32 (ar_id a)),
       (''success'', JBool ok), (''result'', res), (''errorData'', d),
       (''logLines'', wire_lines (ar_log_lines a))])"
    using assms(2) by (auto simp: result_simps)
  have "decode_function_result j ''ActionResponse'' = Inr (ar_result a)"
    using w assms(1) by (intro read_function_result [of _ ok res d]) (auto simp: json_find_obj j)
  then show ?thesis
    unfolding decode_server_json_def decode_action_response_def j
    by (simp add: read_fields json_find_obj)
qed

text \<open>
  \<open>C35\<close>. The decoder understands the protocol: the document a server sends for a well-formed
  message, of any of the seven types, decodes to that message, identifiers, 64-bit timestamps, journals,
  log lines, results and error payloads included. Well-formed excludes NaN payloads, which have one
  form on the wire, and error data that is null, which is absent on the wire.
\<close>

theorem decode_wire_message:
  assumes "message_wf m" and "wire_server_message m = Inr j"
  shows "decode_server_json j = Inr m"
proof (cases m)
  case (SV_transition t)
  then show ?thesis using read_transition assms by simp
next
  case (SV_mutation_response r)
  then show ?thesis using read_mutation_response assms by simp
next
  case (SV_action_response a)
  then show ?thesis using read_action_response assms by simp
next
  case (SV_auth_error e)
  with assms show ?thesis
    unfolding decode_server_json_def decode_auth_error_def
    by (auto simp: read_fields json_find_obj wire_opt_def j_u32_def json_bool_def split: option.split)
next
  case (SV_fatal_error e)
  with assms show ?thesis
    unfolding decode_server_json_def by (auto simp: read_fields json_find_obj)
next
  case SV_ping
  with assms show ?thesis
    unfolding decode_server_json_def by (auto simp: read_fields json_find_obj)
next
  case (SV_transition_chunk c)
  with assms show ?thesis
    unfolding decode_server_json_def decode_chunk_def
    by (auto simp: read_fields json_find_obj)
qed

theorem decode_wire_message_witness:
  "decode_server_json (JObject [(''errorData'', JNull), (''logLines'', JArray [JString ''hi'']),
     (''requestId'', JUInt 7), (''result'', JBool True), (''success'', JBool True),
     (''ts'', JString ''BQAAAAAAAAA=''), (''type'', JString ''MutationResponse'')])
   = Inr (SV_mutation_response \<lparr>mr_id = 7, mr_result = FR_success (VBool True), mr_ts = Some 5,
       mr_log_lines = [''hi'']\<rparr>)"
proof -
  let ?m = "SV_mutation_response \<lparr>mr_id = 7, mr_result = FR_success (VBool True), mr_ts = Some 5,
       mr_log_lines = [''hi'']\<rparr>"
  have "message_wf ?m" by code_simp
  moreover have "wire_server_message ?m = Inr (JObject [(''errorData'', JNull),
     (''logLines'', JArray [JString ''hi'']), (''requestId'', JUInt 7), (''result'', JBool True),
     (''success'', JBool True), (''ts'', JString ''BQAAAAAAAAA=''),
     (''type'', JString ''MutationResponse'')])"
    by code_simp
  ultimately show ?thesis by (rule decode_wire_message)
qed

subsection \<open>The documents the client sends\<close>

text \<open>
  What a server reads in the document of a client message: every field of the message, the
  optional ones present exactly when they are set, and the arguments as the document that the
  stored text parses to.
\<close>

definition reads_args :: "json_lib \<Rightarrow> json \<Rightarrow> string \<Rightarrow> bool" where
  "reads_args L j args \<longleftrightarrow> (\<exists>d. jl_parse L args = Inr d \<and> json_find j ''args'' = Some d)"

fun reads_modification :: "json_lib \<Rightarrow> json \<Rightarrow> query_set_modification \<Rightarrow> bool" where
  "reads_modification L j (QS_add a) \<longleftrightarrow>
     json_find j ''type'' = Some (JString ''Add'') \<and> require_u32 j ''queryId'' [] = Inr (qa_id a)
     \<and> json_find j ''udfPath'' = Some (JString (qa_udf_path a)) \<and> reads_args L j (qa_args_json a)
     \<and> json_find j ''journal'' = map_option JString (qa_journal a)
     \<and> json_find j ''componentPath'' = map_option JString (qa_component_path a)"
| "reads_modification L j (QS_remove i) \<longleftrightarrow>
     json_find j ''type'' = Some (JString ''Remove'') \<and> require_u32 j ''queryId'' [] = Inr i"

definition reads_request :: "json_lib \<Rightarrow> json \<Rightarrow> string \<Rightarrow> request_message \<Rightarrow> bool" where
  "reads_request L j type m \<longleftrightarrow>
     json_find j ''type'' = Some (JString type) \<and> require_u32 j ''requestId'' [] = Inr (rq_id m)
     \<and> json_find j ''udfPath'' = Some (JString (rq_udf_path m)) \<and> reads_args L j (rq_args_json m)
     \<and> json_find j ''componentPath'' = map_option JString (rq_component_path m)"

definition reads_token :: "json \<Rightarrow> auth_token \<Rightarrow> bool" where
  "reads_token j tok \<longleftrightarrow>
     (case at_type tok of
        Auth_none \<Rightarrow> json_find j ''tokenType'' = Some (JString ''None'')
          \<and> json_find j ''value'' = None \<and> json_find j ''impersonating'' = None
      | Auth_user \<Rightarrow> json_find j ''tokenType'' = Some (JString ''User'')
          \<and> json_find j ''value'' = Some (JString (at_value tok)) \<and> json_find j ''impersonating'' = None
      | Auth_admin \<Rightarrow> json_find j ''tokenType'' = Some (JString ''Admin'')
          \<and> json_find j ''value'' = Some (JString (at_value tok))
          \<and> (case at_acting_as tok of
               None \<Rightarrow> json_find j ''impersonating'' = None
             | Some attrs \<Rightarrow> \<exists>a. value_to_json (VObject attrs) = Inr a
                 \<and> json_find j ''impersonating'' = Some a))"

fun reads_message :: "json_lib \<Rightarrow> json \<Rightarrow> client_message \<Rightarrow> bool" where
  "reads_message L j (CM_connect m) \<longleftrightarrow>
     json_find j ''type'' = Some (JString ''Connect'')
     \<and> json_find j ''sessionId'' = Some (JString (cm_session_id m))
     \<and> require_u32 j ''connectionCount'' [] = Inr (cm_connection_count m)
     \<and> json_find j ''lastCloseReason'' = Some (JString (cm_last_close_reason m))
     \<and> json_find j ''maxObservedTimestamp'' = map_option wire_ts (cm_max_observed_timestamp m)
     \<and> json_find j ''clientTs'' = map_option JUInt (cm_client_ts m)"
| "reads_message L j (CM_authenticate m) \<longleftrightarrow>
     json_find j ''type'' = Some (JString ''Authenticate'')
     \<and> require_u32 j ''baseVersion'' [] = Inr (am_base_version m) \<and> reads_token j (am_token m)"
| "reads_message L j (CM_modify_query_set m) \<longleftrightarrow>
     json_find j ''type'' = Some (JString ''ModifyQuerySet'')
     \<and> require_u32 j ''baseVersion'' [] = Inr (mq_base_version m)
     \<and> require_u32 j ''newVersion'' [] = Inr (mq_new_version m)
     \<and> (\<exists>js. json_find j ''modifications'' = Some (JArray js)
            \<and> list_all2 (reads_modification L) js (mq_modifications m))"
| "reads_message L j (CM_mutation m) \<longleftrightarrow> reads_request L j ''Mutation'' m"
| "reads_message L j (CM_action m) \<longleftrightarrow> reads_request L j ''Action'' m"

lemma json_find_JObject: "json_find (JObject fs) k = map_of fs k"
  by (simp add: json_find_def)

lemma map_of_set_opt:
  "map_of (set_opt k v m) = (case v of None \<Rightarrow> map_of m | Some j \<Rightarrow> (map_of m)(k \<mapsto> j))"
  by (simp add: set_opt_def split: option.split)

lemmas client_documents = json_find_JObject map_of_set_opt read_fields(1)

lemma args_dom_reads: "args_dom L a = Inr d \<longleftrightarrow> jl_parse L a = Inr d"
  by (auto simp: args_dom_def parse_or_throw_def split: sum.split)

lemma encode_modification_reads: "encode_modification L m = Inr j \<Longrightarrow> reads_modification L j m"
  by (cases m) (auto simp: result_simps client_documents args_dom_reads reads_args_def split: option.split)

lemma encode_modifications_reads:
  "encode_modifications L ms = Inr js \<Longrightarrow> list_all2 (reads_modification L) js ms"
  by (induction ms arbitrary: js) (auto simp: result_simps encode_modification_reads)

text \<open>
  A message that is encoded at all is written faithfully: the document carries the
  right type tag, every identifier, version and timestamp reads back as itself, optional
  fields are present exactly when they are set, and the arguments are the parsed document of
  the canonical text the client stored.
\<close>

theorem client_encoder_faithful:
  assumes "client_encoder L m = Inr j"
  shows "reads_message L j m"
proof (cases m)
  case (CM_connect c)
  with assms show ?thesis
    by (auto simp: encode_connect_def client_documents wire_ts_def comp_def split: option.split)
next
  case (CM_authenticate a)
  with assms show ?thesis
    by (auto simp: encode_auth_def reads_token_def Let_def client_documents result_simps
        split: auth_kind.splits option.splits)
next
  case (CM_modify_query_set q)
  with assms show ?thesis
    by (auto simp: encode_modify_query_set_def client_documents result_simps encode_modifications_reads)
next
  case (CM_mutation r)
  with assms show ?thesis
    by (auto simp: encode_request_def reads_request_def reads_args_def client_documents
        result_simps args_dom_reads split: option.split)
next
  case (CM_action r)
  with assms show ?thesis
    by (auto simp: encode_request_def reads_request_def reads_args_def client_documents
        result_simps args_dom_reads split: option.split)
qed

text \<open>A library whose parser knows the one text \<open>[{}]\<close>, for closed instances.\<close>

definition sample_lib :: json_lib where
  "sample_lib = \<lparr>jl_dump = (\<lambda>j. if j = JObject [] then Inr ''{}'' else Inl (Json_exception ''dump'')),
     jl_parse = (\<lambda>t. if t = ''[{}]'' then Inr (JArray [JObject []]) else Inl (Json_exception ''parse''))\<rparr>"

theorem client_encoder_faithful_witness:
  "reads_message sample_lib
     (JObject [(''args'', JArray [JObject []]), (''requestId'', JUInt 3), (''type'', JString ''Mutation''),
        (''udfPath'', JString ''m:f'')])
     (CM_mutation \<lparr>rq_id = 3, rq_udf_path = ''m:f'', rq_args_json = ''[{}]'', rq_component_path = None\<rparr>)"
proof -
  have "client_encoder sample_lib
      (CM_mutation \<lparr>rq_id = 3, rq_udf_path = ''m:f'', rq_args_json = ''[{}]'', rq_component_path = None\<rparr>)
    = Inr (JObject [(''args'', JArray [JObject []]), (''requestId'', JUInt 3), (''type'', JString ''Mutation''),
        (''udfPath'', JString ''m:f'')])"
    by (simp add: encode_request_def sample_lib_def args_dom_def parse_or_throw_def json_obj_def
        set_opt_def j_u32_def)
  then show ?thesis by (rule client_encoder_faithful)
qed

end
