(* ===== verification/Chunks.thy ===== *)
theory Chunks
  imports Protocol
begin

section \<open>Reassembly of split transitions (\<open>transition_chunk_assembler\<close>)\<close>

text \<open>
  The assembler buffers the parts of one split until all have arrived. The model has the four
  fields of the class; \<open>asm_feed\<close> is \<open>feed\<close>, returning the new state beside what the call
  returns or throws, \<open>asm_idle\<close> is the state after \<open>abandon\<close>. The text of the out-of-order
  error is built after the buffer was dropped, so the part it says it expected is always 0.
\<close>

record assembler =
  as_data :: string
  as_received_parts :: "32 word"
  as_total_parts :: "32 word"
  as_transition_id :: string

definition asm_idle :: assembler where
  "asm_idle = \<lparr>as_data = [], as_received_parts = 0, as_total_parts = 0, as_transition_id = []\<rparr>"

definition asm_abandon :: "assembler \<Rightarrow> assembler" where
  "asm_abandon a = a\<lparr>as_data := [], as_received_parts := 0, as_total_parts := 0, as_transition_id := []\<rparr>"

definition asm_buffering :: "assembler \<Rightarrow> bool" where
  "asm_buffering a \<longleftrightarrow> as_total_parts a \<noteq> 0"

definition asm_decode :: "json_lib \<Rightarrow> string \<Rightarrow> transition_message option result" where
  "asm_decode L full =
     bindr (decode_server_message L full) (\<lambda>m.
       case m of
         SV_transition t \<Rightarrow> Inr (Some t)
       | _ \<Rightarrow> Inl (Protocol_error ''TransitionChunk: assembled message is not a Transition''))"

definition asm_feed ::
  "json_lib \<Rightarrow> assembler \<Rightarrow> transition_chunk_message \<Rightarrow> assembler \<times> transition_message option result"
where
  "asm_feed L a c =
     (if tc_total_parts c = 0 \<or> tc_part_number c \<ge> tc_total_parts c
         \<or> (asm_buffering a
            \<and> (as_total_parts a \<noteq> tc_total_parts c \<or> as_transition_id a \<noteq> tc_transition_id c))
      then (asm_abandon a, Inl (Protocol_error ''TransitionChunk: inconsistent chunk parameters''))
      else if tc_part_number c \<noteq> as_received_parts a
      then (asm_abandon a,
            Inl (Protocol_error (''TransitionChunk: part '' @ dec_digits (unat (tc_part_number c))
              @ '' received out of order (expected ''
              @ dec_digits (unat (as_received_parts (asm_abandon a))) @ '')'')))
      else
        (let a1 = (if asm_buffering a then a
                   else a\<lparr>as_total_parts := tc_total_parts c, as_transition_id := tc_transition_id c\<rparr>);
             a2 = a1\<lparr>as_data := as_data a1 @ tc_chunk c, as_received_parts := as_received_parts a1 + 1\<rparr>
         in if as_received_parts a2 < as_total_parts a2 then (a2, Inr None)
            else (asm_abandon a2, asm_decode L (as_data a2))))"

lemma asm_abandon_idle [simp]: "asm_abandon a = asm_idle"
  by (simp add: asm_abandon_def asm_idle_def)

lemma asm_idle_simps [simp]:
  "as_data asm_idle = []" "as_received_parts asm_idle = 0" "as_total_parts asm_idle = 0"
  "as_transition_id asm_idle = []" "\<not> asm_buffering asm_idle"
  by (simp_all add: asm_idle_def asm_buffering_def)

subsection \<open>What the buffer holds\<close>

text \<open>
  The parts of a split: \<open>chunk_seq n tid ps\<close> are the messages that carry the texts \<open>ps\<close> as the
  first parts of a split in \<open>n\<close> parts with identifier \<open>tid\<close>.
\<close>

definition chunk_seq :: "32 word \<Rightarrow> string \<Rightarrow> string list \<Rightarrow> transition_chunk_message list" where
  "chunk_seq n tid ps =
     map (\<lambda>i. \<lparr>tc_chunk = ps ! i, tc_part_number = of_nat i, tc_total_parts = n, tc_transition_id = tid\<rparr>)
       [0..<length ps]"

definition split_messages :: "string \<Rightarrow> string list \<Rightarrow> transition_chunk_message list" where
  "split_messages tid ps = chunk_seq (of_nat (length ps)) tid ps"

lemma chunk_seq_Nil [simp]: "chunk_seq n tid [] = []"
  by (simp add: chunk_seq_def)

lemma chunk_seq_snoc:
  "chunk_seq n tid (ps @ [p]) =
     chunk_seq n tid ps @ [\<lparr>tc_chunk = p, tc_part_number = of_nat (length ps),
        tc_total_parts = n, tc_transition_id = tid\<rparr>]"
  by (simp add: chunk_seq_def nth_append)

lemma chunk_seq_single [simp]:
  "chunk_seq n tid [p] = [\<lparr>tc_chunk = p, tc_part_number = 0, tc_total_parts = n, tc_transition_id = tid\<rparr>]"
  using chunk_seq_snoc [of n tid "[]" p] by simp

lemma asm_decode_eq_Inr:
  "asm_decode L full = Inr x \<longleftrightarrow>
     (\<exists>t. x = Some t \<and> decode_server_message L full = Inr (SV_transition t))"
  by (cases "decode_server_message L full")
     (auto simp: asm_decode_def split: server_message.splits)

text \<open>
  The history since the last \<open>abandon\<close> ends with the parts in the buffer, and the buffer is
  never complete.
\<close>

definition asm_holds :: "assembler \<Rightarrow> string list \<Rightarrow> bool" where
  "asm_holds a ps \<longleftrightarrow>
     as_data a = concat ps \<and> as_received_parts a = of_nat (length ps)
     \<and> (ps = [] \<longrightarrow> a = asm_idle) \<and> (ps \<noteq> [] \<longrightarrow> length ps < unat (as_total_parts a))"

definition asm_inv :: "assembler \<times> transition_chunk_message list \<Rightarrow> bool" where
  "asm_inv s \<longleftrightarrow> (\<exists>pre ps. asm_holds (fst s) ps
     \<and> snd s = pre @ chunk_seq (as_total_parts (fst s)) (as_transition_id (fst s)) ps)"

datatype asm_op = Feed transition_chunk_message | Abandon

fun asm_step ::
  "json_lib \<Rightarrow> assembler \<times> transition_chunk_message list \<Rightarrow> asm_op
    \<Rightarrow> assembler \<times> transition_chunk_message list"
where
  "asm_step L (a, hist) (Feed c) = (fst (asm_feed L a c), hist @ [c])"
| "asm_step L (a, hist) Abandon = (asm_abandon a, [])"

lemma asm_holds_idle [simp]: "asm_holds asm_idle []"
  by (simp add: asm_holds_def)

lemma asm_inv_idle [intro]: "asm_inv (asm_idle, hist)"
  unfolding asm_inv_def by (rule exI [of _ hist], rule exI [of _ "[]"]) simp

lemma asm_holds_received:
  "asm_holds a ps \<Longrightarrow> unat (as_received_parts a) = length ps"
proof -
  assume h: "asm_holds a ps"
  have "length ps < 2 ^ 32"
  proof (cases "ps = []")
    case False
    with h have "length ps < unat (as_total_parts a)" by (simp add: asm_holds_def)
    also have "\<dots> < 2 ^ 32" using unat_less_exp [of "as_total_parts a"] by simp
    finally show ?thesis .
  qed simp
  with h show ?thesis by (simp add: asm_holds_def unat_of_nat)
qed

text \<open>
  One step of the assembler on a buffer that holds \<open>ps\<close>: it is reset by an error and by the
  last part, and grows by the chunk otherwise.
\<close>

lemma asm_feed_cases:
  assumes "asm_holds a ps"
  obtains (error) e where "asm_feed L a c = (asm_idle, Inl e)" "\<exists>m. e = Protocol_error m"
  | (more) a' where "asm_feed L a c = (a', Inr None)" "asm_holds a' (ps @ [tc_chunk c])"
      "c = \<lparr>tc_chunk = tc_chunk c, tc_part_number = of_nat (length ps),
          tc_total_parts = as_total_parts a', tc_transition_id = as_transition_id a'\<rparr>"
      "ps \<noteq> [] \<Longrightarrow> as_total_parts a' = as_total_parts a \<and> as_transition_id a' = as_transition_id a"
  | (last) "asm_feed L a c = (asm_idle, asm_decode L (concat (ps @ [tc_chunk c])))"
      "unat (tc_total_parts c) = Suc (length ps)" "unat (tc_part_number c) = length ps"
      "ps \<noteq> [] \<Longrightarrow> as_total_parts a = tc_total_parts c \<and> as_transition_id a = tc_transition_id c"
proof -
  let ?bad = "tc_total_parts c = 0 \<or> tc_part_number c \<ge> tc_total_parts c
         \<or> (asm_buffering a
            \<and> (as_total_parts a \<noteq> tc_total_parts c \<or> as_transition_id a \<noteq> tc_transition_id c))"
  consider "?bad" | "\<not> ?bad" "tc_part_number c \<noteq> as_received_parts a"
    | "\<not> ?bad" "tc_part_number c = as_received_parts a" by blast
  then show thesis
  proof cases
    case 1
    then show thesis by (intro error) (auto simp: asm_feed_def)
  next
    case 2
    then show thesis by (intro error) (auto simp: asm_feed_def)
  next
    case 3
    let ?n = "tc_total_parts c" and ?tid = "tc_transition_id c"
    have n0: "?n \<noteq> 0" and lt: "tc_part_number c < ?n"
      and same: "asm_buffering a \<Longrightarrow> as_total_parts a = ?n \<and> as_transition_id a = ?tid"
      using 3 by auto
    have buf: "asm_buffering a \<longleftrightarrow> ps \<noteq> []"
      using assms by (auto simp: asm_holds_def asm_buffering_def)
    have part: "unat (tc_part_number c) = length ps"
      using 3 asm_holds_received [OF assms] by simp
    define a2 where "a2 = \<lparr>as_data = concat (ps @ [tc_chunk c]), as_received_parts = tc_part_number c + 1,
       as_total_parts = ?n, as_transition_id = ?tid\<rparr>"
    have a2: "as_data a2 = concat (ps @ [tc_chunk c])" "as_received_parts a2 = tc_part_number c + 1"
      "as_total_parts a2 = ?n" "as_transition_id a2 = ?tid" by (simp_all add: a2_def)
    have feed: "asm_feed L a c = (if tc_part_number c + 1 < ?n then (a2, Inr None)
        else (asm_idle, asm_decode L (concat (ps @ [tc_chunk c]))))"
    proof (cases "ps = []")
      case True
      then have "a = asm_idle" using assms by (simp add: asm_holds_def)
      then show ?thesis using 3 True by (auto simp: asm_feed_def Let_def a2_def asm_idle_def)
    next
      case False
      with buf same have "as_total_parts a = ?n" "as_transition_id a = ?tid" by auto
      moreover have "as_data a = concat ps" using assms by (simp add: asm_holds_def)
      ultimately show ?thesis using 3 by (auto simp: asm_feed_def Let_def a2_def buf False)
    qed
    have suc: "unat (tc_part_number c + 1) = Suc (length ps)"
      using part unat_Suc_less [OF lt] by simp
    show thesis
    proof (cases "tc_part_number c + 1 < ?n")
      case True
      have pn: "tc_part_number c = of_nat (length ps)" using part by (rule unat_eq_of_nat)
      show thesis
      proof (rule more)
        show "asm_feed L a c = (a2, Inr None)" using feed True by simp
        have "Suc (length ps) < unat ?n" using True suc by (simp add: word_less_nat_alt)
        then show "asm_holds a2 (ps @ [tc_chunk c])" using pn by (simp add: asm_holds_def a2)
        show "c = \<lparr>tc_chunk = tc_chunk c, tc_part_number = of_nat (length ps),
          tc_total_parts = as_total_parts a2, tc_transition_id = as_transition_id a2\<rparr>"
          using pn by (simp add: a2)
        show "ps \<noteq> [] \<Longrightarrow> as_total_parts a2 = as_total_parts a \<and> as_transition_id a2 = as_transition_id a"
          using same buf by (simp add: a2)
      qed
    next
      case False
      show thesis
      proof (rule last)
        show "asm_feed L a c = (asm_idle, asm_decode L (concat (ps @ [tc_chunk c])))"
          using feed False by simp
        show "unat ?n = Suc (length ps)"
          using False lt suc part by (simp add: word_less_nat_alt)
        show "unat (tc_part_number c) = length ps" by (fact part)
        show "ps \<noteq> [] \<Longrightarrow> as_total_parts a = ?n \<and> as_transition_id a = ?tid"
          using same buf by simp
      qed
    qed
  qed
qed

subsection \<open>The invariant, and what a run of the assembler shows\<close>

lemma asm_inv_step: "asm_inv s \<Longrightarrow> asm_inv (asm_step L s op)"
proof -
  assume "asm_inv s"
  obtain a hist where s: "s = (a, hist)" by (cases s)
  from \<open>asm_inv s\<close> s obtain pre ps where holds: "asm_holds a ps"
    and hist: "hist = pre @ chunk_seq (as_total_parts a) (as_transition_id a) ps"
    by (auto simp: asm_inv_def)
  show ?thesis
  proof (cases op)
    case Abandon
    then show ?thesis by (simp add: s asm_inv_idle)
  next
    case (Feed c)
    from holds show ?thesis
    proof (cases rule: asm_feed_cases [where L = L and c = c])
      case (more a')
      define d where "d = \<lparr>tc_chunk = tc_chunk c, tc_part_number = of_nat (length ps),
          tc_total_parts = as_total_parts a', tc_transition_id = as_transition_id a'\<rparr>"
      have d: "c = d" using more(3) by (simp only: d_def)
      have "\<exists>pre'. hist @ [c] = pre' @ chunk_seq (as_total_parts a') (as_transition_id a') (ps @ [tc_chunk c])"
      proof (cases "ps = []")
        case True
        then have "hist @ [c] = hist @ chunk_seq (as_total_parts a') (as_transition_id a') (ps @ [tc_chunk c])"
          using d by (simp add: chunk_seq_snoc d_def)
        then show ?thesis by blast
      next
        case False
        then have "hist @ [c] = pre @ chunk_seq (as_total_parts a') (as_transition_id a') (ps @ [tc_chunk c])"
          using more(4) hist d by (simp add: chunk_seq_snoc d_def)
        then show ?thesis by blast
      qed
      with more(1,2) show ?thesis by (auto simp: s Feed asm_inv_def)
    qed (simp_all add: s Feed asm_inv_idle)
  qed
qed

interpretation asm: guarded_machine "asm_step L" "\<lambda>_ _. True" asm_inv for L
  by unfold_locales (rule asm_inv_step)

lemma ok_run_True: "ok_run step (\<lambda>_ _. True) s as"
  by (induction as arbitrary: s) auto

lemma asm_inv_run: "asm_inv (run (asm_step L) (asm_idle, []) ops)"
  by (rule asm.run_keeps) (auto simp: ok_run_True)

lemma chunk_seq_last:
  assumes "asm_holds a ps" "unat (tc_total_parts c) = Suc (length ps)" "unat (tc_part_number c) = length ps"
    and "ps \<noteq> [] \<Longrightarrow> as_total_parts a = tc_total_parts c \<and> as_transition_id a = tc_transition_id c"
  shows "chunk_seq (as_total_parts a) (as_transition_id a) ps @ [c] =
    split_messages (tc_transition_id c) (ps @ [tc_chunk c])"
proof -
  have n: "tc_total_parts c = of_nat (Suc (length ps))" "tc_part_number c = of_nat (length ps)"
    using assms(2,3) by (auto dest: unat_eq_of_nat simp del: of_nat_Suc)
  have seq: "chunk_seq (as_total_parts a) (as_transition_id a) ps =
      chunk_seq (tc_total_parts c) (tc_transition_id c) ps"
    using assms(4) by (cases "ps = []") auto
  have "c = \<lparr>tc_chunk = tc_chunk c, tc_part_number = of_nat (length ps),
        tc_total_parts = tc_total_parts c, tc_transition_id = tc_transition_id c\<rparr>"
    using n(2) by simp
  moreover have "(of_nat (length (ps @ [tc_chunk c])) :: u32) = tc_total_parts c"
    using n(1) by simp
  ultimately show ?thesis
    unfolding split_messages_def seq chunk_seq_snoc by simp
qed

text \<open>
  \<open>C28\<close>: nothing but a complete split in order yields a transition. After any calls of \<open>feed\<close>
  and \<open>abandon\<close> on a new assembler, if \<open>feed\<close> returns a transition, the chunks fed since the
  last \<open>abandon\<close> end with every part of one split, part 0 first and this chunk last, and their
  concatenation decodes to that transition; the assembler is then empty again. If \<open>feed\<close>
  throws, the assembler is empty too, and if it returns nothing it is buffering.
\<close>

theorem assembler_sound:
  "let (a, hist) = run (asm_step L) (asm_idle, []) ops; (a', r) = asm_feed L a c in
     (\<forall>t. r = Inr (Some t) \<longrightarrow> a' = asm_idle \<and>
        (\<exists>pre ps. hist @ [c] = pre @ split_messages (tc_transition_id c) ps \<and> ps \<noteq> []
           \<and> decode_server_message L (concat ps) = Inr (SV_transition t)))
     \<and> (\<forall>e. r = Inl e \<longrightarrow> a' = asm_idle)
     \<and> (r = Inr None \<longrightarrow> asm_buffering a')"
proof -
  obtain a hist where run: "run (asm_step L) (asm_idle, []) ops = (a, hist)" by fastforce
  have "asm_inv (a, hist)" using asm_inv_run [of L ops] run by simp
  then obtain pre ps where holds: "asm_holds a ps"
    and hist: "hist = pre @ chunk_seq (as_total_parts a) (as_transition_id a) ps"
    by (auto simp: asm_inv_def)
  from holds show ?thesis
  proof (cases rule: asm_feed_cases [where L = L and c = c])
    case (more a')
    then show ?thesis by (simp add: run asm_holds_def asm_buffering_def) force
  next
    case last
    have eq: "hist @ [c] = pre @ split_messages (tc_transition_id c) (ps @ [tc_chunk c])"
      using hist chunk_seq_last [OF holds last(2-4)] by simp
    show ?thesis
      by (auto simp: run last(1) eq asm_decode_eq_Inr intro!: exI [of _ pre] exI [of _ "ps @ [tc_chunk c]"])
  qed (simp_all add: run)
qed

subsection \<open>A complete split is delivered\<close>

fun asm_feeds ::
  "json_lib \<Rightarrow> assembler \<Rightarrow> transition_chunk_message list
    \<Rightarrow> assembler \<times> transition_message option result list"
where
  "asm_feeds L a [] = (a, [])"
| "asm_feeds L a (c # cs) =
     (let (a1, r) = asm_feed L a c; (a2, rs) = asm_feeds L a1 cs in (a2, r # rs))"

lemma asm_feeds_append:
  "asm_feeds L a (cs @ ds) =
     (let (a1, rs) = asm_feeds L a cs; (a2, rs') = asm_feeds L a1 ds in (a2, rs @ rs'))"
  by (induction cs arbitrary: a) (auto simp: Let_def split: prod.splits)

definition asm_after :: "32 word \<Rightarrow> string \<Rightarrow> string list \<Rightarrow> assembler" where
  "asm_after n tid ps = (if ps = [] then asm_idle else
     \<lparr>as_data = concat ps, as_received_parts = of_nat (length ps), as_total_parts = n,
      as_transition_id = tid\<rparr>)"

lemma asm_after_holds: "length ps < unat n \<Longrightarrow> asm_holds (asm_after n tid ps) ps"
  by (simp add: asm_after_def asm_holds_def)

lemma asm_feed_after:
  assumes "length ps < unat (n :: 32 word)"
  shows "asm_feed L (asm_after n tid ps)
     \<lparr>tc_chunk = p, tc_part_number = of_nat (length ps), tc_total_parts = n, tc_transition_id = tid\<rparr> =
    (if Suc (length ps) < unat n then (asm_after n tid (ps @ [p]), Inr None)
     else (asm_idle, asm_decode L (concat (ps @ [p]))))"
proof -
  have pos: "n \<noteq> 0" using assms by auto
  have "length ps < 2 ^ 32" using assms unat_less_exp [of n] by simp
  then have part: "unat (of_nat (length ps) :: 32 word) = length ps"
    by (simp add: unsigned_of_nat take_bit_nat_eq_self)
  have lt: "(of_nat (length ps) :: 32 word) < n"
    using assms part by (simp only: word_less_nat_alt)
  have suc: "((of_nat (length ps) + 1 :: 32 word) < n) \<longleftrightarrow> Suc (length ps) < unat n"
    using unat_Suc_less [OF lt] part by (simp add: word_less_nat_alt)
  show ?thesis
    using pos lt suc
    by (cases "ps = []")
       (auto simp: asm_feed_def asm_after_def asm_buffering_def asm_idle_def Let_def add.commute linorder_not_le)
qed

lemma asm_feeds_prefix:
  "length ps < unat n \<Longrightarrow> asm_feeds L asm_idle (chunk_seq n tid ps) =
     (asm_after n tid ps, replicate (length ps) (Inr None))"
proof (induction ps rule: rev_induct)
  case Nil
  then show ?case by (simp add: asm_after_def)
next
  case (snoc p ps)
  then show ?case
    by (simp add: chunk_seq_snoc asm_feeds_append asm_feed_after replicate_append_same)
qed

text \<open>
  \<open>C29\<close>: a complete split is delivered. Feeding an empty assembler the messages of a split of at
  most 2^32 - 1 parts, in order, gives nothing for every part but the last; the last gives what
  the concatenated text decodes to, as a transition or as the error of decoding it, and leaves
  the assembler empty for the next split.
\<close>

theorem assembler_complete:
  assumes "ps \<noteq> []" and "length ps < 2 ^ 32"
  shows "asm_feeds L asm_idle (split_messages tid ps) =
    (asm_idle, replicate (length ps - 1) (Inr None) @
       [bindr (decode_server_message L (concat ps)) (\<lambda>m. case m of
          SV_transition t \<Rightarrow> Inr (Some t)
        | _ \<Rightarrow> Inl (Protocol_error ''TransitionChunk: assembled message is not a Transition''))])"
proof -
  define n :: "32 word" where "n = of_nat (length ps)"
  obtain qs q where ps: "ps = qs @ [q]" using assms(1) by (cases ps rule: rev_cases) auto
  have n: "unat n = Suc (length qs)"
    using assms(2) by (simp add: n_def ps unsigned_of_nat take_bit_nat_eq_self del: of_nat_Suc)
  have "asm_feeds L asm_idle (split_messages tid ps) =
      (asm_idle, replicate (length qs) (Inr None) @ [asm_decode L (concat ps)])"
    unfolding split_messages_def n_def [symmetric]
    unfolding ps chunk_seq_snoc
    by (simp add: asm_feeds_append asm_feeds_prefix asm_feed_after n)
  then show ?thesis by (simp add: ps asm_decode_def)
qed

definition chunk_version :: json where
  "chunk_version = JObject [(''identity'', JUInt 0), (''querySet'', JUInt 0), (''ts'', JString ''AAAAAAAAAAA='')]"

definition chunk_lib :: json_lib where
  "chunk_lib = \<lparr>jl_dump = (\<lambda>_. Inr []),
     jl_parse = (\<lambda>t. if t = ''ping'' then Inr (JObject [(''type'', JString ''Ping'')])
                     else if t = ''step'' then Inr (JObject [(''endVersion'', chunk_version),
                       (''modifications'', JArray []), (''startVersion'', chunk_version),
                       (''type'', JString ''Transition'')])
                     else Inl (Json_exception ''syntax error''))\<rparr>"

lemma assembler_complete_witness:
  "asm_feeds chunk_lib asm_idle (split_messages ''t'' [''pi'', ''ng'']) =
    (asm_idle, [Inr None,
       Inl (Protocol_error ''TransitionChunk: assembled message is not a Transition'')])"
proof -
  have "decode_server_message chunk_lib ''ping'' = Inr SV_ping" by code_simp
  then show ?thesis by (subst assembler_complete) simp_all
qed

lemma assembler_sound_witness:
  "\<exists>t ps. snd (asm_feed chunk_lib
        (fst (run (asm_step chunk_lib) (asm_idle, []) [Abandon, Feed (split_messages ''t'' [''st'', ''ep''] ! 0)]))
        (split_messages ''t'' [''st'', ''ep''] ! 1)) = Inr (Some t)
     \<and> decode_server_message chunk_lib (concat ps) = Inr (SV_transition t)"
proof -
  let ?ops = "[Abandon, Feed (split_messages ''t'' [''st'', ''ep''] ! 0)]"
  let ?c = "split_messages ''t'' [''st'', ''ep''] ! 1"
  let ?t = "\<lparr>tr_start_version = initial_state_version, tr_end_version = initial_state_version,
    tr_modifications = []\<rparr>"
  have "asm_feed chunk_lib (fst (run (asm_step chunk_lib) (asm_idle, []) ?ops)) ?c = (asm_idle, Inr (Some ?t))"
    by code_simp
  then show ?thesis
    using assembler_sound [of chunk_lib ?ops ?c] by (simp add: Let_def split: prod.splits) blast
qed

end
