(* ===== verification/Client.thy ===== *)
theory Client
  imports Complex_Main Chunks BaseClient
begin

section \<open>The realtime client (\<open>client_impl\<close>, \<open>client\<close>)\<close>

text \<open>
  \<open>client_impl\<close> joins the state machine, the assembler of split transitions, one connection of a
  transport it is given, a worker thread and the callbacks of the user. Its state is guarded by
  one mutex, so the model has one step per locked section; what a section does after it has
  released the mutex is a step of its own. The threads interleave freely:
  \<^item> a section leaves its callbacks in \<open>cl_in_flight\<close> and the step \<open>run_delivery\<close> hands them over
    later, as \<open>deliver\<close> does without the lock: they run (immediate mode) or are queued for
    \<open>process_events\<close> (pumped mode);
  \<^item> \<open>attempt_connect\<close> unlocks around the call of the transport, so it is two steps, and
    \<open>cl_worker\<close> says that the worker is between them;
  \<^item> \<open>shutdown\<close> is two steps around the joining of the threads.

  Code outside the repository is an argument: the transport's answer to \<open>connect\<close>, the clocks, the
  jitter of the random generator and the token of the user's fetcher (in \<open>env\<close>). A
  \<open>std::function\<close> is an identity (\<open>callback\<close>); running it is the event recorded in
  \<open>cl_delivered\<close>. A connection and its observer slot are identified by the generation they were
  made for, and \<open>cl_wire\<close> holds the frames sent on the current connection. An exception that
  leaves a section is returned beside the state.
\<close>

subsection \<open>Configuration\<close>

type_synonym callback = nat
type_synonym time = nat   \<comment> \<open>milliseconds of the steady clock\<close>

datatype connection_state = Disconnected | Connecting | Connected

datatype delivery = Pumped | Immediate

record client_options =
  co_deployment_url :: string
  co_websocket :: bool                  \<comment> \<open>a transport is set\<close>
  co_delivery_mode :: delivery
  co_client_id :: string
  co_initial_backoff :: nat             \<comment> \<open>milliseconds, as the next two\<close>
  co_max_backoff :: nat
  co_server_inactivity_threshold :: nat

text \<open>\<open>deployment_to_ws_url\<close>. \<open>std::tolower\<close> is the one of the C locale.\<close>

definition tolower :: "char \<Rightarrow> char" where
  "tolower c = (if CHR ''A'' \<le> c \<and> c \<le> CHR ''Z'' then char_of (of_char c + 32 :: nat) else c)"

definition pop_slashes :: "string \<Rightarrow> string" where
  "pop_slashes rest = rev (dropWhile (\<lambda>c. c = CHR ''/'') (rev rest))"

definition deployment_to_ws_url :: "string \<Rightarrow> string result" where
  "deployment_to_ws_url deployment_url =
     (case find_sub deployment_url ''://'' of
        None \<Rightarrow> Inl (Invalid_argument (''convex: deployment URL has no scheme: '' @ deployment_url))
      | Some scheme_end \<Rightarrow>
          (let scheme = List.map tolower (take scheme_end deployment_url) in
           bindr (if scheme = ''https'' \<or> scheme = ''wss'' then Inr ''wss''
                  else if scheme = ''http'' \<or> scheme = ''ws'' then Inr ''ws''
                  else Inl (Invalid_argument (''convex: unsupported deployment URL scheme: '' @ scheme)))
             (\<lambda>ws_scheme.
                let rest = pop_slashes (drop (scheme_end + 3) deployment_url) in
                if rest = [] then Inl (Invalid_argument ''convex: deployment URL has no host'')
                else Inr (ws_scheme @ ''://'' @ rest @ ''/api/sync''))))"

subsection \<open>State\<close>

datatype event =
    Ev_state callback connection_state
  | Ev_update callback function_result
  | Ev_result callback function_result
  | Ev_log callback log_entry
  | Ev_auth_failure callback string

record sub_entry =
  se_index :: "64 word"
  se_cb :: callback

text \<open>
  The worker is in its loop, waiting on the condition variable up to a deadline, in the call of
  the transport for a generation (with the events the attempt has produced so far), or gone.
\<close>

datatype worker =
    W_running
  | W_waiting "time option"
  | W_connecting "64 word" "event list"
  | W_done

record client_state =
  cl_opts :: client_options
  cl_ws_url :: string
  cl_ws_headers :: "(string \<times> string) list"
  cl_base :: base_client
  cl_chunk_assembler :: assembler
  cl_conn :: "64 word option"
  cl_conn_slot :: "64 word option"
  cl_conn_gen :: "64 word"
  cl_socket_open :: bool
  cl_pending_open :: bool
  cl_state :: connection_state
  cl_last_close_reason :: string
  cl_fetcher :: "callback option"
  cl_retries :: "32 word"
  cl_stopping :: bool
  cl_subs :: "(query_id, sub_entry list) omap"
  cl_pending :: "(request_id, callback) omap"
  cl_state_listeners :: "callback list"
  cl_auth_failure_listeners :: "callback list"
  cl_log_listeners :: "callback list"
  cl_consecutive_auth_errors :: "32 word"
  cl_event_queue :: "event list"
  cl_reconnect_scheduled :: bool
  cl_reconnect_at :: time
  cl_last_server_msg :: time
  cl_garbage :: "(64 word option \<times> 64 word option) list"
  cl_worker :: worker
  cl_in_flight :: "event list list"       \<comment> \<open>lists handed to \<open>deliver\<close>, not yet delivered\<close>
  cl_delivered :: "event list"            \<comment> \<open>callbacks that have run\<close>
  cl_orphaned :: "callback list"          \<comment> \<open>a local variable of \<open>shutdown\<close>\<close>
  cl_wire :: "string list"                \<comment> \<open>frames sent on \<open>conn\<close>\<close>

text \<open>What a step gets from outside: the clocks, the fetched token, the jitter of the backoff.\<close>

record env =
  ev_now :: time
  ev_wall_clock_ms :: "64 word"
  ev_fetched :: "auth_token option"
  ev_jitter :: rat

text \<open>The constructor and \<open>start\<close>: no connection yet, the first attempt is due at once.\<close>

definition new_client :: "client_options \<Rightarrow> string \<Rightarrow> time \<Rightarrow> client_state result" where
  "new_client opts sid now =
     (if \<not> co_websocket opts then Inl (Invalid_argument ''convex: websocket transport required'')
      else bindr (deployment_to_ws_url (co_deployment_url opts)) (\<lambda>ws_url.
        Inr \<lparr>cl_opts = opts, cl_ws_url = ws_url,
             cl_ws_headers = [(''Convex-Client'', co_client_id opts)],
             cl_base = new_base_client sid, cl_chunk_assembler = asm_idle,
             cl_conn = None, cl_conn_slot = None, cl_conn_gen = 0,
             cl_socket_open = False, cl_pending_open = False, cl_state = Disconnected,
             cl_last_close_reason = ''InitialConnect'', cl_fetcher = None, cl_retries = 0,
             cl_stopping = False, cl_subs = [], cl_pending = [], cl_state_listeners = [],
             cl_auth_failure_listeners = [], cl_log_listeners = [], cl_consecutive_auth_errors = 0,
             cl_event_queue = [], cl_reconnect_scheduled = True, cl_reconnect_at = now,
             cl_last_server_msg = 0, cl_garbage = [], cl_worker = W_running, cl_in_flight = [],
             cl_delivered = [], cl_orphaned = [], cl_wire = []\<rparr>))"

subsection \<open>Delivery of events\<close>

text \<open>\<open>deliver\<close>: the list leaves the section; \<open>run_delivery\<close> is the rest of it, without the lock.\<close>

definition deliver :: "event list \<Rightarrow> client_state \<Rightarrow> client_state" where
  "deliver out s = (if out = [] then s else s\<lparr>cl_in_flight := cl_in_flight s @ [out]\<rparr>)"

definition hand_over :: "event list \<Rightarrow> client_state \<Rightarrow> client_state" where
  "hand_over out s =
     (case co_delivery_mode (cl_opts s) of
        Immediate \<Rightarrow> s\<lparr>cl_delivered := cl_delivered s @ out\<rparr>
      | Pumped \<Rightarrow> s\<lparr>cl_event_queue := cl_event_queue s @ out\<rparr>)"

definition run_delivery :: "nat \<Rightarrow> client_state \<Rightarrow> client_state" where
  "run_delivery n s =
     (if n < length (cl_in_flight s)
      then hand_over (cl_in_flight s ! n) (s\<lparr>cl_in_flight := drop_nth n (cl_in_flight s)\<rparr>)
      else s)"

text \<open>\<open>deliver_later\<close>: under the lock; in immediate mode a detached thread runs the list.\<close>

definition deliver_later :: "event list \<Rightarrow> client_state \<Rightarrow> client_state" where
  "deliver_later out s =
     (case co_delivery_mode (cl_opts s) of
        Immediate \<Rightarrow> s\<lparr>cl_in_flight := cl_in_flight s @ [out]\<rparr>
      | Pumped \<Rightarrow> s\<lparr>cl_event_queue := cl_event_queue s @ out\<rparr>)"

definition push_state_event :: "client_state \<Rightarrow> event list \<Rightarrow> event list" where
  "push_state_event s out = out @ map (\<lambda>l. Ev_state l (cl_state s)) (cl_state_listeners s)"

text \<open>Completions: the callback of each request is moved out of the table and called once.\<close>

fun complete_pending ::
  "(request_id \<times> function_result) list \<Rightarrow> (request_id, callback) omap
    \<Rightarrow> event list \<times> (request_id, callback) omap"
where
  "complete_pending [] p = ([], p)"
| "complete_pending ((rid, r) # rs) p =
     (case map_of p rid of
        None \<Rightarrow> complete_pending rs p
      | Some cb \<Rightarrow> (let (evs, p') = complete_pending rs (om_erase rid p) in (Ev_result cb r # evs, p')))"

subsection \<open>The connection\<close>

text \<open>
  \<open>notify_all\<close> wakes the worker when it waits. The jitter and the product are computed in floating
  point by the code; the model computes them exactly.
\<close>

definition notify_all :: "client_state \<Rightarrow> client_state" where
  "notify_all s = (case cl_worker s of W_waiting _ \<Rightarrow> s\<lparr>cl_worker := W_running\<rparr> | _ \<Rightarrow> s)"

definition backoff_capped :: "client_options \<Rightarrow> 32 word \<Rightarrow> nat" where
  "backoff_capped opts attempt = min (co_initial_backoff opts * 2 ^ unat attempt) (co_max_backoff opts)"

definition backoff_delay :: "client_options \<Rightarrow> rat \<Rightarrow> 32 word \<Rightarrow> nat" where
  "backoff_delay opts jitter attempt = nat \<lfloor>of_nat (backoff_capped opts attempt) * jitter\<rfloor>"

definition begin_disconnect :: "env \<Rightarrow> string \<Rightarrow> client_state \<times> event list \<Rightarrow> client_state \<times> event list" where
  "begin_disconnect E reason = (\<lambda>(s, out).
     (let s1 = s\<lparr>cl_conn_gen := cl_conn_gen s + 1,
                 cl_chunk_assembler := asm_abandon (cl_chunk_assembler s),
                 cl_garbage := (if cl_conn s \<noteq> None \<or> cl_conn_slot s \<noteq> None
                                then cl_garbage s @ [(cl_conn s, cl_conn_slot s)] else cl_garbage s),
                 cl_conn := None, cl_conn_slot := None, cl_wire := [],
                 cl_socket_open := False, cl_pending_open := False\<rparr>;
          (s2, out2) = (if cl_state s1 \<noteq> Disconnected
                        then (let s' = s1\<lparr>cl_state := Disconnected\<rparr> in (s', push_state_event s' out))
                        else (s1, out));
          s3 = s2\<lparr>cl_last_close_reason := reason\<rparr>;
          refreshed = (if cl_fetcher s3 \<noteq> None then ev_fetched E else None);
          (b, failed_actions) = restart refreshed (cl_base s3);
          (evs, p) = complete_pending failed_actions (cl_pending s3)
      in (notify_all (s3\<lparr>cl_base := b, cl_pending := p, cl_reconnect_scheduled := True,
             cl_reconnect_at := ev_now E + backoff_delay (cl_opts s3) (ev_jitter E) (cl_retries s3),
             cl_retries := cl_retries s3 + 1\<rparr>),
          out2 @ evs)))"

text \<open>
  \<open>drain_outgoing\<close>: each message is popped, then encoded, then sent. When the encoder throws, the
  messages already popped are gone from the queue.
\<close>

function drain_loop :: "json_lib \<Rightarrow> base_client \<Rightarrow> base_client \<times> string list \<times> exn option" where
  "drain_loop L b =
     (case pop_next_message b of
        (b', None) \<Rightarrow> (b', [], None)
      | (b', Some m) \<Rightarrow>
          (case encode_client_message L m of
             Inl e \<Rightarrow> (b', [], Some e)
           | Inr frame \<Rightarrow> (let (b'', frames, e) = drain_loop L b' in (b'', frame # frames, e))))"
  by pat_completeness auto

termination
  by (relation "measure (\<lambda>(L, b). length (bc_outgoing b))")
     (auto simp: pop_next_message_def split: list.splits)

declare drain_loop.simps [simp del]

definition drain_outgoing :: "json_lib \<Rightarrow> client_state \<Rightarrow> client_state \<times> exn option" where
  "drain_outgoing L s =
     (if \<not> cl_socket_open s \<or> cl_conn s = None then (s, None)
      else (let (b, frames, e) = drain_loop L (cl_base s)
            in (s\<lparr>cl_base := b, cl_wire := cl_wire s @ frames\<rparr>, e)))"

definition handle_open ::
  "json_lib \<Rightarrow> env \<Rightarrow> client_state \<times> event list \<Rightarrow> client_state \<times> event list \<times> exn option"
where
  "handle_open L E = (\<lambda>(s, out).
     (let s1 = s\<lparr>cl_last_server_msg := ev_now E, cl_state := Connected\<rparr>;
          out1 = push_state_event s1 out;
          (b, m) = make_connect_message (cl_last_close_reason s1) (Some (ev_wall_clock_ms E)) (cl_base s1);
          s2 = s1\<lparr>cl_base := b\<rparr>
      in case encode_client_message L (CM_connect m) of
           Inl e \<Rightarrow> (s2, out1, Some e)
         | Inr frame \<Rightarrow>
             (let (s3, e) = drain_outgoing L (s2\<lparr>cl_wire := cl_wire s2 @ [frame]\<rparr>) in (s3, out1, e))))"

subsection \<open>Transport callbacks\<close>

definition ws_open :: "json_lib \<Rightarrow> env \<Rightarrow> 64 word \<Rightarrow> client_state \<Rightarrow> client_state \<times> exn option" where
  "ws_open L E gen s =
     (if cl_stopping s \<or> gen \<noteq> cl_conn_gen s then (s, None)
      else (let s1 = s\<lparr>cl_socket_open := True\<rparr> in
            if cl_conn s1 = None then (s1\<lparr>cl_pending_open := True\<rparr>, None)
            else (case handle_open L E (s1, []) of
                    (s2, out, Some e) \<Rightarrow> (s2, Some e)
                  | (s2, out, None) \<Rightarrow> (deliver out (notify_all s2), None))))"

text \<open>The branch of an AuthError: give up on the token when refreshing it cannot help.\<close>

definition auth_rejected :: "receive_result \<Rightarrow> string \<Rightarrow> client_state \<times> event list \<Rightarrow> client_state \<times> event list" where
  "auth_rejected r reason = (\<lambda>(s, out).
     (let s1 = s\<lparr>cl_consecutive_auth_errors := cl_consecutive_auth_errors s + 1\<rparr>;
          terminal = (rr_auth_update_attempted r \<or> cl_fetcher s1 = None
                      \<or> cl_consecutive_auth_errors s1 \<ge> 2)
      in if terminal
         then (s1\<lparr>cl_base := set_auth auth_token_none (cl_base s1), cl_fetcher := None,
                  cl_consecutive_auth_errors := 0\<rparr>,
               out @ map (\<lambda>l. Ev_auth_failure l reason) (cl_auth_failure_listeners s1))
         else (s1, out)))"

definition log_events :: "client_state \<Rightarrow> log_entry list \<Rightarrow> event list" where
  "log_events s entries = concat (map (\<lambda>entry. map (\<lambda>l. Ev_log l entry) (cl_log_listeners s)) entries)"

definition update_events :: "client_state \<Rightarrow> query_id list \<Rightarrow> event list" where
  "update_events s changed = concat (map (\<lambda>qid.
     case latest_result (cl_base s) qid of
       None \<Rightarrow> []
     | Some fr \<Rightarrow>
         (case map_of (cl_subs s) qid of
            None \<Rightarrow> []
          | Some entries \<Rightarrow> map (\<lambda>e. Ev_update (se_cb e) fr) entries)) changed)"

text \<open>\<open>ws_message\<close> from \<open>base.receive_message(msg)\<close> on.\<close>

definition dispatch_message ::
  "json_lib \<Rightarrow> env \<Rightarrow> server_message \<Rightarrow> client_state \<Rightarrow> client_state \<times> exn option"
where
  "dispatch_message L E msg s =
     (case receive_message msg (cl_base s) of
        Inl e \<Rightarrow> (s, Some e)
      | Inr (b, r) \<Rightarrow>
          (let s1 = s\<lparr>cl_base := b\<rparr>; out = log_events s1 (rr_log_entries r) in
           case rr_reconnect_reason r of
             Some reason \<Rightarrow>
               (let (s2, out2) = (if rr_auth_error r then auth_rejected r reason (s1, out) else (s1, out));
                    (s3, out3) = begin_disconnect E reason (s2, out2)
                in (deliver out3 s3, None))
           | None \<Rightarrow>
               (let updates = update_events s1 (rr_changed_queries r);
                    (evs, p) = complete_pending (rr_completed_requests r) (cl_pending s1);
                    s2 = s1\<lparr>cl_pending := p\<rparr>;
                    s3 = (if rr_state_changed r \<and> has_synced_past_last_restart (cl_base s2)
                          then s2\<lparr>cl_retries := 0, cl_consecutive_auth_errors := 0\<rparr> else s2)
                in case drain_outgoing L s3 of
                     (s4, Some e) \<Rightarrow> (s4, Some e)
                   | (s4, None) \<Rightarrow> (deliver (out @ updates @ evs) s4, None))))"

definition protocol_failure :: "env \<Rightarrow> string \<Rightarrow> client_state \<Rightarrow> client_state \<times> exn option" where
  "protocol_failure E w s =
     (let (s1, out) = begin_disconnect E (''ProtocolError: '' @ w) (s, []) in (deliver_later out s1, None))"

definition ws_message ::
  "json_lib \<Rightarrow> env \<Rightarrow> 64 word \<Rightarrow> string \<Rightarrow> client_state \<Rightarrow> client_state \<times> exn option"
where
  "ws_message L E gen t s =
     (if cl_stopping s \<or> gen \<noteq> cl_conn_gen s then (s, None)
      else (let s0 = s\<lparr>cl_last_server_msg := ev_now E\<rparr> in
        case decode_server_message L t of
          Inl (Protocol_error w) \<Rightarrow> protocol_failure E w s0
        | Inl e \<Rightarrow> (s0, Some e)
        | Inr (SV_transition_chunk c) \<Rightarrow>
            (case asm_feed L (cl_chunk_assembler s0) c of
               (a, Inl (Protocol_error w)) \<Rightarrow> protocol_failure E w (s0\<lparr>cl_chunk_assembler := a\<rparr>)
             | (a, Inl e) \<Rightarrow> (s0\<lparr>cl_chunk_assembler := a\<rparr>, Some e)
             | (a, Inr None) \<Rightarrow> (s0\<lparr>cl_chunk_assembler := a\<rparr>, None)
             | (a, Inr (Some tr)) \<Rightarrow> dispatch_message L E (SV_transition tr) (s0\<lparr>cl_chunk_assembler := a\<rparr>))
        | Inr SV_ping \<Rightarrow> dispatch_message L E SV_ping s0
        | Inr msg \<Rightarrow>
            dispatch_message L E msg (s0\<lparr>cl_chunk_assembler := asm_abandon (cl_chunk_assembler s0)\<rparr>)))"

definition ws_close :: "env \<Rightarrow> 64 word \<Rightarrow> string \<Rightarrow> client_state \<Rightarrow> client_state" where
  "ws_close E gen reason s =
     (if cl_stopping s \<or> gen \<noteq> cl_conn_gen s then s
      else (let (s1, out) = begin_disconnect E reason (s, []) in deliver out s1))"

subsection \<open>The worker\<close>

text \<open>\<open>attempt_connect\<close> up to the call of the transport, and after it.\<close>

definition attempt_begin :: "client_state \<Rightarrow> client_state" where
  "attempt_begin s =
     (let s1 = s\<lparr>cl_state := Connecting, cl_conn_gen := cl_conn_gen s + 1\<rparr>
      in s1\<lparr>cl_worker := W_connecting (cl_conn_gen s1) (push_state_event s1 [])\<rparr>)"

datatype connect_result = Conn_made | Conn_null | Conn_threw string

definition attempt_end ::
  "json_lib \<Rightarrow> env \<Rightarrow> 64 word \<Rightarrow> event list \<Rightarrow> connect_result \<Rightarrow> client_state \<Rightarrow> client_state \<times> exn option"
where
  "attempt_end L E gen out r s =
     (let s0 = s\<lparr>cl_worker := W_running\<rparr> in
      if cl_stopping s0 \<or> gen \<noteq> cl_conn_gen s0
      then (deliver out (if r = Conn_made then s0\<lparr>cl_garbage := cl_garbage s0 @ [(Some gen, Some gen)]\<rparr> else s0),
            None)
      else if r \<noteq> Conn_made
      then (let failure = (case r of Conn_threw w \<Rightarrow> w | _ \<Rightarrow> []);
                (s1, out1) = begin_disconnect E
                   (if failure = [] then ''ConnectFailed'' else ''ConnectFailed: '' @ failure)
                   (s0\<lparr>cl_conn_slot := Some gen\<rparr>, out)
            in (deliver out1 s1, None))
      else (let s1 = s0\<lparr>cl_conn := Some gen, cl_conn_slot := Some gen, cl_wire := []\<rparr> in
            if cl_pending_open s1
            then (case handle_open L E (s1\<lparr>cl_pending_open := False, cl_socket_open := True\<rparr>, out) of
                    (s2, out2, Some e) \<Rightarrow> (s2, Some e)
                  | (s2, out2, None) \<Rightarrow> (deliver out2 (notify_all s2), None))
            else (deliver out (notify_all s1), None)))"

text \<open>
  One pass of \<open>worker_loop\<close>. The dead connections are destroyed without the lock. Waking up, at
  the deadline, by a notification or spuriously, is a step to \<open>W_running\<close>.
\<close>

definition inactive_at :: "client_state \<Rightarrow> time" where
  "inactive_at s = cl_last_server_msg s + co_server_inactivity_threshold (cl_opts s)"

definition worker_deadline :: "client_state \<Rightarrow> time option" where
  "worker_deadline s =
     (let deadline = (if cl_reconnect_scheduled s then Some (cl_reconnect_at s) else None) in
      if cl_socket_open s
      then (case deadline of
              None \<Rightarrow> Some (inactive_at s)
            | Some d \<Rightarrow> if inactive_at s < d then Some (inactive_at s) else deadline)
      else deadline)"

definition worker_pass :: "env \<Rightarrow> client_state \<Rightarrow> client_state" where
  "worker_pass E s =
     (if cl_worker s \<noteq> W_running then s
      else if cl_stopping s then s\<lparr>cl_worker := W_done\<rparr>
      else if cl_garbage s \<noteq> [] then s\<lparr>cl_garbage := []\<rparr>
      else if cl_reconnect_scheduled s \<and> ev_now E \<ge> cl_reconnect_at s
      then attempt_begin (s\<lparr>cl_reconnect_scheduled := False\<rparr>)
      else if cl_socket_open s \<and> ev_now E \<ge> inactive_at s
      then (let (s1, out) = begin_disconnect E ''InactiveServer'' (s, []) in deliver out s1)
      else s\<lparr>cl_worker := W_waiting (worker_deadline s)\<rparr>)"

definition worker_wake :: "client_state \<Rightarrow> client_state" where
  "worker_wake s = notify_all s"

definition connect_returns :: "json_lib \<Rightarrow> env \<Rightarrow> connect_result \<Rightarrow> client_state \<Rightarrow> client_state \<times> exn option" where
  "connect_returns L E r s =
     (case cl_worker s of
        W_connecting gen out \<Rightarrow> attempt_end L E gen out r s
      | _ \<Rightarrow> (s, None))"

subsection \<open>Public operations\<close>

definition do_subscribe ::
  "json_lib \<Rightarrow> string \<Rightarrow> value_object \<Rightarrow> callback \<Rightarrow> client_state \<Rightarrow> client_state \<times> subscriber_id result"
where
  "do_subscribe L path args cb s =
     (case subscribe L path args (cl_base s) of
        (b, Inl e) \<Rightarrow> (s\<lparr>cl_base := b\<rparr>, Inl e)
      | (b, Inr sid) \<Rightarrow>
          (let out = (case latest_result b (si_query sid) of
                        None \<Rightarrow> [] | Some fr \<Rightarrow> [Ev_update cb fr]);
               entries = (case map_of (cl_subs s) (si_query sid) of None \<Rightarrow> [] | Some es \<Rightarrow> es);
               s1 = s\<lparr>cl_base := b,
                      cl_subs := om_insert (si_query sid)
                        (entries @ [\<lparr>se_index = si_index sid, se_cb = cb\<rparr>]) (cl_subs s)\<rparr>
           in case drain_outgoing L s1 of
                (s2, Some e) \<Rightarrow> (s2, Inl e)
              | (s2, None) \<Rightarrow> (deliver out s2, Inr sid)))"

definition drop_entry :: "subscriber_id \<Rightarrow> (query_id, sub_entry list) omap \<Rightarrow> (query_id, sub_entry list) omap" where
  "drop_entry sid subs =
     (case map_of subs (si_query sid) of
        None \<Rightarrow> subs
      | Some entries \<Rightarrow>
          (let rest = filter (\<lambda>e. se_index e \<noteq> si_index sid) entries
           in if rest = [] then om_erase (si_query sid) subs else om_insert (si_query sid) rest subs))"

definition do_unsubscribe :: "json_lib \<Rightarrow> subscriber_id \<Rightarrow> client_state \<Rightarrow> client_state \<times> exn option" where
  "do_unsubscribe L sid s =
     (if cl_stopping s then (s, None)
      else drain_outgoing L (s\<lparr>cl_subs := drop_entry sid (cl_subs s),
                              cl_base := unsubscribe sid (cl_base s)\<rparr>))"

definition shut_down_error :: function_result where
  "shut_down_error = FR_error ''convex: client is shut down''"

definition do_request ::
  "json_lib \<Rightarrow> bool \<Rightarrow> string \<Rightarrow> value_object \<Rightarrow> callback \<Rightarrow> client_state \<Rightarrow> client_state \<times> exn option"
where
  "do_request L is_mutation path args cb s =
     (if cl_stopping s
      then (s\<lparr>cl_delivered := cl_delivered s @ [Ev_result cb shut_down_error]\<rparr>, None)
      else (case (if is_mutation then mutation L path args (cl_base s) else action L path args (cl_base s)) of
              (b, Inl e) \<Rightarrow> (s\<lparr>cl_base := b\<rparr>, Some e)
            | (b, Inr rid) \<Rightarrow>
                drain_outgoing L (s\<lparr>cl_base := b, cl_pending := om_emplace rid cb (cl_pending s)\<rparr>)))"

definition do_set_auth :: "json_lib \<Rightarrow> auth_token \<Rightarrow> callback option \<Rightarrow> client_state \<Rightarrow> client_state \<times> exn option" where
  "do_set_auth L tok f s =
     (if cl_stopping s then (s, None)
      else drain_outgoing L (s\<lparr>cl_fetcher := f, cl_consecutive_auth_errors := 0,
                              cl_base := set_auth tok (cl_base s)\<rparr>))"

definition do_process_events :: "client_state \<Rightarrow> client_state \<times> nat" where
  "do_process_events s =
     (s\<lparr>cl_event_queue := [], cl_delivered := cl_delivered s @ cl_event_queue s\<rparr>,
      length (cl_event_queue s))"

text \<open>
  \<open>shutdown\<close> up to the joining of the threads, and after it: what is queued is delivered, then the
  requests that are left fail.
\<close>

definition shutdown_begin :: "client_state \<Rightarrow> client_state" where
  "shutdown_begin s =
     (if cl_stopping s then s
      else notify_all (s\<lparr>cl_stopping := True, cl_conn_gen := cl_conn_gen s + 1, cl_conn := None,
             cl_conn_slot := None, cl_wire := [], cl_socket_open := False,
             cl_orphaned := map snd (cl_pending s), cl_pending := [], cl_subs := []\<rparr>))"

definition shutdown_end :: "client_state \<Rightarrow> client_state" where
  "shutdown_end s =
     s\<lparr>cl_garbage := [], cl_event_queue := [], cl_orphaned := [],
       cl_delivered := cl_delivered s @ cl_event_queue s
         @ map (\<lambda>cb. Ev_result cb shut_down_error) (cl_orphaned s)\<rparr>"

definition on_state_change :: "callback \<Rightarrow> client_state \<Rightarrow> client_state" where
  "on_state_change l s = s\<lparr>cl_state_listeners := cl_state_listeners s @ [l]\<rparr>"

definition on_auth_failure :: "callback \<Rightarrow> client_state \<Rightarrow> client_state" where
  "on_auth_failure l s = s\<lparr>cl_auth_failure_listeners := cl_auth_failure_listeners s @ [l]\<rparr>"

definition on_log_lines :: "callback \<Rightarrow> client_state \<Rightarrow> client_state" where
  "on_log_lines l s = s\<lparr>cl_log_listeners := cl_log_listeners s @ [l]\<rparr>"

record connection_info =
  ci_state :: connection_state
  ci_retries :: "32 word"
  ci_inflight_mutations :: nat
  ci_inflight_actions :: nat
  ci_has_synced_past_last_restart :: bool
  ci_last_close_reason :: string
  ci_connection_count :: "32 word"

definition info :: "client_state \<Rightarrow> connection_info" where
  "info s = \<lparr>ci_state = cl_state s, ci_retries = cl_retries s,
     ci_inflight_mutations = inflight_mutations (cl_base s),
     ci_inflight_actions = inflight_actions (cl_base s),
     ci_has_synced_past_last_restart = has_synced_past_last_restart (cl_base s),
     ci_last_close_reason = cl_last_close_reason s,
     ci_connection_count = bc_connection_count (cl_base s)\<rparr>"

subsection \<open>Trailing slashes\<close>

lemma pop_slashes_spec:
  "\<exists>n. rest = pop_slashes rest @ replicate n CHR ''/''" "pop_slashes rest = [] \<or> last (pop_slashes rest) \<noteq> CHR ''/''"
proof -
  let ?P = "\<lambda>c. c = CHR ''/''"
  have "takeWhile ?P (rev rest) = replicate (length (takeWhile ?P (rev rest))) CHR ''/''"
    by (rule replicate_length_same [symmetric]) (auto dest: set_takeWhileD)
  then have "rev rest = replicate (length (takeWhile ?P (rev rest))) CHR ''/'' @ dropWhile ?P (rev rest)"
    by (metis takeWhile_dropWhile_id)
  then have "rest = pop_slashes rest @ replicate (length (takeWhile ?P (rev rest))) CHR ''/''"
    unfolding pop_slashes_def by (metis rev_append rev_replicate rev_rev_ident)
  then show "\<exists>n. rest = pop_slashes rest @ replicate n CHR ''/''" by blast
  show "pop_slashes rest = [] \<or> last (pop_slashes rest) \<noteq> CHR ''/''"
    using hd_dropWhile [of ?P "rev rest"] by (auto simp: pop_slashes_def last_rev)
qed

lemma pop_slashes_host:
  assumes "host \<noteq> []" "last host \<noteq> CHR ''/''"
  shows "pop_slashes (host @ replicate n CHR ''/'') = host"
proof -
  have "dropWhile (\<lambda>c. c = CHR ''/'') (replicate n CHR ''/'' @ rev host) = rev host"
    using assms by (induction n) (auto simp: dropWhile_eq_self_iff hd_rev)
  then show ?thesis by (simp add: pop_slashes_def)
qed

end
