(* ===== verification/ClientRuns.thy ===== *)
theory ClientRuns
  imports Client Session
begin

section \<open>Runs of the realtime client\<close>

text \<open>
  A run of the client is any interleaving of its locked sections. An operation is enabled when
  the outside keeps its documented contract: a transport calls the observer it was given, opens a
  connection at most once, the steady clock does not go back, and no exception leaves a callback
  of the transport or a pass of the worker. A public operation may throw while it serializes its
  arguments.
\<close>

datatype client_op =
    Ws_open env "64 word"
  | Ws_message env "64 word" string
  | Ws_close env "64 word" string
  | Worker_pass env
  | Worker_wake
  | Connect_returns env connect_result
  | Run_delivery nat
  | Do_subscribe string value_object callback
  | Do_unsubscribe subscriber_id
  | Do_request bool string value_object callback
  | Do_set_auth auth_token "callback option"
  | Process_events
  | Shutdown_begin
  | Shutdown_end
  | On_state_change callback
  | On_auth_failure callback
  | On_log_lines callback

definition thrown :: "'a result \<Rightarrow> exn option" where
  "thrown r = (case r of Inl e \<Rightarrow> Some e | Inr _ \<Rightarrow> None)"

fun client_exec :: "json_lib \<Rightarrow> client_state \<Rightarrow> client_op \<Rightarrow> client_state \<times> exn option" where
  "client_exec L s (Ws_open E gen) = ws_open L E gen s"
| "client_exec L s (Ws_message E gen t) = ws_message L E gen t s"
| "client_exec L s (Ws_close E gen reason) = (ws_close E gen reason s, None)"
| "client_exec L s (Worker_pass E) = (worker_pass E s, None)"
| "client_exec L s Worker_wake = (worker_wake s, None)"
| "client_exec L s (Connect_returns E r) = connect_returns L E r s"
| "client_exec L s (Run_delivery n) = (run_delivery n s, None)"
| "client_exec L s (Do_subscribe p args cb) =
     (fst (do_subscribe L p args cb s), thrown (snd (do_subscribe L p args cb s)))"
| "client_exec L s (Do_unsubscribe sid) = do_unsubscribe L sid s"
| "client_exec L s (Do_request m p args cb) = do_request L m p args cb s"
| "client_exec L s (Do_set_auth tok f) = do_set_auth L tok f s"
| "client_exec L s Process_events = (fst (do_process_events s), None)"
| "client_exec L s Shutdown_begin = (shutdown_begin s, None)"
| "client_exec L s Shutdown_end = (shutdown_end s, None)"
| "client_exec L s (On_state_change l) = (on_state_change l s, None)"
| "client_exec L s (On_auth_failure l) = (on_auth_failure l s, None)"
| "client_exec L s (On_log_lines l) = (on_log_lines l s, None)"

definition client_step :: "json_lib \<Rightarrow> client_state \<Rightarrow> client_op \<Rightarrow> client_state" where
  "client_step L s op = fst (client_exec L s op)"

text \<open>The observer of generation \<open>gen\<close> is alive: the connection has it, or \<open>connect\<close> is running.\<close>

definition has_slot :: "client_state \<Rightarrow> 64 word \<Rightarrow> bool" where
  "has_slot s gen \<longleftrightarrow> cl_conn_slot s = Some gen
     \<or> (case cl_worker s of W_connecting g _ \<Rightarrow> g = gen | _ \<Rightarrow> False)"

fun op_enabled :: "json_lib \<Rightarrow> client_state \<Rightarrow> client_op \<Rightarrow> bool" where
  "op_enabled L s (Ws_open E gen) \<longleftrightarrow>
     gen = cl_conn_gen s \<longrightarrow> has_slot s gen \<and> \<not> cl_socket_open s \<and> cl_last_server_msg s \<le> ev_now E"
| "op_enabled L s (Ws_message E gen t) \<longleftrightarrow>
     gen = cl_conn_gen s \<longrightarrow> has_slot s gen \<and> cl_last_server_msg s \<le> ev_now E"
| "op_enabled L s (Ws_close E gen reason) \<longleftrightarrow> gen = cl_conn_gen s \<longrightarrow> has_slot s gen"
| "op_enabled L s (Connect_returns E r) \<longleftrightarrow> cl_last_server_msg s \<le> ev_now E"
| "op_enabled L s (Do_subscribe p args cb) \<longleftrightarrow> subscribe_ok (cl_base s)"
| "op_enabled L s (Do_request m p args cb) \<longleftrightarrow> request_id_free (cl_base s)"
| "op_enabled L s Shutdown_end \<longleftrightarrow> cl_stopping s \<and> cl_worker s = W_done
     \<and> (co_delivery_mode (cl_opts s) = Pumped \<longrightarrow> cl_in_flight s = [])"
| "op_enabled L s _ \<longleftrightarrow> True"

text \<open>Only the serialization of the arguments of a public operation may throw.\<close>

fun may_throw :: "json_lib \<Rightarrow> client_op \<Rightarrow> bool" where
  "may_throw L (Do_subscribe p args cb) \<longleftrightarrow> \<not> is_ok (serialize_args L args)"
| "may_throw L (Do_request m p args cb) \<longleftrightarrow> \<not> is_ok (serialize_args L args)"
| "may_throw L _ \<longleftrightarrow> False"

definition client_ok :: "json_lib \<Rightarrow> client_state \<Rightarrow> client_op \<Rightarrow> bool" where
  "client_ok L s op \<longleftrightarrow> op_enabled L s op \<and> (snd (client_exec L s op) = None \<or> may_throw L op)"

subsection \<open>The helpers in closed form\<close>

lemma notify_all_simps [simp]:
  "cl_opts (notify_all s) = cl_opts s" "cl_base (notify_all s) = cl_base s"
  "cl_chunk_assembler (notify_all s) = cl_chunk_assembler s"
  "cl_conn (notify_all s) = cl_conn s" "cl_conn_slot (notify_all s) = cl_conn_slot s"
  "cl_conn_gen (notify_all s) = cl_conn_gen s" "cl_socket_open (notify_all s) = cl_socket_open s"
  "cl_pending_open (notify_all s) = cl_pending_open s" "cl_state (notify_all s) = cl_state s"
  "cl_last_close_reason (notify_all s) = cl_last_close_reason s"
  "cl_fetcher (notify_all s) = cl_fetcher s" "cl_retries (notify_all s) = cl_retries s"
  "cl_stopping (notify_all s) = cl_stopping s" "cl_subs (notify_all s) = cl_subs s"
  "cl_pending (notify_all s) = cl_pending s"
  "cl_consecutive_auth_errors (notify_all s) = cl_consecutive_auth_errors s"
  "cl_event_queue (notify_all s) = cl_event_queue s"
  "cl_reconnect_scheduled (notify_all s) = cl_reconnect_scheduled s"
  "cl_reconnect_at (notify_all s) = cl_reconnect_at s"
  "cl_last_server_msg (notify_all s) = cl_last_server_msg s"
  "cl_garbage (notify_all s) = cl_garbage s" "cl_in_flight (notify_all s) = cl_in_flight s"
  "cl_delivered (notify_all s) = cl_delivered s" "cl_orphaned (notify_all s) = cl_orphaned s"
  "cl_wire (notify_all s) = cl_wire s"
  "cl_state_listeners (notify_all s) = cl_state_listeners s"
  "cl_log_listeners (notify_all s) = cl_log_listeners s"
  "cl_auth_failure_listeners (notify_all s) = cl_auth_failure_listeners s"
  by (simp_all add: notify_all_def split: worker.split)

lemma notify_all_worker:
  "cl_worker (notify_all s) = (case cl_worker s of W_waiting _ \<Rightarrow> W_running | w \<Rightarrow> w)"
  by (simp add: notify_all_def split: worker.split)

lemma deliver_simps [simp]:
  "cl_opts (deliver out s) = cl_opts s" "cl_base (deliver out s) = cl_base s"
  "cl_conn (deliver out s) = cl_conn s" "cl_conn_slot (deliver out s) = cl_conn_slot s"
  "cl_conn_gen (deliver out s) = cl_conn_gen s" "cl_socket_open (deliver out s) = cl_socket_open s"
  "cl_pending_open (deliver out s) = cl_pending_open s" "cl_state (deliver out s) = cl_state s"
  "cl_stopping (deliver out s) = cl_stopping s" "cl_subs (deliver out s) = cl_subs s"
  "cl_pending (deliver out s) = cl_pending s" "cl_worker (deliver out s) = cl_worker s"
  "cl_event_queue (deliver out s) = cl_event_queue s"
  "cl_reconnect_scheduled (deliver out s) = cl_reconnect_scheduled s"
  "cl_reconnect_at (deliver out s) = cl_reconnect_at s"
  "cl_last_server_msg (deliver out s) = cl_last_server_msg s"
  "cl_garbage (deliver out s) = cl_garbage s" "cl_delivered (deliver out s) = cl_delivered s"
  "cl_orphaned (deliver out s) = cl_orphaned s" "cl_wire (deliver out s) = cl_wire s"
  "cl_fetcher (deliver out s) = cl_fetcher s" "cl_retries (deliver out s) = cl_retries s"
  "cl_consecutive_auth_errors (deliver out s) = cl_consecutive_auth_errors s"
  by (simp_all add: deliver_def)

lemma deliver_later_simps [simp]:
  "cl_opts (deliver_later out s) = cl_opts s" "cl_base (deliver_later out s) = cl_base s"
  "cl_conn (deliver_later out s) = cl_conn s" "cl_conn_slot (deliver_later out s) = cl_conn_slot s"
  "cl_conn_gen (deliver_later out s) = cl_conn_gen s"
  "cl_socket_open (deliver_later out s) = cl_socket_open s"
  "cl_pending_open (deliver_later out s) = cl_pending_open s"
  "cl_state (deliver_later out s) = cl_state s"
  "cl_stopping (deliver_later out s) = cl_stopping s" "cl_subs (deliver_later out s) = cl_subs s"
  "cl_pending (deliver_later out s) = cl_pending s" "cl_worker (deliver_later out s) = cl_worker s"
  "cl_reconnect_scheduled (deliver_later out s) = cl_reconnect_scheduled s"
  "cl_reconnect_at (deliver_later out s) = cl_reconnect_at s"
  "cl_last_server_msg (deliver_later out s) = cl_last_server_msg s"
  "cl_garbage (deliver_later out s) = cl_garbage s" "cl_delivered (deliver_later out s) = cl_delivered s"
  "cl_orphaned (deliver_later out s) = cl_orphaned s" "cl_wire (deliver_later out s) = cl_wire s"
  "cl_fetcher (deliver_later out s) = cl_fetcher s" "cl_retries (deliver_later out s) = cl_retries s"
  "cl_consecutive_auth_errors (deliver_later out s) = cl_consecutive_auth_errors s"
  by (simp_all add: deliver_later_def split: delivery.split)

lemma hand_over_simps [simp]:
  "cl_opts (hand_over out s) = cl_opts s" "cl_base (hand_over out s) = cl_base s"
  "cl_conn (hand_over out s) = cl_conn s" "cl_conn_slot (hand_over out s) = cl_conn_slot s"
  "cl_conn_gen (hand_over out s) = cl_conn_gen s" "cl_socket_open (hand_over out s) = cl_socket_open s"
  "cl_pending_open (hand_over out s) = cl_pending_open s" "cl_state (hand_over out s) = cl_state s"
  "cl_stopping (hand_over out s) = cl_stopping s" "cl_subs (hand_over out s) = cl_subs s"
  "cl_pending (hand_over out s) = cl_pending s" "cl_worker (hand_over out s) = cl_worker s"
  "cl_reconnect_scheduled (hand_over out s) = cl_reconnect_scheduled s"
  "cl_reconnect_at (hand_over out s) = cl_reconnect_at s"
  "cl_last_server_msg (hand_over out s) = cl_last_server_msg s"
  "cl_garbage (hand_over out s) = cl_garbage s" "cl_in_flight (hand_over out s) = cl_in_flight s"
  "cl_orphaned (hand_over out s) = cl_orphaned s" "cl_wire (hand_over out s) = cl_wire s"
  "cl_fetcher (hand_over out s) = cl_fetcher s" "cl_retries (hand_over out s) = cl_retries s"
  "cl_consecutive_auth_errors (hand_over out s) = cl_consecutive_auth_errors s"
  by (simp_all add: hand_over_def split: delivery.split)

text \<open>What \<open>begin_disconnect\<close> leaves in the state.\<close>

definition refreshed_token :: "env \<Rightarrow> client_state \<Rightarrow> auth_token option" where
  "refreshed_token E s = (if cl_fetcher s \<noteq> None then ev_fetched E else None)"

definition disconnected ::
  "env \<Rightarrow> string \<Rightarrow> base_client \<Rightarrow> (request_id, callback) omap \<Rightarrow> client_state \<Rightarrow> client_state"
where
  "disconnected E reason b p s =
     notify_all (s\<lparr>cl_conn_gen := cl_conn_gen s + 1,
                   cl_chunk_assembler := asm_abandon (cl_chunk_assembler s),
                   cl_garbage := (if cl_conn s \<noteq> None \<or> cl_conn_slot s \<noteq> None
                                  then cl_garbage s @ [(cl_conn s, cl_conn_slot s)] else cl_garbage s),
                   cl_conn := None, cl_conn_slot := None, cl_wire := [],
                   cl_socket_open := False, cl_pending_open := False, cl_state := Disconnected,
                   cl_last_close_reason := reason, cl_base := b, cl_pending := p,
                   cl_reconnect_scheduled := True,
                   cl_reconnect_at := ev_now E + backoff_delay (cl_opts s) (ev_jitter E) (cl_retries s),
                   cl_retries := cl_retries s + 1\<rparr>)"

lemma begin_disconnect_eq:
  assumes r: "restart (refreshed_token E s) (cl_base s) = (b, failed)"
    and c: "complete_pending failed (cl_pending s) = (evs, p)"
  shows "begin_disconnect E reason (s, out) = (disconnected E reason b p s,
    out @ (if cl_state s \<noteq> Disconnected then map (\<lambda>l. Ev_state l Disconnected) (cl_state_listeners s) else [])
      @ evs)"
proof (cases "cl_state s = Disconnected")
  case True
  then show ?thesis
    using r c
    by (cases s) (simp add: begin_disconnect_def Let_def disconnected_def refreshed_token_def)
next
  case False
  then show ?thesis
    using r c by (simp add: begin_disconnect_def Let_def disconnected_def refreshed_token_def push_state_event_def)
qed

lemma disconnected_fields [simp]:
  "cl_opts (disconnected E reason b p s) = cl_opts s" "cl_conn (disconnected E reason b p s) = None"
  "cl_conn_slot (disconnected E reason b p s) = None" "cl_wire (disconnected E reason b p s) = []"
  "cl_conn_gen (disconnected E reason b p s) = cl_conn_gen s + 1"
  "cl_socket_open (disconnected E reason b p s) = False"
  "cl_pending_open (disconnected E reason b p s) = False"
  "cl_state (disconnected E reason b p s) = Disconnected"
  "cl_last_close_reason (disconnected E reason b p s) = reason"
  "cl_fetcher (disconnected E reason b p s) = cl_fetcher s"
  "cl_stopping (disconnected E reason b p s) = cl_stopping s"
  "cl_subs (disconnected E reason b p s) = cl_subs s"
  "cl_reconnect_scheduled (disconnected E reason b p s) = True"
  "cl_reconnect_at (disconnected E reason b p s) =
     ev_now E + backoff_delay (cl_opts s) (ev_jitter E) (cl_retries s)"
  "cl_retries (disconnected E reason b p s) = cl_retries s + 1"
  "cl_last_server_msg (disconnected E reason b p s) = cl_last_server_msg s"
  "cl_chunk_assembler (disconnected E reason b p s) = asm_idle"
  "cl_event_queue (disconnected E reason b p s) = cl_event_queue s"
  "cl_in_flight (disconnected E reason b p s) = cl_in_flight s"
  "cl_delivered (disconnected E reason b p s) = cl_delivered s"
  "cl_orphaned (disconnected E reason b p s) = cl_orphaned s"
  "cl_consecutive_auth_errors (disconnected E reason b p s) = cl_consecutive_auth_errors s"
  "cl_worker (disconnected E reason b p s) = (case cl_worker s of W_waiting _ \<Rightarrow> W_running | w \<Rightarrow> w)"
  "cl_base (disconnected E reason b p s) = b" "cl_pending (disconnected E reason b p s) = p"
  by (simp_all add: disconnected_def notify_all_worker)

text \<open>Every use of \<open>begin_disconnect\<close> goes through this rule.\<close>

lemma begin_disconnect_cases:
  obtains b failed evs p where "restart (refreshed_token E s) (cl_base s) = (b, failed)"
    "complete_pending failed (cl_pending s) = (evs, p)"
    "begin_disconnect E reason (s, out) = (disconnected E reason b p s,
      out @ (if cl_state s \<noteq> Disconnected then map (\<lambda>l. Ev_state l Disconnected) (cl_state_listeners s) else [])
        @ evs)"
proof -
  obtain b failed where r: "restart (refreshed_token E s) (cl_base s) = (b, failed)" by fastforce
  obtain evs p where c: "complete_pending failed (cl_pending s) = (evs, p)" by fastforce
  show thesis by (rule that [OF r c begin_disconnect_eq [OF r c]])
qed

lemma drain_loop_ok:
  "drain_loop L b = (b', frames, None) \<Longrightarrow> b' = b\<lparr>bc_outgoing := []\<rparr>
     \<and> list_all2 (\<lambda>m f. encode_client_message L m = Inr f) (bc_outgoing b) frames"
proof (induction L b arbitrary: b' frames rule: drain_loop.induct)
  case (1 L b)
  show ?case
  proof (cases "bc_outgoing b")
    case Nil
    then show ?thesis using 1(2) by (simp add: drain_loop.simps [of L b] pop_next_message_def)
  next
    case (Cons m ms)
    have pop: "pop_next_message b = (b\<lparr>bc_outgoing := ms\<rparr>, Some m)"
      using Cons by (simp add: pop_next_message_def)
    show ?thesis
    proof (cases "encode_client_message L m")
      case (Inl e)
      then show ?thesis using 1(2) by (simp add: drain_loop.simps [of L b] pop)
    next
      case (Inr f)
      obtain fs where fs: "drain_loop L (b\<lparr>bc_outgoing := ms\<rparr>) = (b', fs, None)" "frames = f # fs"
        using 1(2) by (auto simp: drain_loop.simps [of L b] pop Inr split: prod.splits)
      show ?thesis
        using 1(1) [OF pop [symmetric] refl Inr fs(1)] fs(2) Cons Inr by simp
    qed
  qed
qed

text \<open>Without an exception \<open>drain_outgoing\<close> puts the whole queue on the wire of an open connection.\<close>

lemma drain_outgoing_closed:
  "\<not> cl_socket_open s \<or> cl_conn s = None \<Longrightarrow> drain_outgoing L s = (s, None)"
  by (simp add: drain_outgoing_def)

lemma drain_outgoing_open:
  assumes "drain_outgoing L s = (s', None)" "cl_socket_open s" "cl_conn s \<noteq> None"
  obtains frames where "s' = s\<lparr>cl_base := (cl_base s)\<lparr>bc_outgoing := []\<rparr>, cl_wire := cl_wire s @ frames\<rparr>"
    "list_all2 (\<lambda>m f. encode_client_message L m = Inr f) (bc_outgoing (cl_base s)) frames"
proof -
  obtain b frames e where d: "drain_loop L (cl_base s) = (b, frames, e)" by (cases "drain_loop L (cl_base s)")
  with assms have "e = None" and s': "s' = s\<lparr>cl_base := b, cl_wire := cl_wire s @ frames\<rparr>"
    by (simp_all add: drain_outgoing_def)
  have ok: "b = (cl_base s)\<lparr>bc_outgoing := []\<rparr>"
    "list_all2 (\<lambda>m f. encode_client_message L m = Inr f) (bc_outgoing (cl_base s)) frames"
    using drain_loop_ok [of L "cl_base s" b frames] d \<open>e = None\<close> by simp_all
  show thesis by (rule that [of frames]) (simp_all add: s' ok(1), rule ok(2))
qed

lemma drain_outgoing_frame: "\<exists>b w. fst (drain_outgoing L s) = s\<lparr>cl_base := b, cl_wire := w\<rparr>"
proof (cases "\<not> cl_socket_open s \<or> cl_conn s = None")
  case True
  then show ?thesis
    by (intro exI [of _ "cl_base s"] exI [of _ "cl_wire s"]) (cases s, simp add: drain_outgoing_def)
next
  case False
  then show ?thesis by (cases "drain_loop L (cl_base s)") (auto simp: drain_outgoing_def)
qed

subsection \<open>The connection\<close>

text \<open>
  While the client runs it is in exactly one of three situations: the next attempt is scheduled,
  the worker is connecting for the current generation, or there is a connection of the current
  generation. The reported state agrees with it.
\<close>

fun worker_gen :: "worker \<Rightarrow> 64 word option" where
  "worker_gen (W_connecting g out) = Some g"
| "worker_gen _ = None"

definition connecting :: "client_state \<Rightarrow> bool" where
  "connecting s \<longleftrightarrow> worker_gen (cl_worker s) = Some (cl_conn_gen s)"

definition conn_ok :: "client_state \<Rightarrow> bool" where
  "conn_ok s \<longleftrightarrow>
     (if cl_stopping s then cl_conn s = None \<and> cl_conn_slot s = None \<and> \<not> cl_socket_open s
      else (cl_pending_open s \<longleftrightarrow> cl_socket_open s \<and> cl_conn s = None)
        \<and> (cl_pending_open s \<longrightarrow> connecting s)
        \<and> (\<forall>g. cl_conn s = Some g \<longrightarrow> g = cl_conn_gen s) \<and> cl_conn_slot s = cl_conn s
        \<and> (cl_state s = Connected \<longleftrightarrow> cl_socket_open s \<and> cl_conn s \<noteq> None)
        \<and> (cl_state s = Connecting \<longleftrightarrow> connecting s \<or> cl_conn s \<noteq> None \<and> \<not> cl_socket_open s)
        \<and> (cl_reconnect_scheduled s \<longleftrightarrow> \<not> connecting s \<and> cl_conn s = None)
        \<and> (\<forall>g. worker_gen (cl_worker s) = Some g \<longrightarrow>
             cl_conn s = None \<and> (g = cl_conn_gen s \<or> g + 1 = cl_conn_gen s))
        \<and> cl_worker s \<noteq> W_done)"

lemma conn_ok_cong:
  "\<lbrakk>cl_stopping s' = cl_stopping s; cl_conn s' = cl_conn s; cl_conn_slot s' = cl_conn_slot s;
    cl_conn_gen s' = cl_conn_gen s; cl_socket_open s' = cl_socket_open s;
    cl_pending_open s' = cl_pending_open s; cl_state s' = cl_state s;
    cl_reconnect_scheduled s' = cl_reconnect_scheduled s;
    worker_gen (cl_worker s') = worker_gen (cl_worker s);
    cl_worker s' = W_done \<longleftrightarrow> cl_worker s = W_done\<rbrakk>
   \<Longrightarrow> conn_ok s' = conn_ok s"
  by (simp add: conn_ok_def connecting_def)

lemma conn_ok_notify [simp]: "conn_ok (notify_all s) = conn_ok s"
  by (rule conn_ok_cong) (simp_all add: notify_all_worker split: worker.split)

lemma conn_ok_deliver [simp]: "conn_ok (deliver out s) = conn_ok s"
  by (simp add: conn_ok_def connecting_def)

lemma conn_ok_deliver_later [simp]: "conn_ok (deliver_later out s) = conn_ok s"
  by (simp add: conn_ok_def connecting_def)

lemma conn_ok_drain [simp]: "conn_ok (fst (drain_outgoing L s)) = conn_ok s"
proof -
  obtain b w where "fst (drain_outgoing L s) = s\<lparr>cl_base := b, cl_wire := w\<rparr>"
    using drain_outgoing_frame by blast
  then show ?thesis by (intro conn_ok_cong) simp_all
qed

text \<open>A transport callback of the current generation finds the worker elsewhere or in its own call.\<close>

lemma has_slot_iff: "has_slot s gen \<longleftrightarrow> cl_conn_slot s = Some gen \<or> worker_gen (cl_worker s) = Some gen"
  by (simp add: has_slot_def split: worker.split)

lemma has_slot_worker:
  assumes "conn_ok s" "\<not> cl_stopping s" "has_slot s (cl_conn_gen s)" "worker_gen (cl_worker s) = Some g"
  shows "g = cl_conn_gen s"
  using assms unfolding conn_ok_def has_slot_iff by auto

lemma conn_ok_disconnected:
  assumes "\<not> cl_stopping s" "cl_worker s \<noteq> W_done"
    and "\<And>g. worker_gen (cl_worker s) = Some g \<Longrightarrow> g = cl_conn_gen s"
  shows "conn_ok (disconnected E reason b p s)"
  using assms by (cases "cl_worker s") (simp_all add: conn_ok_def connecting_def)

lemma handle_open_frame:
  "\<exists>b w. fst (handle_open L E (s, out)) = s\<lparr>cl_last_server_msg := ev_now E, cl_state := Connected, cl_base := b, cl_wire := w\<rparr>"
proof -
  obtain b m where cm: "make_connect_message (cl_last_close_reason s) (Some (ev_wall_clock_ms E)) (cl_base s) = (b, m)"
    by fastforce
  let ?s2 = "s\<lparr>cl_last_server_msg := ev_now E, cl_state := Connected, cl_base := b\<rparr>"
  show ?thesis
  proof (cases "encode_client_message L (CM_connect m)")
    case (Inl e)
    then show ?thesis
      using cm by (intro exI [of _ b] exI [of _ "cl_wire s"]) (simp add: handle_open_def Let_def)
  next
    case (Inr f)
    obtain b' w where d: "fst (drain_outgoing L (?s2\<lparr>cl_wire := cl_wire s @ [f]\<rparr>)) =
        ?s2\<lparr>cl_wire := cl_wire s @ [f], cl_base := b', cl_wire := w\<rparr>"
      using drain_outgoing_frame by blast
    show ?thesis
      by (intro exI [of _ b'] exI [of _ w])
         (use cm Inr d in \<open>simp add: handle_open_def Let_def case_prod_unfold\<close>)
  qed
qed

lemma conn_ok_handle_open:
  assumes "if cl_stopping s then False else cl_conn s = Some (cl_conn_gen s) \<and> cl_conn_slot s = cl_conn s
      \<and> cl_socket_open s \<and> \<not> cl_pending_open s \<and> worker_gen (cl_worker s) = None
      \<and> cl_worker s \<noteq> W_done \<and> \<not> cl_reconnect_scheduled s"
  shows "conn_ok (fst (handle_open L E (s, out)))"
proof -
  obtain b w where h: "fst (handle_open L E (s, out)) =
      s\<lparr>cl_last_server_msg := ev_now E, cl_state := Connected, cl_base := b, cl_wire := w\<rparr>"
    using handle_open_frame by blast
  show ?thesis using assms unfolding h by (simp add: conn_ok_def connecting_def split: if_splits)
qed

text \<open>The result of a section that ends in \<open>handle_open\<close>.\<close>

lemma conn_ok_after_open:
  "conn_ok (fst (handle_open L E (s, out))) \<Longrightarrow>
   conn_ok (fst (case handle_open L E (s, out) of
     (s2, out2, Some e) \<Rightarrow> (s2, Some e)
   | (s2, out2, None) \<Rightarrow> (deliver out2 (notify_all s2), None)))"
  by (cases "handle_open L E (s, out)") (auto split: option.split)

lemma conn_ok_ws_open:
  assumes ok: "conn_ok s" and en: "gen = cl_conn_gen s \<longrightarrow> has_slot s gen \<and> \<not> cl_socket_open s"
  shows "conn_ok (fst (ws_open L E gen s))"
proof (cases "cl_stopping s \<or> gen \<noteq> cl_conn_gen s")
  case True
  then show ?thesis using ok by (simp add: ws_open_def)
next
  case False
  with en have slot: "has_slot s (cl_conn_gen s)" and closed: "\<not> cl_socket_open s" by simp_all
  show ?thesis
  proof (cases "cl_conn s")
    case None
    with False slot closed ok show ?thesis
      by (auto simp: ws_open_def Let_def conn_ok_def connecting_def has_slot_iff)
  next
    case (Some g)
    have "conn_ok (fst (handle_open L E (s\<lparr>cl_socket_open := True\<rparr>, [])))"
      by (rule conn_ok_handle_open) (use False closed ok Some in \<open>auto simp: conn_ok_def connecting_def\<close>)
    then show ?thesis
      using False Some by (simp add: ws_open_def Let_def conn_ok_after_open)
  qed
qed

lemma conn_ok_disconnect:
  assumes ok: "conn_ok s" "\<not> cl_stopping s" "has_slot s (cl_conn_gen s)"
  shows "conn_ok (disconnected E reason b p s)"
  by (rule conn_ok_disconnected) (use ok has_slot_worker [OF ok] in \<open>auto simp: conn_ok_def\<close>)

lemma conn_ok_base [simp]:
  "conn_ok (s\<lparr>cl_base := b\<rparr>) = conn_ok s"
  "conn_ok (s\<lparr>cl_pending := p\<rparr>) = conn_ok s"
  "conn_ok (s\<lparr>cl_last_server_msg := t\<rparr>) = conn_ok s"
  "conn_ok (s\<lparr>cl_chunk_assembler := a\<rparr>) = conn_ok s"
  "conn_ok (s\<lparr>cl_retries := n, cl_consecutive_auth_errors := k\<rparr>) = conn_ok s"
  "conn_ok (s\<lparr>cl_subs := m, cl_base := b\<rparr>) = conn_ok s"
  "conn_ok (s\<lparr>cl_base := b, cl_subs := m\<rparr>) = conn_ok s"
  "conn_ok (s\<lparr>cl_base := b, cl_pending := p\<rparr>) = conn_ok s"
  "conn_ok (s\<lparr>cl_fetcher := f, cl_consecutive_auth_errors := k, cl_base := b\<rparr>) = conn_ok s"
  "conn_ok (s\<lparr>cl_fetcher := f, cl_consecutive_auth_errors := k\<rparr>) = conn_ok s"
  by (rule conn_ok_cong; simp)+

lemma has_slot_base [simp]:
  "has_slot (s\<lparr>cl_base := b\<rparr>) g = has_slot s g"
  "has_slot (s\<lparr>cl_last_server_msg := t\<rparr>) g = has_slot s g"
  "has_slot (s\<lparr>cl_chunk_assembler := a\<rparr>) g = has_slot s g"
  by (simp_all add: has_slot_def)

lemma auth_rejected_frame:
  "\<exists>b f n. fst (auth_rejected r reason (s, out)) = s\<lparr>cl_base := b, cl_fetcher := f, cl_consecutive_auth_errors := n\<rparr>"
proof (cases "rr_auth_update_attempted r \<or> cl_fetcher s = None \<or> 2 \<le> cl_consecutive_auth_errors s + 1")
  case True
  then show ?thesis by (auto simp: auth_rejected_def Let_def)
next
  case False
  then show ?thesis
    by (intro exI [of _ "cl_base s"] exI [of _ "cl_fetcher s"] exI [of _ "cl_consecutive_auth_errors s + 1"])
       (cases "cl_fetcher s", use False in \<open>simp_all add: auth_rejected_def Let_def\<close>)
qed

lemma conn_ok_dispatch:
  assumes ok: "conn_ok s" "\<not> cl_stopping s" "has_slot s (cl_conn_gen s)"
  shows "conn_ok (fst (dispatch_message L E msg s))"
proof (cases "receive_message msg (cl_base s)")
  case (Inl e)
  then show ?thesis using ok by (simp add: dispatch_message_def)
next
  case (Inr br)
  obtain b r where br: "br = (b, r)" by (cases br)
  let ?s1 = "s\<lparr>cl_base := b\<rparr>"
  show ?thesis
  proof (cases "rr_reconnect_reason r")
    case (Some reason)
    define x where "x = (if rr_auth_error r then auth_rejected r reason (?s1, log_events ?s1 (rr_log_entries r))
        else (?s1, log_events ?s1 (rr_log_entries r)))"
    obtain s2 out2 where x: "x = (s2, out2)" by (cases x)
    have s2: "conn_ok s2" "\<not> cl_stopping s2" "has_slot s2 (cl_conn_gen s2)"
    proof -
      have "\<exists>b' f n. s2 = s\<lparr>cl_base := b', cl_fetcher := f, cl_consecutive_auth_errors := n\<rparr>"
      proof (cases "rr_auth_error r")
        case True
        then show ?thesis
          using x auth_rejected_frame [of r reason ?s1 "log_events ?s1 (rr_log_entries r)"]
          unfolding x_def by simp
      next
        case False
        then have "s2 = ?s1" using x unfolding x_def by simp
        moreover have "?s1 = s\<lparr>cl_base := b, cl_fetcher := cl_fetcher s,
            cl_consecutive_auth_errors := cl_consecutive_auth_errors s\<rparr>" by simp
        ultimately have "s2 = s\<lparr>cl_base := b, cl_fetcher := cl_fetcher s,
            cl_consecutive_auth_errors := cl_consecutive_auth_errors s\<rparr>" by (rule trans)
        then show ?thesis by blast
      qed
      then obtain b' f n where s2: "s2 = s\<lparr>cl_base := b', cl_fetcher := f, cl_consecutive_auth_errors := n\<rparr>"
        by blast
      have "conn_ok s2 = conn_ok s" unfolding s2 by (rule conn_ok_cong) simp_all
      then show "conn_ok s2" "\<not> cl_stopping s2" "has_slot s2 (cl_conn_gen s2)"
        using ok by (simp_all add: s2 has_slot_def)
    qed
    obtain b' p out3 where d: "begin_disconnect E reason (s2, out2) = (disconnected E reason b' p s2, out3)"
      by (rule begin_disconnect_cases [of E s2 reason out2]) blast
    have "conn_ok (disconnected E reason b' p s2)" by (rule conn_ok_disconnect [OF s2])
    then show ?thesis
      using x d by (simp add: dispatch_message_def Inr br Let_def Some x_def [symmetric])
  next
    case None
    obtain evs p where c: "complete_pending (rr_completed_requests r) (cl_pending s) = (evs, p)" by fastforce
    define s3 where "s3 = (if rr_state_changed r \<and> has_synced_past_last_restart b
      then s\<lparr>cl_base := b, cl_pending := p, cl_retries := 0, cl_consecutive_auth_errors := 0\<rparr>
      else s\<lparr>cl_base := b, cl_pending := p\<rparr>)"
    have "conn_ok s3 = conn_ok s" by (rule conn_ok_cong) (simp_all add: s3_def)
    then have "conn_ok (fst (drain_outgoing L s3))" using ok by simp
    then show ?thesis
      using c by (cases "drain_outgoing L s3")
        (simp add: dispatch_message_def Inr br Let_def None s3_def [symmetric] split: option.split)
  qed
qed

lemma conn_ok_protocol_failure:
  assumes ok: "conn_ok s" "\<not> cl_stopping s" "has_slot s (cl_conn_gen s)"
  shows "conn_ok (fst (protocol_failure E w s))"
proof -
  obtain b p out where "begin_disconnect E (''ProtocolError: '' @ w) (s, []) =
      (disconnected E (''ProtocolError: '' @ w) b p s, out)"
    by (rule begin_disconnect_cases [of E s "''ProtocolError: '' @ w" "[]"]) blast
  then show ?thesis using conn_ok_disconnect [OF ok] by (simp add: protocol_failure_def)
qed

text \<open>
  The transition a call of \<open>ws_message\<close> hands to the state machine: the one in the message, or the
  one its last part completes.
\<close>

definition handed :: "json_lib \<Rightarrow> client_state \<Rightarrow> string \<Rightarrow> transition_message option" where
  "handed L s t = (case decode_server_message L t of
     Inr (SV_transition tr) \<Rightarrow> Some tr
   | Inr (SV_transition_chunk c) \<Rightarrow>
       (case snd (asm_feed L (cl_chunk_assembler s) c) of Inr r \<Rightarrow> r | Inl e \<Rightarrow> None)
   | _ \<Rightarrow> None)"

text \<open>
  The branches of \<open>ws_message\<close>: it ignores the message, fails over, throws, keeps a part, or
  hands a message to the state machine; in each case only the assembler and the clock were set.
\<close>

lemma ws_message_cases:
  assumes "\<not> cl_stopping s" "gen = cl_conn_gen s"
  obtains (failure) w a where "ws_message L E gen t s =
      protocol_failure E w (s\<lparr>cl_last_server_msg := ev_now E, cl_chunk_assembler := a\<rparr>)"
  | (threw) e a where "ws_message L E gen t s =
      (s\<lparr>cl_last_server_msg := ev_now E, cl_chunk_assembler := a\<rparr>, Some e)"
  | (part) a where "ws_message L E gen t s =
      (s\<lparr>cl_last_server_msg := ev_now E, cl_chunk_assembler := a\<rparr>, None)"
  | (dispatched) msg a where "ws_message L E gen t s =
      dispatch_message L E msg (s\<lparr>cl_last_server_msg := ev_now E, cl_chunk_assembler := a\<rparr>)"
      "\<forall>tr. msg = SV_transition tr \<longrightarrow> handed L s t = Some tr"
      "(\<exists>tr. msg = SV_transition tr) \<or> decode_server_message L t = Inr msg"
proof -
  let ?s0 = "s\<lparr>cl_last_server_msg := ev_now E\<rparr>"
  have idem: "?s0 = s\<lparr>cl_last_server_msg := ev_now E, cl_chunk_assembler := cl_chunk_assembler s\<rparr>" by simp
  show thesis
  proof (cases "decode_server_message L t")
    case (Inl e)
    show thesis
    proof (cases "\<exists>w. e = Protocol_error w")
      case True
      then obtain w where "e = Protocol_error w" by blast
      then show thesis
        using assms Inl idem by (intro failure [of w "cl_chunk_assembler s"]) (simp add: ws_message_def Let_def)
    next
      case False
      then have "ws_message L E gen t s = (?s0, Some e)"
        using assms Inl by (cases e) (simp_all add: ws_message_def Let_def)
      then show thesis using idem by (intro threw [of "cl_chunk_assembler s" e]) simp
    qed
  next
    case (Inr msg)
    show thesis
    proof (cases "\<exists>c. msg = SV_transition_chunk c")
      case True
      then obtain c where msg: "msg = SV_transition_chunk c" by blast
      obtain a r where f: "asm_feed L (cl_chunk_assembler s) c = (a, r)" by fastforce
      show thesis
      proof (cases r)
        case (Inl e)
        show thesis
        proof (cases "\<exists>w. e = Protocol_error w")
          case True
          then obtain w where "e = Protocol_error w" by blast
          then show thesis
            using assms Inr msg f Inl by (intro failure [of w a]) (simp add: ws_message_def Let_def)
        next
          case False
          then show thesis
            using assms Inr msg f Inl by (intro threw [of a e]) (cases e, simp_all add: ws_message_def Let_def)
        qed
      next
        case (Inr r')
        show thesis
        proof (cases r')
          case None
          then show thesis
            using assms \<open>decode_server_message L t = Inr msg\<close> msg f Inr
            by (intro part [of a]) (simp add: ws_message_def Let_def)
        next
          case (Some tr)
          then show thesis
            using assms \<open>decode_server_message L t = Inr msg\<close> msg f Inr
            by (intro dispatched [of "SV_transition tr" a]) (simp_all add: ws_message_def handed_def Let_def)
        qed
      qed
    next
      case False
      show thesis
      proof (cases "msg = SV_ping")
        case True
        then show thesis
          using assms Inr idem
          by (intro dispatched [of SV_ping "cl_chunk_assembler s"]) (simp_all add: ws_message_def Let_def)
      next
        case not_ping: False
        then show thesis
          using assms Inr False
          by (intro dispatched [of msg asm_idle]; cases msg) (simp_all add: ws_message_def handed_def Let_def)
      qed
    qed
  qed
qed

lemma conn_ok_ws_message:
  assumes ok: "conn_ok s" and en: "gen = cl_conn_gen s \<longrightarrow> has_slot s gen"
  shows "conn_ok (fst (ws_message L E gen t s))"
proof (cases "cl_stopping s \<or> gen \<noteq> cl_conn_gen s")
  case True
  then show ?thesis using ok by (simp add: ws_message_def)
next
  case False
  then have run: "\<not> cl_stopping s" "gen = cl_conn_gen s" by simp_all
  have upd: "conn_ok (s\<lparr>cl_last_server_msg := ev_now E, cl_chunk_assembler := a\<rparr>)"
    "\<not> cl_stopping (s\<lparr>cl_last_server_msg := ev_now E, cl_chunk_assembler := a\<rparr>)"
    "has_slot (s\<lparr>cl_last_server_msg := ev_now E, cl_chunk_assembler := a\<rparr>)
      (cl_conn_gen (s\<lparr>cl_last_server_msg := ev_now E, cl_chunk_assembler := a\<rparr>))" for a
    using ok en run by simp_all
  show ?thesis
    by (rule ws_message_cases [OF run, of L E t])
       (simp_all add: ok conn_ok_protocol_failure [OF upd] conn_ok_dispatch [OF upd])
qed

lemma conn_ok_ws_close:
  assumes ok: "conn_ok s" and en: "gen = cl_conn_gen s \<longrightarrow> has_slot s gen"
  shows "conn_ok (ws_close E gen reason s)"
proof (cases "cl_stopping s \<or> gen \<noteq> cl_conn_gen s")
  case True
  then show ?thesis using ok by (simp add: ws_close_def)
next
  case False
  then have run: "\<not> cl_stopping s" "has_slot s (cl_conn_gen s)" using en by simp_all
  obtain b p out where "begin_disconnect E reason (s, []) = (disconnected E reason b p s, out)"
    by (rule begin_disconnect_cases [of E s reason "[]"]) blast
  then show ?thesis using conn_ok_disconnect [OF ok run] False by (simp add: ws_close_def)
qed

lemma conn_ok_attempt_end:
  assumes ok: "conn_ok s" and w: "cl_worker s = W_connecting gen out0"
  shows "conn_ok (fst (attempt_end L E gen out r s))"
proof -
  let ?s0 = "s\<lparr>cl_worker := W_running\<rparr>"
  show ?thesis
  proof (cases "cl_stopping s \<or> gen \<noteq> cl_conn_gen s")
    case True
    have "conn_ok ?s0" using ok w True by (auto simp: conn_ok_def connecting_def)
    moreover have "conn_ok (?s0\<lparr>cl_garbage := g\<rparr>) = conn_ok ?s0" for g by (rule conn_ok_cong) simp_all
    ultimately show ?thesis using True by (simp add: attempt_end_def Let_def)
  next
    case False
    then have run: "\<not> cl_stopping s" "gen = cl_conn_gen s" by simp_all
    show ?thesis
    proof (cases "r = Conn_made")
      case made: True
      let ?s1 = "?s0\<lparr>cl_conn := Some gen, cl_conn_slot := Some gen, cl_wire := []\<rparr>"
      show ?thesis
      proof (cases "cl_pending_open s")
        case True
        have "conn_ok (fst (handle_open L E (?s1\<lparr>cl_pending_open := False, cl_socket_open := True\<rparr>, out)))"
          by (rule conn_ok_handle_open) (use run ok w in \<open>auto simp: conn_ok_def connecting_def\<close>)
        then show ?thesis
          using run made True by (simp add: attempt_end_def Let_def conn_ok_after_open)
      next
        case False
        have "conn_ok ?s1" using run ok w False by (auto simp: conn_ok_def connecting_def)
        then show ?thesis using run made False by (simp add: attempt_end_def Let_def)
      qed
    next
      case False
      let ?reason = "if (case r of Conn_threw w \<Rightarrow> w | _ \<Rightarrow> []) = [] then ''ConnectFailed''
        else ''ConnectFailed: '' @ (case r of Conn_threw w \<Rightarrow> w | _ \<Rightarrow> [])"
      let ?s1 = "?s0\<lparr>cl_conn_slot := Some gen\<rparr>"
      obtain b p out' where d: "begin_disconnect E ?reason (?s1, out) = (disconnected E ?reason b p ?s1, out')"
        by (rule begin_disconnect_cases [of E ?s1 ?reason out]) blast
      have "conn_ok (disconnected E ?reason b p ?s1)"
        by (rule conn_ok_disconnected) (use run in simp_all)
      then show ?thesis using run False d by (simp add: attempt_end_def Let_def)
    qed
  qed
qed

lemma conn_ok_connect_returns: "conn_ok s \<Longrightarrow> conn_ok (fst (connect_returns L E r s))"
  using conn_ok_attempt_end by (simp add: connect_returns_def split: worker.split)

lemma conn_ok_worker_pass:
  assumes ok: "conn_ok s"
  shows "conn_ok (worker_pass E s)"
proof (cases "cl_worker s = W_running \<and> \<not> cl_stopping s \<and> cl_garbage s = []")
  case True
  show ?thesis
  proof (cases "cl_reconnect_scheduled s \<and> ev_now E \<ge> cl_reconnect_at s")
    case due: True
    then have "conn_ok (attempt_begin (s\<lparr>cl_reconnect_scheduled := False\<rparr>))"
      using ok True by (simp add: attempt_begin_def Let_def conn_ok_def connecting_def)
    then show ?thesis using True due by (simp add: worker_pass_def)
  next
    case not_due: False
    show ?thesis
    proof (cases "cl_socket_open s \<and> ev_now E \<ge> inactive_at s")
      case inactive: True
      obtain b p out where d: "begin_disconnect E ''InactiveServer'' (s, []) =
          (disconnected E ''InactiveServer'' b p s, out)"
        by (rule begin_disconnect_cases [of E s "''InactiveServer''" "[]"]) blast
      have "conn_ok (disconnected E ''InactiveServer'' b p s)"
        by (rule conn_ok_disconnected) (use True in simp_all)
      then show ?thesis
        using True not_due inactive d by (cases "cl_reconnect_scheduled s") (simp_all add: worker_pass_def)
    next
      case False
      have "conn_ok (s\<lparr>cl_worker := W_waiting d\<rparr>) = conn_ok s" for d
        by (rule conn_ok_cong) (use True in simp_all)
      then show ?thesis using ok True not_due False by (auto simp: worker_pass_def)
    qed
  qed
next
  case False
  have "conn_ok (s\<lparr>cl_garbage := []\<rparr>) = conn_ok s" by (rule conn_ok_cong) simp_all
  moreover have "cl_stopping s \<Longrightarrow> conn_ok (s\<lparr>cl_worker := W_done\<rparr>)"
    using ok by (simp add: conn_ok_def)
  ultimately show ?thesis
    using ok False
    by (cases "cl_worker s = W_running"; cases "cl_stopping s"; cases "cl_garbage s = []")
       (simp_all add: worker_pass_def)
qed

text \<open>The table of subscribers with one more.\<close>

definition add_entry :: "subscriber_id \<Rightarrow> callback \<Rightarrow> (query_id, sub_entry list) omap \<Rightarrow> (query_id, sub_entry list) omap" where
  "add_entry sid cb m = om_insert (si_query sid)
     ((case map_of m (si_query sid) of None \<Rightarrow> [] | Some es \<Rightarrow> es) @ [\<lparr>se_index = si_index sid, se_cb = cb\<rparr>]) m"

text \<open>Every use of \<open>do_subscribe\<close> goes through this rule: the arguments do not serialize, or not.\<close>

lemma do_subscribe_cases:
  obtains (failed) b e where "subscribe L p args (cl_base s) = (b, Inl e)"
    "do_subscribe L p args cb s = (s\<lparr>cl_base := b\<rparr>, Inl e)"
  | (made) b sid s2 x where "subscribe L p args (cl_base s) = (b, Inr sid)"
    "drain_outgoing L (s\<lparr>cl_base := b, cl_subs := add_entry sid cb (cl_subs s)\<rparr>) = (s2, x)"
    "do_subscribe L p args cb s = (case x of
         Some e \<Rightarrow> (s2, Inl e)
       | None \<Rightarrow> (deliver (case latest_result b (si_query sid) of None \<Rightarrow> [] | Some fr \<Rightarrow> [Ev_update cb fr]) s2, Inr sid))"
proof -
  obtain b r where sub: "subscribe L p args (cl_base s) = (b, r)" by fastforce
  show thesis
  proof (cases r)
    case (Inl e)
    then show thesis using sub by (intro failed [where b = b and e = e]) (simp_all add: do_subscribe_def)
  next
    case (Inr sid)
    obtain s2 x where "drain_outgoing L (s\<lparr>cl_base := b, cl_subs := add_entry sid cb (cl_subs s)\<rparr>) = (s2, x)"
      by fastforce
    then show thesis
      using sub Inr by (intro made [where b = b and sid = sid and ?s2.0 = s2 and x = x])
        (simp_all add: do_subscribe_def Let_def add_entry_def split: option.split)
  qed
qed

text \<open>What the updates of the section and \<open>drain_outgoing\<close> keep, \<open>do_subscribe\<close> keeps.\<close>

lemma do_subscribe_keeps:
  assumes "\<And>b. P (s\<lparr>cl_base := b\<rparr>)" "\<And>b m. P (fst (drain_outgoing L (s\<lparr>cl_base := b, cl_subs := m\<rparr>)))"
    and "\<And>out s'. P s' \<Longrightarrow> P (deliver out s')"
  shows "P (fst (do_subscribe L p args cb s))"
proof (rule do_subscribe_cases [of L p args s cb])
  fix b sid s2 x
  assume d: "drain_outgoing L (s\<lparr>cl_base := b, cl_subs := add_entry sid cb (cl_subs s)\<rparr>) = (s2, x)"
    and eq: "do_subscribe L p args cb s = (case x of
         Some e \<Rightarrow> (s2, Inl e)
       | None \<Rightarrow> (deliver (case latest_result b (si_query sid) of None \<Rightarrow> [] | Some fr \<Rightarrow> [Ev_update cb fr]) s2, Inr sid))"
  have "P s2" using assms(2) [where b = b and m = "add_entry sid cb (cl_subs s)"] unfolding d by simp
  then show ?thesis unfolding eq by (cases x) (simp_all add: assms(3))
qed (use assms(1) in simp)

lemma conn_ok_do_subscribe: "conn_ok s \<Longrightarrow> conn_ok (fst (do_subscribe L p args cb s))"
  by (rule do_subscribe_keeps) simp_all

lemma conn_ok_step:
  assumes ok: "conn_ok s" and en: "op_enabled L s op"
  shows "conn_ok (client_step L s op)"
proof (cases op)
  case (Do_unsubscribe sid)
  have "conn_ok (s\<lparr>cl_subs := m, cl_base := b\<rparr>) = conn_ok s" for m b by (rule conn_ok_cong) simp_all
  then show ?thesis using ok by (simp add: Do_unsubscribe client_step_def do_unsubscribe_def)
next
  case (Do_request m p args cb)
  have "conn_ok (s\<lparr>cl_delivered := d\<rparr>) = conn_ok s" for d by (rule conn_ok_cong) simp_all
  then show ?thesis
    using ok by (simp add: Do_request client_step_def do_request_def split: prod.split sum.split)
next
  case (Do_set_auth tok f)
  then show ?thesis using ok by (simp add: client_step_def do_set_auth_def)
next
  case (Run_delivery n)
  have "conn_ok (hand_over out s) = conn_ok s" for out s by (rule conn_ok_cong) simp_all
  moreover have "conn_ok (s\<lparr>cl_in_flight := q\<rparr>) = conn_ok s" for q by (rule conn_ok_cong) simp_all
  ultimately show ?thesis using ok by (simp add: Run_delivery client_step_def run_delivery_def)
next
  case Shutdown_begin
  have "conn_ok (notify_all s') = conn_ok s'" for s' by simp
  then show ?thesis
    using ok by (simp add: Shutdown_begin client_step_def shutdown_begin_def del: conn_ok_notify)
      (simp add: conn_ok_def)
next
  case Process_events
  have "conn_ok (s\<lparr>cl_event_queue := q, cl_delivered := d\<rparr>) = conn_ok s" for q d by (rule conn_ok_cong) simp_all
  then show ?thesis using ok by (simp add: Process_events client_step_def do_process_events_def)
next
  case Shutdown_end
  have "conn_ok (shutdown_end s) = conn_ok s" by (rule conn_ok_cong) (simp_all add: shutdown_end_def)
  then show ?thesis using ok by (simp add: Shutdown_end client_step_def)
next
  case (On_state_change l)
  have "conn_ok (on_state_change l s) = conn_ok s" by (rule conn_ok_cong) (simp_all add: on_state_change_def)
  then show ?thesis using ok by (simp add: On_state_change client_step_def)
next
  case (On_auth_failure l)
  have "conn_ok (on_auth_failure l s) = conn_ok s" by (rule conn_ok_cong) (simp_all add: on_auth_failure_def)
  then show ?thesis using ok by (simp add: On_auth_failure client_step_def)
next
  case (On_log_lines l)
  have "conn_ok (on_log_lines l s) = conn_ok s" by (rule conn_ok_cong) (simp_all add: on_log_lines_def)
  then show ?thesis using ok by (simp add: On_log_lines client_step_def)
qed (use ok en conn_ok_ws_open conn_ok_ws_message conn_ok_ws_close conn_ok_worker_pass
      conn_ok_connect_returns conn_ok_do_subscribe in \<open>simp_all add: client_step_def worker_wake_def\<close>)

subsection \<open>The worker never sleeps through its work\<close>

text \<open>
  While the worker waits there is nothing to destroy, and its deadline is not after the time a
  scheduled reconnect or the inactivity of the server is due: whatever makes something due
  earlier has notified it.
\<close>

definition due_by :: "time option \<Rightarrow> time \<Rightarrow> bool" where
  "due_by d t \<longleftrightarrow> (\<exists>t'. d = Some t' \<and> t' \<le> t)"

definition wakes :: "client_state \<Rightarrow> bool" where
  "wakes s \<longleftrightarrow> (\<forall>d. cl_worker s = W_waiting d \<longrightarrow>
     \<not> cl_stopping s \<and> cl_garbage s = []
     \<and> (cl_reconnect_scheduled s \<longrightarrow> due_by d (cl_reconnect_at s))
     \<and> (cl_socket_open s \<longrightarrow> due_by d (inactive_at s)))"

lemma wakes_running: "(\<And>d. cl_worker s \<noteq> W_waiting d) \<Longrightarrow> wakes s"
  by (simp add: wakes_def)

lemma notify_running [simp]: "cl_worker (notify_all s) \<noteq> W_waiting d"
  by (simp add: notify_all_worker split: worker.split)

lemma wakes_notify [simp]: "wakes (notify_all s)"
  by (simp add: wakes_def)

lemma wakes_disconnected [simp]: "wakes (disconnected E reason b p s)"
  by (rule wakes_running) (simp split: worker.split)

text \<open>Steps that keep the worker asleep may only push the due times back.\<close>

lemma wakes_cong:
  assumes "wakes s" "cl_worker s' = cl_worker s" "cl_stopping s' = cl_stopping s"
    "cl_garbage s' = cl_garbage s" "cl_reconnect_scheduled s' = cl_reconnect_scheduled s"
    "cl_reconnect_at s' = cl_reconnect_at s" "cl_socket_open s' = cl_socket_open s"
    "cl_opts s' = cl_opts s" "cl_last_server_msg s \<le> cl_last_server_msg s'"
  shows "wakes s'"
proof -
  have "inactive_at s \<le> inactive_at s'" using assms(8,9) by (simp add: inactive_at_def)
  then show ?thesis
    using assms(1-7) unfolding wakes_def due_by_def by (metis order.trans)
qed

lemma wakes_deliver [simp]: "wakes s \<Longrightarrow> wakes (deliver out s)"
  by (rule wakes_cong [of s]) simp_all

lemma wakes_deliver_later [simp]: "wakes s \<Longrightarrow> wakes (deliver_later out s)"
  by (rule wakes_cong [of s]) simp_all

lemma wakes_drain [simp]: "wakes s \<Longrightarrow> wakes (fst (drain_outgoing L s))"
proof -
  assume w: "wakes s"
  obtain b v where "fst (drain_outgoing L s) = s\<lparr>cl_base := b, cl_wire := v\<rparr>"
    using drain_outgoing_frame by blast
  then show ?thesis by (intro wakes_cong [OF w]) simp_all
qed

lemma wakes_begin_disconnect [simp]: "wakes (fst (begin_disconnect E reason (s, out)))"
  by (rule begin_disconnect_cases [of E s reason out]) simp

lemma wakes_dispatch:
  assumes w: "wakes s"
  shows "wakes (fst (dispatch_message L E msg s))"
proof (cases "receive_message msg (cl_base s)")
  case (Inl e)
  then show ?thesis using w by (simp add: dispatch_message_def)
next
  case (Inr br)
  obtain b r where br: "br = (b, r)" by (cases br)
  show ?thesis
  proof (cases "rr_reconnect_reason r")
    case (Some reason)
    have "wakes (fst (begin_disconnect E reason x))" for x
      by (cases x) simp
    then show ?thesis
      by (simp add: dispatch_message_def Inr br Let_def Some case_prod_unfold)
  next
    case None
    obtain evs p where c: "complete_pending (rr_completed_requests r) (cl_pending s) = (evs, p)" by fastforce
    define s3 where "s3 = (if rr_state_changed r \<and> has_synced_past_last_restart b
      then s\<lparr>cl_base := b, cl_pending := p, cl_retries := 0, cl_consecutive_auth_errors := 0\<rparr>
      else s\<lparr>cl_base := b, cl_pending := p\<rparr>)"
    have "wakes s3" by (rule wakes_cong [OF w]) (simp_all add: s3_def)
    then have "wakes (fst (drain_outgoing L s3))" by simp
    then show ?thesis
      using c by (cases "drain_outgoing L s3")
        (simp add: dispatch_message_def Inr br Let_def None s3_def [symmetric] split: option.split)
  qed
qed

lemma wakes_ws_message:
  assumes w: "wakes s" and en: "gen = cl_conn_gen s \<longrightarrow> cl_last_server_msg s \<le> ev_now E"
  shows "wakes (fst (ws_message L E gen t s))"
proof (cases "cl_stopping s \<or> gen \<noteq> cl_conn_gen s")
  case True
  then show ?thesis using w by (simp add: ws_message_def)
next
  case False
  then have run: "\<not> cl_stopping s" "gen = cl_conn_gen s" by simp_all
  have upd: "wakes (s\<lparr>cl_last_server_msg := ev_now E, cl_chunk_assembler := a\<rparr>)" for a
    by (rule wakes_cong [OF w]) (use en run in simp_all)
  show ?thesis
    by (rule ws_message_cases [OF run, of L E t])
       (simp_all add: upd wakes_dispatch protocol_failure_def case_prod_unfold Let_def)
qed

lemma wakes_handle_open:
  "wakes (fst (case handle_open L E (s, out) of
     (s2, out2, Some e) \<Rightarrow> (s2, Some e)
   | (s2, out2, None) \<Rightarrow> (deliver out2 (notify_all s2), None)))
   \<or> snd (snd (handle_open L E (s, out))) \<noteq> None"
  by (cases "handle_open L E (s, out)") (auto split: option.split)

lemma wakes_ws_open:
  assumes w: "wakes s" and ok: "conn_ok s" and en: "client_ok L s (Ws_open E gen)"
  shows "wakes (fst (ws_open L E gen s))"
proof (cases "cl_stopping s \<or> gen \<noteq> cl_conn_gen s")
  case True
  then show ?thesis using w by (simp add: ws_open_def)
next
  case False
  show ?thesis
  proof (cases "cl_conn s")
    case None
    have "has_slot s (cl_conn_gen s)" using en False by (simp add: client_ok_def)
    then have "worker_gen (cl_worker s) = Some (cl_conn_gen s)"
      using ok None False by (simp add: conn_ok_def has_slot_iff)
    then have "cl_worker s \<noteq> W_waiting d" for d by auto
    then show ?thesis using False None by (simp add: ws_open_def Let_def wakes_def)
  next
    case (Some g)
    have "snd (ws_open L E gen s) = None" using en by (simp add: client_ok_def)
    then have "snd (snd (handle_open L E (s\<lparr>cl_socket_open := True\<rparr>, []))) = None"
      using False Some by (simp add: ws_open_def Let_def split: prod.splits option.splits)
    then show ?thesis
      using wakes_handle_open [of L E "s\<lparr>cl_socket_open := True\<rparr>" "[]"] False Some
      by (simp add: ws_open_def Let_def)
  qed
qed

lemma wakes_worker_pass:
  assumes w: "wakes s"
  shows "wakes (worker_pass E s)"
proof -
  have "wakes (s\<lparr>cl_garbage := []\<rparr>)" "wakes (s\<lparr>cl_worker := W_done\<rparr>)"
    "wakes (attempt_begin (s\<lparr>cl_reconnect_scheduled := False\<rparr>))"
    using w by (simp_all add: wakes_def attempt_begin_def Let_def inactive_at_def)
  moreover have "wakes (s\<lparr>cl_worker := W_waiting (worker_deadline s)\<rparr>)"
    if "\<not> cl_stopping s" "cl_garbage s = []"
    using that by (simp add: wakes_def due_by_def worker_deadline_def inactive_at_def Let_def)
  ultimately show ?thesis using w by (simp add: worker_pass_def case_prod_unfold Let_def)
qed

lemma wakes_attempt_end:
  assumes "snd (attempt_end L E gen out r s) = None"
  shows "wakes (fst (attempt_end L E gen out r s))"
proof (cases "(cl_stopping s \<or> gen \<noteq> cl_conn_gen s) \<or> r \<noteq> Conn_made \<or> \<not> cl_pending_open s")
  case True
  have awake: "wakes (s\<lparr>cl_worker := W_running\<rparr>)" "wakes (s\<lparr>cl_worker := W_running, cl_garbage := g\<rparr>)" for g
    by (simp_all add: wakes_def)
  from True show ?thesis
    by (elim disjE) (simp_all add: attempt_end_def Let_def case_prod_unfold awake)
next
  case False
  let ?s = "s\<lparr>cl_worker := W_running, cl_conn := Some gen, cl_conn_slot := Some gen, cl_wire := [],
    cl_pending_open := False, cl_socket_open := True\<rparr>"
  have "snd (snd (handle_open L E (?s, out))) = None"
    using assms False by (simp add: attempt_end_def Let_def split: prod.splits option.splits)
  then show ?thesis
    using wakes_handle_open [of L E ?s out] False by (simp add: attempt_end_def Let_def)
qed

lemma wakes_step:
  assumes w: "wakes s" and ok: "conn_ok s" and en: "client_ok L s op"
  shows "wakes (client_step L s op)"
proof (cases op)
  case (Ws_open E gen)
  then show ?thesis using wakes_ws_open [OF w ok] en by (simp add: client_step_def)
next
  case (Ws_message E gen t)
  then show ?thesis using wakes_ws_message [OF w] en by (simp add: client_step_def client_ok_def)
next
  case (Ws_close E gen reason)
  then show ?thesis using w by (simp add: client_step_def ws_close_def case_prod_unfold Let_def)
next
  case (Worker_pass E)
  then show ?thesis using wakes_worker_pass [OF w] by (simp add: client_step_def)
next
  case (Connect_returns E r)
  then show ?thesis
    using w en wakes_attempt_end by (cases "cl_worker s") (simp_all add: client_ok_def client_step_def connect_returns_def)
next
  case (Do_subscribe p args cb)
  have "wakes (fst (do_subscribe L p args cb s))"
    by (rule do_subscribe_keeps) (use wakes_cong [OF w] in simp_all)
  then show ?thesis by (simp add: Do_subscribe client_step_def)
next
  case (Do_unsubscribe sid)
  have "wakes (s\<lparr>cl_subs := m, cl_base := b\<rparr>)" for m b by (rule wakes_cong [OF w]) simp_all
  then show ?thesis using w by (simp add: Do_unsubscribe client_step_def do_unsubscribe_def)
next
  case (Do_request m p args cb)
  have "wakes (s\<lparr>cl_delivered := d\<rparr>)" "wakes (s\<lparr>cl_base := b\<rparr>)" "wakes (s\<lparr>cl_base := b, cl_pending := q\<rparr>)"
    for d b q by (rule wakes_cong [OF w]; simp)+
  then show ?thesis
    by (simp add: Do_request client_step_def do_request_def split: prod.split sum.split)
next
  case (Do_set_auth tok f)
  have "wakes (s\<lparr>cl_fetcher := f, cl_consecutive_auth_errors := n, cl_base := b\<rparr>)" for n b
    by (rule wakes_cong [OF w]) simp_all
  then show ?thesis using w by (simp add: Do_set_auth client_step_def do_set_auth_def)
next
  case (Run_delivery n)
  have "wakes (hand_over out (s\<lparr>cl_in_flight := q\<rparr>))" for out q by (rule wakes_cong [OF w]) simp_all
  then show ?thesis using w by (simp add: Run_delivery client_step_def run_delivery_def)
next
  case Shutdown_begin
  then show ?thesis using w by (simp add: client_step_def shutdown_begin_def)
next
  case Shutdown_end
  then show ?thesis
    using en by (simp add: client_ok_def client_step_def shutdown_end_def wakes_def)
next
  case Process_events
  have "wakes (s\<lparr>cl_event_queue := q, cl_delivered := d\<rparr>)" for q d by (rule wakes_cong [OF w]) simp_all
  then show ?thesis by (simp add: Process_events client_step_def do_process_events_def)
qed (use w in \<open>auto simp: client_step_def worker_wake_def on_state_change_def on_auth_failure_def
      on_log_lines_def intro: wakes_cong [OF w]\<close>)

end
