(* ===== verification/ClientLink.thy ===== *)
theory ClientLink
  imports ClientRuns
begin

section \<open>The client drives its state machine within the contract\<close>

text \<open>
  Every section of \<open>client_impl\<close> calls the operations of \<open>base_client\<close> in some order; a run of the
  client therefore is, seen from its state machine, a session run in the sense of \<open>Session\<close>, and
  what was proved of those holds here. \<open>linked\<close> says which session: its client is \<open>base\<close>, and on
  an open connection the wire carries one Connect and then exactly the messages the session has
  sent since the last restart. The same invariant carries the accounting of the callbacks.
\<close>

definition sess_to :: "json_lib \<Rightarrow> session \<Rightarrow> session \<Rightarrow> bool" where
  "sess_to L ss ss' \<longleftrightarrow> (\<exists>ops. ok_run (session_step L) session_ok ss ops \<and> run (session_step L) ss ops = ss')"

lemma sess_to_refl [simp]: "sess_to L ss ss"
  unfolding sess_to_def by (rule exI [of _ "[]"]) simp

lemma sess_to_trans: "sess_to L a b \<Longrightarrow> sess_to L b c \<Longrightarrow> sess_to L a c"
proof -
  assume "sess_to L a b" "sess_to L b c"
  then obtain xs ys where "ok_run (session_step L) session_ok a xs" "run (session_step L) a xs = b"
    "ok_run (session_step L) session_ok b ys" "run (session_step L) b ys = c"
    unfolding sess_to_def by blast
  then show ?thesis
    unfolding sess_to_def by (intro exI [of _ "xs @ ys"]) (simp add: ok_run_append run_append)
qed

lemma sess_to_step: "session_ok ss op \<Longrightarrow> sess_to L ss (session_step L ss op)"
  unfolding sess_to_def by (rule exI [of _ "[op]"]) simp

lemma sess_to_inv: "sess_to L ss ss' \<Longrightarrow> session_inv ss \<Longrightarrow> session_inv ss'"
  unfolding sess_to_def using ss.run_keeps by blast

text \<open>Popping the whole queue.\<close>

lemma sess_to_pops: "sess_to L ss (ss\<lparr>ss_client := (ss_client ss)\<lparr>bc_outgoing := []\<rparr>,
    ss_sent := ss_sent ss @ bc_outgoing (ss_client ss)\<rparr>)"
proof (induction "bc_outgoing (ss_client ss)" arbitrary: ss)
  case Nil
  have "ss\<lparr>ss_client := (ss_client ss)\<lparr>bc_outgoing := []\<rparr>, ss_sent := ss_sent ss @ bc_outgoing (ss_client ss)\<rparr> = ss"
    unfolding Nil [symmetric] by (simp add: Nil)
  then show ?case by simp
next
  case (Cons m ms)
  define ss1 where "ss1 = ss\<lparr>ss_client := (ss_client ss)\<lparr>bc_outgoing := ms\<rparr>, ss_sent := ss_sent ss @ [m]\<rparr>"
  have step: "session_step L ss Pop = ss1"
    unfolding session_step.simps pop_next_message_def Cons(2) [symmetric] ss1_def by simp
  have "sess_to L ss1 (ss\<lparr>ss_client := (ss_client ss)\<lparr>bc_outgoing := []\<rparr>, ss_sent := ss_sent ss @ m # ms\<rparr>)"
    using Cons(1) [of ss1] by (simp add: ss1_def)
  with sess_to_step [of ss Pop L] show ?case
    unfolding step Cons(2) by (simp add: sess_to_trans)
qed

subsection \<open>The wire\<close>

definition is_open :: "client_state \<Rightarrow> bool" where
  "is_open s \<longleftrightarrow> \<not> cl_stopping s \<and> cl_socket_open s \<and> cl_conn s \<noteq> None"

definition on_wire :: "json_lib \<Rightarrow> client_message list \<Rightarrow> string list \<Rightarrow> bool" where
  "on_wire L ms frames \<longleftrightarrow> list_all2 (\<lambda>m f. encode_client_message L m = Inr f) ms frames"

lemma on_wire_append: "on_wire L ms fs \<Longrightarrow> on_wire L ns gs \<Longrightarrow> on_wire L (ms @ ns) (fs @ gs)"
  by (simp add: on_wire_def list_all2_appendI)

text \<open>\<open>prelinked\<close> is \<open>linked\<close> inside a section, before its \<open>drain_outgoing\<close>.\<close>

definition prelinked :: "json_lib \<Rightarrow> client_state \<Rightarrow> session \<Rightarrow> bool" where
  "prelinked L s ss \<longleftrightarrow> ss_client ss = cl_base s
     \<and> (if is_open s then \<exists>c. on_wire L (CM_connect c # ss_sent ss) (cl_wire s)
        else cl_stopping s \<or> ss_sent ss = [] \<and> cl_wire s = [])"

definition linked :: "json_lib \<Rightarrow> client_state \<Rightarrow> session \<Rightarrow> bool" where
  "linked L s ss \<longleftrightarrow> prelinked L s ss \<and> (is_open s \<longrightarrow> bc_outgoing (cl_base s) = [])"

lemma linked_cong:
  assumes "cl_stopping s' = cl_stopping s" "cl_socket_open s' = cl_socket_open s"
    "cl_conn s' = cl_conn s" "cl_base s' = cl_base s" "cl_wire s' = cl_wire s"
  shows "linked L s' ss = linked L s ss" and prelinked_cong: "prelinked L s' ss = prelinked L s ss"
  unfolding linked_def prelinked_def is_open_def assms by (rule refl)+

lemma linked_prelinked: "linked L s ss \<Longrightarrow> prelinked L s ss"
  by (simp add: linked_def)

text \<open>An operation of the state machine that pops nothing.\<close>

lemma prelinked_base:
  assumes "prelinked L s ss" "ss_client ss' = b" "ss_sent ss' = ss_sent ss"
  shows "prelinked L (s\<lparr>cl_base := b\<rparr>) ss'"
  using assms by (simp add: prelinked_def is_open_def)

lemma drain_linked:
  assumes pre: "prelinked L s ss" and d: "drain_outgoing L s = (s', None)"
    and stop: "cl_stopping s \<Longrightarrow> \<not> cl_socket_open s"
  shows "\<exists>ss'. sess_to L ss ss' \<and> linked L s' ss'"
proof (cases "is_open s")
  case True
  then have op: "cl_socket_open s" "cl_conn s \<noteq> None" by (simp_all add: is_open_def)
  obtain frames where s': "s' = s\<lparr>cl_base := (cl_base s)\<lparr>bc_outgoing := []\<rparr>, cl_wire := cl_wire s @ frames\<rparr>"
    and fr: "on_wire L (bc_outgoing (cl_base s)) frames"
    using drain_outgoing_open [OF d op] unfolding on_wire_def by blast
  obtain c where c: "on_wire L (CM_connect c # ss_sent ss) (cl_wire s)"
    using pre True by (auto simp: prelinked_def)
  define ss' where "ss' = ss\<lparr>ss_client := (ss_client ss)\<lparr>bc_outgoing := []\<rparr>,
    ss_sent := ss_sent ss @ bc_outgoing (ss_client ss)\<rparr>"
  have "on_wire L (CM_connect c # ss_sent ss') (cl_wire s')"
    using on_wire_append [OF c fr] pre by (simp add: s' ss'_def prelinked_def)
  then have "linked L s' ss'"
    using pre True by (auto simp: linked_def prelinked_def s' ss'_def is_open_def)
  then show ?thesis using sess_to_pops [of L ss] unfolding ss'_def by blast
next
  case False
  then have "s' = s" using d stop by (auto simp: is_open_def drain_outgoing_def split: if_splits)
  then show ?thesis using pre False by (intro exI [of _ ss]) (simp add: linked_def)
qed

lemma disconnect_linked:
  assumes base: "ss_client ss = cl_base s" and r: "restart tok (cl_base s) = (b, failed)"
  shows "sess_to L ss (session_step L ss (Restart tok)) \<and> linked L (disconnected E reason b p s) (session_step L ss (Restart tok))"
  using sess_to_step [of ss "Restart tok" L] base r
  by (simp add: linked_def prelinked_def is_open_def)

lemma handle_open_linked:
  assumes pre: "ss_client ss = cl_base s" "ss_sent ss = []" and op: "is_open s" "cl_wire s = []"
    and h: "handle_open L E (s, out) = (s', out', None)"
  shows "\<exists>ss'. sess_to L ss ss' \<and> linked L s' ss'"
proof -
  let ?reason = "cl_last_close_reason s" and ?ts = "Some (ev_wall_clock_ms E)"
  obtain b m where cm: "make_connect_message ?reason ?ts (cl_base s) = (b, m)" by fastforce
  define s2 where "s2 = s\<lparr>cl_last_server_msg := ev_now E, cl_state := Connected, cl_base := b\<rparr>"
  obtain frame where f: "encode_client_message L (CM_connect m) = Inr frame"
    using h cm by (cases "encode_client_message L (CM_connect m)") (simp_all add: handle_open_def Let_def)
  have d: "drain_outgoing L (s2\<lparr>cl_wire := [frame]\<rparr>) = (s', None)"
    using h cm f op(2) by (simp add: handle_open_def Let_def s2_def split: prod.splits)
  let ?ss1 = "session_step L ss (Make_connect ?reason ?ts)"
  have "prelinked L (s2\<lparr>cl_wire := [frame]\<rparr>) ?ss1"
    using pre op cm f by (auto simp: prelinked_def s2_def is_open_def on_wire_def)
  then obtain ss' where "sess_to L ?ss1 ss'" "linked L s' ss'"
    using drain_linked [OF _ d] op(1) by (auto simp: s2_def is_open_def)
  then show ?thesis using sess_to_trans [OF sess_to_step [of ss "Make_connect ?reason ?ts" L]] by auto
qed

lemma linked_frame [simp]:
  "linked L (deliver out s) ss = linked L s ss" "linked L (deliver_later out s) ss = linked L s ss"
  "linked L (notify_all s) ss = linked L s ss" "linked L (hand_over out s) ss = linked L s ss"
  by (rule linked_cong; simp)+

text \<open>Every section that ends the connection.\<close>

lemma begin_disconnect_linked:
  assumes "ss_client ss = cl_base s"
  shows "\<exists>ss'. sess_to L ss ss' \<and> linked L (fst (begin_disconnect E reason (s, out))) ss'"
proof -
  obtain b failed evs p where r: "restart (refreshed_token E s) (cl_base s) = (b, failed)"
    and d: "begin_disconnect E reason (s, out) = (disconnected E reason b p s,
      out @ (if cl_state s \<noteq> Disconnected then map (\<lambda>l. Ev_state l Disconnected) (cl_state_listeners s) else [])
        @ evs)"
    by (rule begin_disconnect_cases [of E s reason out])
  show ?thesis
    unfolding d by (rule exI [of _ "session_step L ss (Restart (refreshed_token E s))"])
      (use disconnect_linked [OF assms r] in simp)
qed

lemma open_section_linked:
  assumes pre: "ss_client ss = cl_base s" "ss_sent ss = []" and op: "is_open s" "cl_wire s = []"
    and quiet: "snd (case handle_open L E (s, out) of
      (s2, out2, Some e) \<Rightarrow> (s2, Some e) | (s2, out2, None) \<Rightarrow> (deliver out2 (notify_all s2), None)) = None"
  shows "\<exists>ss'. sess_to L ss ss' \<and> linked L (fst (case handle_open L E (s, out) of
      (s2, out2, Some e) \<Rightarrow> (s2, Some e) | (s2, out2, None) \<Rightarrow> (deliver out2 (notify_all s2), None))) ss'"
proof -
  obtain s2 out2 where h: "handle_open L E (s, out) = (s2, out2, None)"
    using quiet by (auto split: prod.splits option.splits)
  show ?thesis using handle_open_linked [OF pre op h] by (simp add: h)
qed

lemma linkedD:
  assumes "linked L s ss"
  shows "ss_client ss = cl_base s" "\<not> is_open s \<Longrightarrow> \<not> cl_stopping s \<Longrightarrow> ss_sent ss = []"
    "\<not> is_open s \<Longrightarrow> \<not> cl_stopping s \<Longrightarrow> cl_wire s = []"
  using assms by (auto simp: linked_def prelinked_def)

lemma sess_then: "sess_to L ss ss1 \<Longrightarrow> \<exists>ss'. sess_to L ss1 ss' \<and> P ss' \<Longrightarrow> \<exists>ss'. sess_to L ss ss' \<and> P ss'"
  using sess_to_trans by blast

lemma ws_open_linked:
  assumes lk: "linked L s ss" and closed: "gen = cl_conn_gen s \<longrightarrow> \<not> cl_socket_open s"
    and quiet: "snd (ws_open L E gen s) = None"
  shows "\<exists>ss'. sess_to L ss ss' \<and> linked L (fst (ws_open L E gen s)) ss'"
proof (cases "cl_stopping s \<or> gen \<noteq> cl_conn_gen s")
  case True
  then show ?thesis using lk by (intro exI [of _ ss]) (simp add: ws_open_def)
next
  case False
  then have run: "\<not> cl_stopping s" "\<not> is_open s" using closed by (simp_all add: is_open_def)
  note d = linkedD [OF lk]
  show ?thesis
  proof (cases "cl_conn s")
    case None
    then have "linked L (fst (ws_open L E gen s)) ss"
      using False d run by (simp add: ws_open_def Let_def linked_def prelinked_def is_open_def)
    then show ?thesis by (intro exI [of _ ss]) simp
  next
    case (Some g)
    then have eq: "ws_open L E gen s = (case handle_open L E (s\<lparr>cl_socket_open := True\<rparr>, []) of
        (s2, out2, Some e) \<Rightarrow> (s2, Some e) | (s2, out2, None) \<Rightarrow> (deliver out2 (notify_all s2), None))"
      using False by (simp add: ws_open_def Let_def)
    show ?thesis
      unfolding eq by (rule open_section_linked)
        (use d run Some quiet [unfolded eq] in \<open>simp_all add: is_open_def\<close>)
  qed
qed

lemma attempt_end_linked:
  assumes lk: "linked L s ss" and ok: "conn_ok s" and wk: "worker_gen (cl_worker s) = Some gen"
    and quiet: "snd (attempt_end L E gen out r s) = None"
  shows "\<exists>ss'. sess_to L ss ss' \<and> linked L (fst (attempt_end L E gen out r s)) ss'"
proof -
  let ?s0 = "s\<lparr>cl_worker := W_running\<rparr>"
  note d = linkedD [OF lk]
  show ?thesis
  proof (cases "cl_stopping s \<or> gen \<noteq> cl_conn_gen s")
    case True
    have "linked L ?s0 ss" "linked L (?s0\<lparr>cl_garbage := g\<rparr>) ss" for g
      using lk linked_cong [of ?s0 s L ss] linked_cong [of "?s0\<lparr>cl_garbage := g\<rparr>" s L ss] by simp_all
    then show ?thesis using True by (intro exI [of _ ss]) (simp add: attempt_end_def Let_def)
  next
    case False
    then have run: "\<not> cl_stopping s" "gen = cl_conn_gen s" by simp_all
    have none: "cl_conn s = None" using ok run wk by (simp add: conn_ok_def)
    then have closed: "\<not> is_open s" by (simp add: is_open_def)
    show ?thesis
    proof (cases "r = Conn_made")
      case made: True
      let ?s1 = "?s0\<lparr>cl_conn := Some gen, cl_conn_slot := Some gen, cl_wire := []\<rparr>"
      show ?thesis
      proof (cases "cl_pending_open s")
        case True
        let ?s2 = "?s1\<lparr>cl_pending_open := False, cl_socket_open := True\<rparr>"
        have eq: "attempt_end L E gen out r s = (case handle_open L E (?s2, out) of
            (s2, out2, Some e) \<Rightarrow> (s2, Some e) | (s2, out2, None) \<Rightarrow> (deliver out2 (notify_all s2), None))"
          using run made True by (simp add: attempt_end_def Let_def)
        show ?thesis
          unfolding eq by (rule open_section_linked)
            (use d run closed quiet [unfolded eq] in \<open>simp_all add: is_open_def\<close>)
      next
        case False
        then have "\<not> cl_socket_open s" using ok run none by (simp add: conn_ok_def)
        then have "linked L ?s1 ss" using d run closed by (simp add: linked_def prelinked_def is_open_def)
        then show ?thesis
          using run made False by (intro exI [of _ ss]) (simp add: attempt_end_def Let_def)
      qed
    next
      case False
      then have eq: "fst (attempt_end L E gen out r s) = (let reason =
            (if (case r of Conn_threw w \<Rightarrow> w | _ \<Rightarrow> []) = [] then ''ConnectFailed''
             else ''ConnectFailed: '' @ (case r of Conn_threw w \<Rightarrow> w | _ \<Rightarrow> []))
          in deliver (snd (begin_disconnect E reason (?s0\<lparr>cl_conn_slot := Some gen\<rparr>, out)))
            (fst (begin_disconnect E reason (?s0\<lparr>cl_conn_slot := Some gen\<rparr>, out))))"
        using run by (simp add: attempt_end_def Let_def case_prod_unfold)
      have "ss_client ss = cl_base (?s0\<lparr>cl_conn_slot := Some gen\<rparr>)" using d by simp
      then show ?thesis unfolding eq Let_def linked_frame by (rule begin_disconnect_linked)
    qed
  qed
qed

lemma conn_ok_stopped: "conn_ok s \<Longrightarrow> cl_stopping s \<Longrightarrow> \<not> cl_socket_open s"
  by (simp add: conn_ok_def)

text \<open>A public operation: the state machine's operation, then the queue goes out.\<close>

lemma op_drain_linked:
  assumes lk: "linked L s ss" and ok: "conn_ok s"
    and op: "session_ok ss op" "ss_client (session_step L ss op) = b"
      "ss_sent (session_step L ss op) = ss_sent ss"
    and s1: "cl_stopping s1 = cl_stopping s" "cl_socket_open s1 = cl_socket_open s" "cl_conn s1 = cl_conn s"
      "cl_base s1 = b" "cl_wire s1 = cl_wire s"
    and d: "drain_outgoing L s1 = (s2, None)"
  shows "\<exists>ss'. sess_to L ss ss' \<and> linked L s2 ss'"
proof (rule sess_then [OF sess_to_step [OF op(1)]])
  have "prelinked L (s\<lparr>cl_base := b\<rparr>) (session_step L ss op)"
    by (rule prelinked_base [OF linked_prelinked [OF lk] op(2,3)])
  then have "prelinked L s1 (session_step L ss op)"
    using prelinked_cong [of s1 "s\<lparr>cl_base := b\<rparr>" L] s1 by simp
  then show "\<exists>ss'. sess_to L (session_step L ss op) ss' \<and> linked L s2 ss'"
    by (rule drain_linked [OF _ d]) (use conn_ok_stopped [OF ok] s1 in simp)
qed

lemma receive_step:
  "receive_message msg (ss_client ss) = Inr (b, r) \<Longrightarrow>
   session_step L ss (Receive msg) = ss\<lparr>ss_client := b, ss_done := ss_done ss @ rr_completed_requests r\<rparr>"
  by simp

lemma auth_rejected_base:
  "cl_base (fst (auth_rejected r reason (s, out))) = cl_base s
   \<or> cl_base (fst (auth_rejected r reason (s, out))) = set_auth auth_token_none (cl_base s)"
  by (simp add: auth_rejected_def Let_def)

lemma dispatch_linked:
  assumes lk: "linked L s ss" and ok: "conn_ok s" and inv: "bc_inv (cl_base s)"
    and quiet: "snd (dispatch_message L E msg s) = None"
  shows "\<exists>ss'. sess_to L ss ss' \<and> linked L (fst (dispatch_message L E msg s)) ss'"
proof -
  note d = linkedD [OF lk]
  obtain b r where r: "receive_message msg (cl_base s) = Inr (b, r)"
    using receive_message_inv [OF inv, of msg] by blast
  let ?ss1 = "session_step L ss (Receive msg)" and ?s1 = "s\<lparr>cl_base := b\<rparr>"
  have ss1: "ss_client ?ss1 = b" "ss_sent ?ss1 = ss_sent ss" using r d(1) by simp_all
  have step: "sess_to L ss ?ss1" by (rule sess_to_step) simp
  show ?thesis
  proof (cases "rr_reconnect_reason r")
    case (Some reason)
    obtain x where x: "x = (if rr_auth_error r then auth_rejected r reason (?s1, log_events ?s1 (rr_log_entries r))
        else (?s1, log_events ?s1 (rr_log_entries r)))" by blast
    have eq: "fst (dispatch_message L E msg s) =
        deliver (snd (begin_disconnect E reason x)) (fst (begin_disconnect E reason x))"
      unfolding x by (simp add: dispatch_message_def r Some Let_def case_prod_unfold)
    have "\<exists>ss2. sess_to L ?ss1 ss2 \<and> ss_client ss2 = cl_base (fst x)"
    proof (cases "cl_base (fst x) = b")
      case True
      then show ?thesis using ss1 by (intro exI [of _ ?ss1]) simp
    next
      case False
      then have "cl_base (fst x) = set_auth auth_token_none b"
        using auth_rejected_base [of r reason ?s1 "log_events ?s1 (rr_log_entries r)"] x
        by (simp split: if_splits)
      then show ?thesis
        using sess_to_step [of ?ss1 "Set_auth auth_token_none" L] ss1
        by (intro exI [of _ "session_step L ?ss1 (Set_auth auth_token_none)"]) simp
    qed
    then obtain ss2 where "sess_to L ?ss1 ss2" "ss_client ss2 = cl_base (fst x)" by blast
    with begin_disconnect_linked [of ss2 "fst x" L E reason "snd x"] show ?thesis
      unfolding eq linked_frame prod.collapse by (intro sess_then [OF sess_to_trans [OF step]])
  next
    case None
    obtain evs p where c: "complete_pending (rr_completed_requests r) (cl_pending s) = (evs, p)" by fastforce
    define s3 where "s3 = (if rr_state_changed r \<and> has_synced_past_last_restart b
      then s\<lparr>cl_base := b, cl_pending := p, cl_retries := 0, cl_consecutive_auth_errors := 0\<rparr>
      else s\<lparr>cl_base := b, cl_pending := p\<rparr>)"
    obtain s4 where dr: "drain_outgoing L s3 = (s4, None)"
      and eq: "fst (dispatch_message L E msg s) = deliver (log_events ?s1 (rr_log_entries r)
        @ update_events ?s1 (rr_changed_queries r) @ evs) s4"
      using quiet c by (cases "drain_outgoing L s3")
        (simp add: dispatch_message_def r Let_def None s3_def [symmetric] split: option.splits)
    show ?thesis
      unfolding eq linked_frame
      by (rule op_drain_linked [OF lk ok _ ss1(1,2) _ _ _ _ _ dr]) (simp_all add: s3_def)
  qed
qed

lemma ws_message_linked:
  assumes lk: "linked L s ss" and ok: "conn_ok s" and inv: "bc_inv (cl_base s)"
    and quiet: "snd (ws_message L E gen t s) = None"
  shows "\<exists>ss'. sess_to L ss ss' \<and> linked L (fst (ws_message L E gen t s)) ss'"
proof (cases "cl_stopping s \<or> gen \<noteq> cl_conn_gen s")
  case True
  then show ?thesis using lk by (intro exI [of _ ss]) (simp add: ws_message_def)
next
  case False
  then have run: "\<not> cl_stopping s" "gen = cl_conn_gen s" by simp_all
  have upd: "linked L (s\<lparr>cl_last_server_msg := ev_now E, cl_chunk_assembler := a\<rparr>) ss"
    "conn_ok (s\<lparr>cl_last_server_msg := ev_now E, cl_chunk_assembler := a\<rparr>)" for a
    using lk ok linked_cong [of "s\<lparr>cl_last_server_msg := ev_now E, cl_chunk_assembler := a\<rparr>" s L ss] by simp_all
  show ?thesis
  proof (rule ws_message_cases [OF run, of L E t])
    fix w a assume eq: "ws_message L E gen t s =
      protocol_failure E w (s\<lparr>cl_last_server_msg := ev_now E, cl_chunk_assembler := a\<rparr>)"
    show ?thesis
      unfolding eq protocol_failure_def Let_def case_prod_unfold fst_conv linked_frame
      by (rule begin_disconnect_linked) (use linkedD [OF upd(1)] in simp)
  next
    fix e a assume "ws_message L E gen t s =
      (s\<lparr>cl_last_server_msg := ev_now E, cl_chunk_assembler := a\<rparr>, Some e)"
    then show ?thesis using quiet by simp
  next
    fix a assume "ws_message L E gen t s = (s\<lparr>cl_last_server_msg := ev_now E, cl_chunk_assembler := a\<rparr>, None)"
    then show ?thesis using upd by (intro exI [of _ ss]) simp
  next
    fix msg a assume eq: "ws_message L E gen t s =
      dispatch_message L E msg (s\<lparr>cl_last_server_msg := ev_now E, cl_chunk_assembler := a\<rparr>)"
    show ?thesis
      unfolding eq by (rule dispatch_linked [OF upd]) (use inv quiet [unfolded eq] in simp_all)
  qed
qed

lemma do_subscribe_linked:
  assumes lk: "linked L s ss" and ok: "conn_ok s" and en: "subscribe_ok (cl_base s)"
    and quiet: "\<not> is_ok (serialize_args L args) \<or> is_ok (snd (do_subscribe L p args cb s))"
  shows "\<exists>ss'. sess_to L ss ss' \<and> linked L (fst (do_subscribe L p args cb s)) ss'"
proof (rule do_subscribe_cases [of L p args s cb])
  fix b e
  assume "subscribe L p args (cl_base s) = (b, Inl e)" and eq: "do_subscribe L p args cb s = (s\<lparr>cl_base := b\<rparr>, Inl e)"
  then have "b = cl_base s" by (auto simp: subscribe_def split: sum.splits prod.splits)
  then show ?thesis using lk unfolding eq by (intro exI [of _ ss]) simp
next
  fix b sid s2 x
  assume sub: "subscribe L p args (cl_base s) = (b, Inr sid)"
    and d: "drain_outgoing L (s\<lparr>cl_base := b, cl_subs := add_entry sid cb (cl_subs s)\<rparr>) = (s2, x)"
    and eq: "do_subscribe L p args cb s = (case x of
         Some e \<Rightarrow> (s2, Inl e)
       | None \<Rightarrow> (deliver (case latest_result b (si_query sid) of None \<Rightarrow> [] | Some fr \<Rightarrow> [Ev_update cb fr]) s2, Inr sid))"
  have "is_ok (serialize_args L args)" using sub by (auto simp: subscribe_def split: sum.splits)
  then have x: "x = None" using quiet eq by (cases x) simp_all
  have "\<exists>ss'. sess_to L ss ss' \<and> linked L s2 ss'"
    by (rule op_drain_linked [OF lk ok, where op = "Subscribe p args", OF _ _ _ _ _ _ _ _ d [unfolded x]])
      (use en linkedD [OF lk] sub in simp_all)
  then show ?thesis unfolding eq by (simp add: x)
qed

lemma do_request_linked:
  assumes lk: "linked L s ss" and ok: "conn_ok s" and en: "request_id_free (cl_base s)"
    and inv: "bc_inv (cl_base s)"
    and quiet: "\<not> is_ok (serialize_args L args) \<or> snd (do_request L m p args cb s) = None"
  shows "\<exists>ss'. sess_to L ss ss' \<and> linked L (fst (do_request L m p args cb s)) ss'"
proof (cases "cl_stopping s")
  case True
  have "linked L (s\<lparr>cl_delivered := x\<rparr>) ss" for x
    using lk linked_cong [of "s\<lparr>cl_delivered := x\<rparr>" s L ss] by simp
  then show ?thesis using True by (intro exI [of _ ss]) (simp add: do_request_def)
next
  case False
  note d = linkedD [OF lk]
  define f where "f = (if m then mutation L p args else action L p args)"
  define op where "op = (if m then Mutation p args else Action p args)"
  have op: "session_ok ss op" "session_step L ss op = request_step f ss"
    using en d(1) by (simp_all add: op_def f_def)
  have exec: "do_request L m p args cb s = (case f (cl_base s) of
      (b, Inl e) \<Rightarrow> (s\<lparr>cl_base := b\<rparr>, Some e)
    | (b, Inr rid) \<Rightarrow> drain_outgoing L (s\<lparr>cl_base := b, cl_pending := om_emplace rid cb (cl_pending s)\<rparr>))"
    using False by (simp add: do_request_def f_def)
  show ?thesis
  proof (cases "serialize_args L args")
    case (Inl e)
    then have f: "f (cl_base s) = ((cl_base s)\<lparr>bc_next_request_id := bc_next_request_id (cl_base s) + 1\<rparr>, Inl e)"
      by (simp add: f_def mutation_def action_def enqueue_request_throws)
    have "prelinked L (s\<lparr>cl_base := fst (f (cl_base s))\<rparr>) (session_step L ss op)"
      by (rule prelinked_base [OF linked_prelinked [OF lk]]) (use f d(1) op(2) in \<open>simp_all add: request_step_def\<close>)
    then have "linked L (fst (do_request L m p args cb s)) (session_step L ss op)"
      using lk f by (simp add: exec linked_def is_open_def)
    then show ?thesis using sess_to_step [OF op(1)] by blast
  next
    case (Inr a)
    have "requests_ok (cl_base s)" using inv by (simp add: bc_inv_def)
    then obtain b where f: "f (cl_base s) = (b, Inr (bc_next_request_id (cl_base s)))"
      using enqueue_request_ok [OF _ Inr refl] by (cases m) (auto simp: f_def mutation_def action_def)
    have ss1: "ss_client (session_step L ss op) = b" "ss_sent (session_step L ss op) = ss_sent ss"
      using f d(1) op(2) by (simp_all add: request_step_def)
    obtain s2 where dr: "drain_outgoing L (s\<lparr>cl_base := b,
        cl_pending := om_emplace (bc_next_request_id (cl_base s)) cb (cl_pending s)\<rparr>) = (s2, None)"
      and eq: "fst (do_request L m p args cb s) = s2"
      using quiet Inr f exec by (cases "drain_outgoing L (s\<lparr>cl_base := b,
        cl_pending := om_emplace (bc_next_request_id (cl_base s)) cb (cl_pending s)\<rparr>)") auto
    show ?thesis
      unfolding eq by (rule op_drain_linked [OF lk ok op(1) ss1 _ _ _ _ _ dr]) simp_all
  qed
qed

lemma worker_pass_linked:
  assumes lk: "linked L s ss"
  shows "\<exists>ss'. sess_to L ss ss' \<and> linked L (worker_pass E s) ss'"
proof -
  have same: "\<exists>ss'. sess_to L ss ss' \<and> linked L s' ss'"
    if "cl_stopping s' = cl_stopping s" "cl_socket_open s' = cl_socket_open s" "cl_conn s' = cl_conn s"
      "cl_base s' = cl_base s" "cl_wire s' = cl_wire s" for s'
    using lk linked_cong [OF that, of L ss] by (intro exI [of _ ss]) simp
  have quiet: "\<exists>ss'. sess_to L ss ss' \<and> linked L (s\<lparr>cl_worker := w\<rparr>) ss'"
    "\<exists>ss'. sess_to L ss ss' \<and> linked L (s\<lparr>cl_garbage := g\<rparr>) ss'"
    "\<exists>ss'. sess_to L ss ss' \<and> linked L s ss'"
    "\<exists>ss'. sess_to L ss ss' \<and> linked L (attempt_begin (s\<lparr>cl_reconnect_scheduled := False\<rparr>)) ss'" for w g
    by (rule same; simp add: attempt_begin_def Let_def)+
  have "\<exists>ss'. sess_to L ss ss' \<and> linked L (fst (begin_disconnect E ''InactiveServer'' (s, []))) ss'"
    by (rule begin_disconnect_linked [OF linkedD(1) [OF lk]])
  then show ?thesis
    using quiet by (simp add: worker_pass_def case_prod_unfold Let_def)
qed

lemma client_step_linked:
  assumes lk: "linked L s ss" and ok: "conn_ok s" and inv: "bc_inv (cl_base s)" and en: "client_ok L s op"
  shows "\<exists>ss'. sess_to L ss ss' \<and> linked L (client_step L s op) ss'"
proof -
  have same: "\<exists>ss'. sess_to L ss ss' \<and> linked L s' ss'"
    if "cl_stopping s' = cl_stopping s" "cl_socket_open s' = cl_socket_open s" "cl_conn s' = cl_conn s"
      "cl_base s' = cl_base s" "cl_wire s' = cl_wire s" for s'
    using lk linked_cong [OF that, of L ss] by (intro exI [of _ ss]) simp
  note d = linkedD [OF lk]
  have via: "\<exists>ss'. sess_to L ss ss' \<and> linked L (fst (drain_outgoing L s1)) ss'"
    if "session_ok ss op" "ss_client (session_step L ss op) = b" "ss_sent (session_step L ss op) = ss_sent ss"
      "cl_stopping s1 = cl_stopping s" "cl_socket_open s1 = cl_socket_open s" "cl_conn s1 = cl_conn s"
      "cl_base s1 = b" "cl_wire s1 = cl_wire s" "snd (drain_outgoing L s1) = None" for s1 b op
    using op_drain_linked [OF lk ok that(1-8), of "fst (drain_outgoing L s1)"] that(9)
    by (metis prod.collapse)
  show ?thesis
  proof (cases op)
    case (Ws_open E gen)
    then show ?thesis
      using ws_open_linked [OF lk, of gen E] en by (simp add: client_ok_def client_step_def)
  next
    case (Ws_message E gen t)
    then show ?thesis
      using ws_message_linked [OF lk ok inv] en by (simp add: client_ok_def client_step_def)
  next
    case (Ws_close E gen reason)
    show ?thesis
    proof (cases "cl_stopping s \<or> gen \<noteq> cl_conn_gen s")
      case True
      then show ?thesis by (intro same) (simp_all add: Ws_close client_step_def ws_close_def)
    next
      case False
      then show ?thesis
        using begin_disconnect_linked [OF d(1), of L E reason "[]"]
        by (simp add: Ws_close client_step_def ws_close_def case_prod_unfold Let_def)
    qed
  next
    case (Worker_pass E)
    then show ?thesis using worker_pass_linked [OF lk] by (simp add: client_step_def)
  next
    case (Connect_returns E r)
    show ?thesis
    proof (cases "cl_worker s")
      case (W_connecting gen out)
      then show ?thesis
        using attempt_end_linked [OF lk ok, of gen E out r] en
        by (simp add: Connect_returns client_ok_def client_step_def connect_returns_def)
    qed (auto intro!: same simp: Connect_returns client_step_def connect_returns_def)
  next
    case (Do_subscribe p args cb)
    then show ?thesis
      using do_subscribe_linked [OF lk ok] en
      by (cases "snd (do_subscribe L p args cb s)")
         (auto simp: client_ok_def client_step_def thrown_def)
  next
    case (Do_unsubscribe sid)
    show ?thesis
    proof (cases "cl_stopping s")
      case True
      then show ?thesis by (intro same) (simp_all add: Do_unsubscribe client_step_def do_unsubscribe_def)
    next
      case False
      have "snd (drain_outgoing L (s\<lparr>cl_subs := drop_entry sid (cl_subs s),
          cl_base := unsubscribe sid (cl_base s)\<rparr>)) = None"
        using en False by (simp add: Do_unsubscribe client_ok_def do_unsubscribe_def)
      from via [where op = "Unsubscribe sid", OF _ _ _ _ _ _ _ _ this] show ?thesis
        using d(1) False by (simp add: Do_unsubscribe client_step_def do_unsubscribe_def)
    qed
  next
    case (Do_request m p args cb)
    then show ?thesis
      using do_request_linked [OF lk ok _ inv] en by (simp add: client_ok_def client_step_def) blast
  next
    case (Do_set_auth tok f)
    show ?thesis
    proof (cases "cl_stopping s")
      case True
      then show ?thesis by (intro same) (simp_all add: Do_set_auth client_step_def do_set_auth_def)
    next
      case False
      have "snd (drain_outgoing L (s\<lparr>cl_fetcher := f, cl_consecutive_auth_errors := 0,
          cl_base := set_auth tok (cl_base s)\<rparr>)) = None"
        using en False by (simp add: Do_set_auth client_ok_def do_set_auth_def)
      from via [where op = "Set_auth tok", OF _ _ _ _ _ _ _ _ this] show ?thesis
        using d(1) False by (simp add: Do_set_auth client_step_def do_set_auth_def)
    qed
  next
    case Shutdown_begin
    show ?thesis
    proof (cases "cl_stopping s")
      case False
      then have "linked L (shutdown_begin s) ss"
        using d(1) by (simp add: shutdown_begin_def linked_def prelinked_def is_open_def)
      then show ?thesis by (intro exI [of _ ss]) (simp add: Shutdown_begin client_step_def)
    qed (auto intro!: same simp: Shutdown_begin client_step_def shutdown_begin_def)
  qed (auto intro!: same simp: client_step_def worker_wake_def run_delivery_def do_process_events_def
       shutdown_end_def on_state_change_def on_auth_failure_def on_log_lines_def)
qed

end
