(* ===== verification/ClientCallbacks.thy ===== *)
theory ClientCallbacks
  imports ClientLink
begin

section \<open>The accounting of the result callbacks\<close>

text \<open>
  The callback of a request is in exactly one place: in the table of pending requests, in a list of
  events on its way to the user, among the callbacks \<open>shutdown\<close> is about to fail, or it has run.
  \<open>results_held\<close> counts them all; every step keeps the count but for the callbacks it registers.
\<close>

fun result_cb :: "event \<Rightarrow> callback list" where
  "result_cb (Ev_result cb r) = [cb]"
| "result_cb _ = []"

definition result_cbs :: "event list \<Rightarrow> callback list" where
  "result_cbs evs = concat (map result_cb evs)"

lemma result_cbs_simps [simp]:
  "result_cbs [] = []" "result_cbs (e # evs) = result_cb e @ result_cbs evs"
  "result_cbs (xs @ ys) = result_cbs xs @ result_cbs ys"
  by (simp_all add: result_cbs_def)

lemma result_cbs_none: "(\<And>e. e \<in> set evs \<Longrightarrow> result_cb e = []) \<Longrightarrow> result_cbs evs = []"
  by (simp add: result_cbs_def)

lemma result_cbs_map [simp]:
  "result_cbs (map (\<lambda>l. Ev_state l st) ls) = []"
  "result_cbs (map (\<lambda>l. Ev_auth_failure l w) ls) = []"
  "result_cbs (map (\<lambda>l. Ev_log l e) ls) = []"
  "result_cbs (map (\<lambda>x. Ev_update (f x) r) xs) = []"
  by (rule result_cbs_none; auto)+

lemma result_cbs_results [simp]: "result_cbs (map (\<lambda>cb. Ev_result cb r) cbs) = cbs"
  by (induction cbs) simp_all

lemma result_cbs_log [simp]: "result_cbs (log_events s entries) = []"
  by (induction entries) (simp_all add: log_events_def)

lemma result_cbs_update [simp]: "result_cbs (update_events s changed) = []"
  by (induction changed) (simp_all add: update_events_def split: option.split)

lemma result_cbs_state [simp]: "result_cbs (push_state_event s out) = result_cbs out"
  by (simp add: push_state_event_def)

fun worker_events :: "worker \<Rightarrow> event list" where
  "worker_events (W_connecting g out) = out"
| "worker_events _ = []"

definition results_held :: "client_state \<Rightarrow> callback multiset" where
  "results_held s = mset (map snd (cl_pending s)) + mset (cl_orphaned s)
     + mset (result_cbs (concat (cl_in_flight s))) + mset (result_cbs (cl_event_queue s))
     + mset (result_cbs (cl_delivered s)) + mset (result_cbs (worker_events (cl_worker s)))"

definition pending_ok :: "client_state \<Rightarrow> bool" where
  "pending_ok s \<longleftrightarrow> om_wf (cl_pending s)
     \<and> (if cl_stopping s then cl_pending s = []
        else cl_orphaned s = []
          \<and> fst ` set (cl_pending s) = fst ` set (bc_ongoing_requests (cl_base s)))"

text \<open>The callbacks an operation registers.\<close>

fun registers :: "json_lib \<Rightarrow> client_state \<Rightarrow> client_op \<Rightarrow> callback list" where
  "registers L s (Do_request m p args cb) =
     (if cl_stopping s \<or> is_ok (serialize_args L args) then [cb] else [])"
| "registers L s _ = []"

subsection \<open>The table of pending requests\<close>

lemma mset_vals_erase:
  assumes "om_wf m" "map_of m k = Some v"
  shows "mset (map snd m) = add_mset v (mset (map snd (om_erase k m)))"
  using assms
proof (induction m)
  case (Cons e m)
  obtain a b where e: "e = (a, b)" by (cases e)
  show ?case
  proof (cases "a = k")
    case True
    then have "map_of m k = None" using Cons.prems(1) by (auto simp: e om_wf_Cons map_of_eq_None_iff)
    then have "om_erase k m = m" using Cons.prems(1) by (simp add: e om_wf_Cons om.erase_absent)
    then show ?thesis using True Cons.prems(2) by (simp add: e om_erase_def)
  next
    case False
    then show ?thesis using Cons by (simp add: e om_wf_Cons om_erase_def)
  qed
qed simp

lemma mset_vals_emplace:
  assumes "om_wf m" "map_of m k = None"
  shows "mset (map snd (om_emplace k v m)) = add_mset v (mset (map snd m))"
proof -
  have "om_erase k (om_emplace k v m) = m" using assms by (simp add: om.erase_emplace_fresh)
  then show ?thesis using mset_vals_erase [of "om_emplace k v m" k v] assms by simp
qed

lemma complete_pending_spec:
  "\<lbrakk>om_wf p; complete_pending rs p = (evs, p')\<rbrakk> \<Longrightarrow> om_wf p'
     \<and> fst ` set p' = fst ` set p - fst ` set rs
     \<and> mset (map snd p) = mset (result_cbs evs) + mset (map snd p')"
proof (induction rs p arbitrary: evs p' rule: complete_pending.induct)
  case (2 rid r rs p)
  show ?case
  proof (cases "map_of p rid")
    case None
    then have "rid \<notin> fst ` set p" by (simp add: map_of_eq_None_iff)
    then show ?thesis using 2(1) [OF None 2(3)] 2(4) None by auto
  next
    case (Some cb)
    obtain evs1 where c: "complete_pending rs (om_erase rid p) = (evs1, p')" "evs = Ev_result cb r # evs1"
      using 2(4) Some by (auto split: prod.splits)
    have "fst ` set (om_erase rid p) = fst ` set p - {rid}" by (auto simp: set_om_erase)
    then show ?thesis
      using 2(2) [OF Some om_wf_erase [OF 2(3)] c(1)] mset_vals_erase [OF 2(3) Some] c(2)
      by (auto simp del: mset_map)
  qed
qed simp

lemma keys_partition:
  assumes "mset xs + mset ys = mset zs" "distinct zs"
  shows "set ys = set zs - set xs"
proof -
  have "mset (xs @ ys) = mset zs" using assms(1) by simp
  then have "distinct (xs @ ys)" "set (xs @ ys) = set zs"
    using assms(2) by (metis mset_eq_imp_distinct_iff, metis mset_eq_setD)
  then show ?thesis by auto
qed

lemma receive_keys:
  assumes inv: "bc_inv b" and r: "receive_message m b = Inr (b', out)"
  shows "fst ` set (bc_ongoing_requests b') =
    fst ` set (bc_ongoing_requests b) - fst ` set (rr_completed_requests out)"
proof -
  have "distinct (map fst (bc_ongoing_requests b))"
    using inv by (simp add: bc_inv_def requests_ok_def om_wf_distinct)
  from keys_partition [OF receive_message_requests [OF inv r] this] show ?thesis by simp
qed

lemma restart_keys:
  assumes inv: "bc_inv b" and r: "restart tok b = (b', failed)"
  shows "fst ` set (bc_ongoing_requests b') = fst ` set (bc_ongoing_requests b) - fst ` set failed"
proof -
  have "distinct (map fst (bc_ongoing_requests b))"
    using inv by (simp add: bc_inv_def requests_ok_def om_wf_distinct)
  from keys_partition [OF restart_requests_pair [OF r, symmetric] this] show ?thesis by simp
qed

text \<open>A message that asks for a reconnect completes nothing.\<close>

lemma flush_completed_quiet:
  "flush_completed w (b, out) = Inr (b', out') \<Longrightarrow> rr_reconnect_reason out' = rr_reconnect_reason out"
  by (auto simp: flush_completed_def bindr_eq_Inr split: prod.splits)

lemma reconnect_completes_nothing:
  assumes inv: "bc_inv b" and r: "receive_message m b = Inr (b', out)"
    and reason: "rr_reconnect_reason out \<noteq> None"
  shows "rr_completed_requests out = []"
proof (cases m)
  case (SV_transition t)
  show ?thesis
  proof (cases "tr_start_version t = bc_remote_version b")
    case True
    then show ?thesis
      using r reason handle_transition_eq [OF inv True] by (auto simp: SV_transition no_receive_result_def)
  next
    case False
    then show ?thesis using r by (auto simp: SV_transition handle_transition_def no_receive_result_def)
  qed
next
  case (SV_mutation_response mr)
  have "rr_reconnect_reason out = None"
    using r flush_completed_quiet
    by (auto simp: SV_mutation_response handle_mutation_response_def Let_def complete_request_def
        push_log_def no_receive_result_def split: option.splits if_splits dest!: flush_completed_quiet)
  then show ?thesis using reason by simp
next
  case (SV_action_response a)
  then show ?thesis
    using r reason by (auto simp: handle_action_response_def complete_request_def push_log_def
        no_receive_result_def split: option.splits if_splits)
qed (use r in \<open>auto simp: no_receive_result_def\<close>)

subsection \<open>The sections\<close>

text \<open>\<open>held_out\<close> counts inside a section, where \<open>out\<close> is a local variable.\<close>

definition held_out :: "client_state \<times> event list \<Rightarrow> callback multiset" where
  "held_out x = results_held (fst x) + mset (result_cbs (snd x))"

lemma held_cong:
  "\<lbrakk>cl_pending s' = cl_pending s; cl_orphaned s' = cl_orphaned s; cl_in_flight s' = cl_in_flight s;
    cl_event_queue s' = cl_event_queue s; cl_delivered s' = cl_delivered s;
    worker_events (cl_worker s') = worker_events (cl_worker s)\<rbrakk> \<Longrightarrow> results_held s' = results_held s"
  by (simp add: results_held_def)

lemma pending_cong:
  "\<lbrakk>cl_pending s' = cl_pending s; cl_orphaned s' = cl_orphaned s; cl_stopping s' = cl_stopping s;
    bc_ongoing_requests (cl_base s') = bc_ongoing_requests (cl_base s)\<rbrakk> \<Longrightarrow> pending_ok s' = pending_ok s"
  by (simp add: pending_ok_def)

lemma held_frame [simp]:
  "results_held (notify_all s) = results_held s" "pending_ok (notify_all s) = pending_ok s"
  "pending_ok (deliver out s) = pending_ok s" "pending_ok (deliver_later out s) = pending_ok s"
  "pending_ok (hand_over out s) = pending_ok s"
  by (simp_all add: results_held_def pending_ok_def notify_all_worker split: worker.split)

lemma held_deliver [simp]:
  "results_held (deliver out s) = held_out (s, out)"
  "results_held (deliver_later out s) = held_out (s, out)"
  "results_held (hand_over out s) = held_out (s, out)"
  by (simp_all add: results_held_def held_out_def deliver_def deliver_later_def hand_over_def
      split: delivery.split)

lemma drain_loop_frame: "\<exists>q. fst (drain_loop L b) = b\<lparr>bc_outgoing := q\<rparr>"
proof (induction L b rule: drain_loop.induct)
  case (1 L b)
  show ?case
  proof (cases "bc_outgoing b")
    case Nil
    then have "b\<lparr>bc_outgoing := []\<rparr> = b" by (cases b) simp
    with Nil show ?thesis
      by (intro exI [of _ "[]"]) (simp add: drain_loop.simps [of L b] pop_next_message_def)
  next
    case (Cons m ms)
    have pop: "pop_next_message b = (b\<lparr>bc_outgoing := ms\<rparr>, Some m)"
      using Cons by (simp add: pop_next_message_def)
    show ?thesis
    proof (cases "encode_client_message L m")
      case (Inl e)
      then show ?thesis by (intro exI [of _ ms]) (simp add: drain_loop.simps [of L b] pop)
    next
      case (Inr f)
      obtain q where "fst (drain_loop L (b\<lparr>bc_outgoing := ms\<rparr>)) = b\<lparr>bc_outgoing := q\<rparr>"
        using 1 [OF pop [symmetric] refl Inr] by auto
      then show ?thesis
        by (intro exI [of _ q]) (simp add: drain_loop.simps [of L b] pop Inr case_prod_unfold Let_def)
    qed
  qed
qed

lemma drain_requests [simp]:
  "results_held (fst (drain_outgoing L s)) = results_held s"
  "pending_ok (fst (drain_outgoing L s)) = pending_ok s"
proof -
  have "bc_ongoing_requests (fst (drain_loop L b)) = bc_ongoing_requests b" for b
    using drain_loop_frame [of L b] by auto
  then have "bc_ongoing_requests (cl_base (fst (drain_outgoing L s))) = bc_ongoing_requests (cl_base s)"
    by (simp add: drain_outgoing_def case_prod_unfold Let_def)
  moreover obtain b w where "fst (drain_outgoing L s) = s\<lparr>cl_base := b, cl_wire := w\<rparr>"
    using drain_outgoing_frame by blast
  ultimately show "results_held (fst (drain_outgoing L s)) = results_held s"
    "pending_ok (fst (drain_outgoing L s)) = pending_ok s"
    by (simp_all add: results_held_def pending_ok_def)
qed

lemma handle_open_results:
  "held_out (fst (handle_open L E (s, out)), fst (snd (handle_open L E (s, out)))) = held_out (s, out)"
  "pending_ok (fst (handle_open L E (s, out))) = pending_ok s"
proof -
  obtain b m where cm: "make_connect_message (cl_last_close_reason s) (Some (ev_wall_clock_ms E)) (cl_base s) = (b, m)"
    by fastforce
  then have b: "bc_ongoing_requests b = bc_ongoing_requests (cl_base s)"
    by (auto simp: make_connect_message_def)
  let ?s2 = "s\<lparr>cl_last_server_msg := ev_now E, cl_state := Connected, cl_base := b\<rparr>"
  have upd: "results_held (?s2\<lparr>cl_wire := w\<rparr>) = results_held s" "results_held ?s2 = results_held s"
    "pending_ok (?s2\<lparr>cl_wire := w\<rparr>) = pending_ok s" "pending_ok ?s2 = pending_ok s" for w
    using b by (simp_all add: results_held_def pending_ok_def)
  show "held_out (fst (handle_open L E (s, out)), fst (snd (handle_open L E (s, out)))) = held_out (s, out)"
    "pending_ok (fst (handle_open L E (s, out))) = pending_ok s"
    using cm upd by (simp_all add: handle_open_def Let_def case_prod_unfold held_out_def split: sum.split)
qed

lemma begin_disconnect_results:
  assumes ok: "pending_ok s" and run: "\<not> cl_stopping s" and inv: "bc_inv (cl_base s)"
  shows "held_out (begin_disconnect E reason (s, out)) = held_out (s, out)
    \<and> pending_ok (fst (begin_disconnect E reason (s, out)))"
proof -
  obtain b failed evs p where r: "restart (refreshed_token E s) (cl_base s) = (b, failed)"
    and c: "complete_pending failed (cl_pending s) = (evs, p)"
    and d: "begin_disconnect E reason (s, out) = (disconnected E reason b p s,
      out @ (if cl_state s \<noteq> Disconnected then map (\<lambda>l. Ev_state l Disconnected) (cl_state_listeners s) else [])
        @ evs)"
    by (rule begin_disconnect_cases [of E s reason out])
  have wf: "om_wf (cl_pending s)" and keys: "fst ` set (cl_pending s) = fst ` set (bc_ongoing_requests (cl_base s))"
    and orph: "cl_orphaned s = []"
    using ok run by (simp_all add: pending_ok_def)
  note cp = complete_pending_spec [OF wf c]
  have "worker_events (cl_worker (disconnected E reason b p s)) = worker_events (cl_worker s)"
    by (simp split: worker.split)
  then have "held_out (begin_disconnect E reason (s, out)) = held_out (s, out)"
    using cp by (simp add: d held_out_def results_held_def ac_simps del: mset_map)
  moreover have "pending_ok (disconnected E reason b p s)"
    using cp keys restart_keys [OF inv r] run orph by (simp add: pending_ok_def)
  ultimately show ?thesis by (simp add: d)
qed

lemma auth_rejected_results:
  "held_out (auth_rejected r reason (s, out)) = held_out (s, out)
   \<and> pending_ok (fst (auth_rejected r reason (s, out))) = pending_ok s
   \<and> cl_stopping (fst (auth_rejected r reason (s, out))) = cl_stopping s"
proof -
  have "bc_ongoing_requests (set_auth auth_token_none b) = bc_ongoing_requests b" for b
    by (simp add: set_auth_def push_outgoing_def)
  then show ?thesis
    by (simp add: auth_rejected_def Let_def held_out_def results_held_def pending_ok_def)
qed

text \<open>A step that keeps the table in order and changes the count by what it registers.\<close>

definition accounts :: "client_state \<Rightarrow> callback multiset \<Rightarrow> client_state \<Rightarrow> bool" where
  "accounts s new s' \<longleftrightarrow> pending_ok s' \<and> results_held s' = results_held s + new"

lemma accounts_same:
  "\<lbrakk>pending_ok s; cl_pending s' = cl_pending s; cl_orphaned s' = cl_orphaned s; cl_stopping s' = cl_stopping s;
    bc_ongoing_requests (cl_base s') = bc_ongoing_requests (cl_base s); cl_in_flight s' = cl_in_flight s;
    cl_event_queue s' = cl_event_queue s; cl_delivered s' = cl_delivered s;
    worker_events (cl_worker s') = worker_events (cl_worker s)\<rbrakk> \<Longrightarrow> accounts s {#} s'"
  by (simp add: accounts_def results_held_def pending_ok_def)

lemma accounts_drain [simp]: "accounts s new (fst (drain_outgoing L s')) = accounts s new s'"
  by (simp add: accounts_def)

lemma accounts_dispatch:
  assumes ok: "pending_ok s" and run: "\<not> cl_stopping s" and inv: "bc_inv (cl_base s)"
    and quiet: "snd (dispatch_message L E msg s) = None"
  shows "accounts s {#} (fst (dispatch_message L E msg s))"
proof -
  obtain b r where r: "receive_message msg (cl_base s) = Inr (b, r)" and b: "bc_inv b"
    using receive_message_inv [OF inv, of msg] by blast
  note keys = receive_keys [OF inv r]
  let ?s1 = "s\<lparr>cl_base := b\<rparr>"
  have wf: "om_wf (cl_pending s)" and orph: "cl_orphaned s = []"
    and dom: "fst ` set (cl_pending s) = fst ` set (bc_ongoing_requests (cl_base s))"
    using ok run by (simp_all add: pending_ok_def)
  show ?thesis
  proof (cases "rr_reconnect_reason r")
    case (Some reason)
    have "rr_completed_requests r = []" using reconnect_completes_nothing [OF inv r] Some by simp
    then have ok1: "pending_ok ?s1" using keys wf orph dom run by (simp add: pending_ok_def)
    obtain x where x: "x = (if rr_auth_error r then auth_rejected r reason (?s1, log_events ?s1 (rr_log_entries r))
        else (?s1, log_events ?s1 (rr_log_entries r)))" by blast
    have eq: "fst (dispatch_message L E msg s) =
        deliver (snd (begin_disconnect E reason x)) (fst (begin_disconnect E reason x))"
      unfolding x by (simp add: dispatch_message_def r Some Let_def case_prod_unfold)
    have "held_out (?s1, log_events ?s1 (rr_log_entries r)) = results_held s"
      by (simp add: held_out_def results_held_def)
    then have xx: "held_out x = results_held s" "pending_ok (fst x)" "\<not> cl_stopping (fst x)"
      using auth_rejected_results [of r reason ?s1 "log_events ?s1 (rr_log_entries r)"] ok1 run
      by (simp_all add: x)
    moreover have "bc_inv (cl_base (fst x))"
      using auth_rejected_base [of r reason ?s1 "log_events ?s1 (rr_log_entries r)"] b set_auth_inv [OF b] x
      by (auto split: if_splits)
    ultimately show ?thesis
      using begin_disconnect_results [of "fst x" E reason "snd x"]
      unfolding eq accounts_def by simp
  next
    case None
    obtain evs p where c: "complete_pending (rr_completed_requests r) (cl_pending s) = (evs, p)" by fastforce
    note cp = complete_pending_spec [OF wf c]
    define s3 where "s3 = (if rr_state_changed r \<and> has_synced_past_last_restart b
      then s\<lparr>cl_base := b, cl_pending := p, cl_retries := 0, cl_consecutive_auth_errors := 0\<rparr>
      else s\<lparr>cl_base := b, cl_pending := p\<rparr>)"
    have s3: "pending_ok s3" "results_held s3 + mset (result_cbs evs) = results_held s"
      using cp keys dom orph run
      by (simp_all add: s3_def pending_ok_def results_held_def ac_simps del: mset_map)
    obtain s4 where dr: "drain_outgoing L s3 = (s4, None)"
      and eq: "fst (dispatch_message L E msg s) = deliver (log_events ?s1 (rr_log_entries r)
        @ update_events ?s1 (rr_changed_queries r) @ evs) s4"
      using quiet c by (cases "drain_outgoing L s3")
        (simp add: dispatch_message_def r Let_def None s3_def [symmetric] split: option.splits)
    have "pending_ok s4" "results_held s4 = results_held s3" using drain_requests [of L s3] dr s3(1) by simp_all
    then show ?thesis using s3(2) by (simp add: eq accounts_def held_out_def ac_simps)
  qed
qed

lemma accounts_disconnect:
  assumes "pending_ok s" "\<not> cl_stopping s" "bc_inv (cl_base s)" "result_cbs out = []"
  shows "accounts s {#} (deliver (snd (begin_disconnect E reason (s, out))) (fst (begin_disconnect E reason (s, out))))"
    "accounts s {#} (deliver_later (snd (begin_disconnect E reason (s, out))) (fst (begin_disconnect E reason (s, out))))"
  using begin_disconnect_results [OF assms(1-3), of E reason out] assms(4)
  by (simp_all add: accounts_def) (simp_all add: held_out_def)

lemma accounts_ws_message:
  assumes ok: "pending_ok s" and inv: "bc_inv (cl_base s)" and quiet: "snd (ws_message L E gen t s) = None"
  shows "accounts s {#} (fst (ws_message L E gen t s))"
proof (cases "cl_stopping s \<or> gen \<noteq> cl_conn_gen s")
  case True
  then show ?thesis by (simp add: ws_message_def accounts_same [OF ok])
next
  case False
  then have run: "\<not> cl_stopping s" "gen = cl_conn_gen s" by simp_all
  let ?u = "\<lambda>a. s\<lparr>cl_last_server_msg := ev_now E, cl_chunk_assembler := a\<rparr>"
  have u: "pending_ok (?u a)" "bc_inv (cl_base (?u a))" "\<not> cl_stopping (?u a)"
    "accounts s {#} (?u a)" "accounts (?u a) new s' = accounts s new s'" for a s' new
    using ok inv run by (simp_all add: pending_ok_def accounts_def results_held_def)
  show ?thesis
  proof (rule ws_message_cases [OF run, of L E t])
    fix w a assume eq: "ws_message L E gen t s = protocol_failure E w (?u a)"
    show ?thesis
      using accounts_disconnect(2) [OF u(1,3,2), of "[]" a E "''ProtocolError: '' @ w"]
      by (simp add: eq protocol_failure_def case_prod_unfold Let_def u(5))
  next
    fix msg a assume eq: "ws_message L E gen t s = dispatch_message L E msg (?u a)"
    show ?thesis
      using accounts_dispatch [OF u(1,3,2), of L E msg a] quiet by (simp add: eq u(5))
  qed (use quiet u(4) in simp_all)
qed

lemma accounts_after_open:
  assumes "snd (case handle_open L E (s, out) of
      (s2, out2, Some e) \<Rightarrow> (s2, Some e) | (s2, out2, None) \<Rightarrow> (deliver out2 (notify_all s2), None)) = None"
    and "pending_ok s" "held_out (s, out) = results_held s0"
  shows "accounts s0 {#} (fst (case handle_open L E (s, out) of
      (s2, out2, Some e) \<Rightarrow> (s2, Some e) | (s2, out2, None) \<Rightarrow> (deliver out2 (notify_all s2), None)))"
proof -
  obtain s2 out2 where h: "handle_open L E (s, out) = (s2, out2, None)"
    using assms(1) by (auto split: prod.splits option.splits)
  have "held_out (s2, out2) = held_out (s, out)" "pending_ok s2 = pending_ok s"
    using handle_open_results [of L E s out] h by simp_all
  then show ?thesis using assms(2,3) h by (simp add: accounts_def held_out_def)
qed

lemma accounts_attempt_end:
  assumes ok: "pending_ok s" and inv: "bc_inv (cl_base s)" and wk: "cl_worker s = W_connecting gen out"
    and quiet: "snd (attempt_end L E gen out r s) = None"
  shows "accounts s {#} (fst (attempt_end L E gen out r s))"
proof -
  let ?s0 = "s\<lparr>cl_worker := W_running\<rparr>"
  have upd: "pending_ok (?s0\<lparr>cl_garbage := g\<rparr>)" "pending_ok ?s0"
    "held_out (?s0\<lparr>cl_garbage := g\<rparr>, out) = results_held s" "held_out (?s0, out) = results_held s" for g
    using ok wk by (simp_all add: pending_ok_def held_out_def results_held_def ac_simps)
  show ?thesis
  proof (cases "cl_stopping s \<or> gen \<noteq> cl_conn_gen s")
    case True
    then show ?thesis using upd by (simp add: attempt_end_def Let_def accounts_def)
  next
    case False
    then have run: "\<not> cl_stopping s" by simp
    show ?thesis
    proof (cases "r = Conn_made")
      case made: True
      let ?s1 = "?s0\<lparr>cl_conn := Some gen, cl_conn_slot := Some gen, cl_wire := []\<rparr>"
      let ?s2 = "?s1\<lparr>cl_pending_open := False, cl_socket_open := True\<rparr>"
      have "pending_ok ?s2" "held_out (?s2, out) = results_held s" "pending_ok ?s1"
        "held_out (?s1, out) = results_held s"
        using ok wk by (simp_all add: pending_ok_def held_out_def results_held_def ac_simps)
      then show ?thesis
        using quiet False made accounts_after_open [of L E ?s2 out s]
        by (cases "cl_pending_open s") (simp_all add: attempt_end_def Let_def accounts_def held_out_def)
    next
      case False
      let ?s1 = "?s0\<lparr>cl_conn_slot := Some gen\<rparr>"
      have "pending_ok ?s1" "held_out (?s1, out) = results_held s"
        using ok wk by (simp_all add: pending_ok_def held_out_def results_held_def ac_simps)
      then show ?thesis
        using begin_disconnect_results [of ?s1 E _ out] inv run \<open>\<not> (cl_stopping s \<or> gen \<noteq> cl_conn_gen s)\<close> False
        by (simp add: attempt_end_def Let_def case_prod_unfold accounts_def)
    qed
  qed
qed

lemma accounts_worker_pass:
  assumes ok: "pending_ok s" and inv: "bc_inv (cl_base s)"
  shows "accounts s {#} (worker_pass E s)"
proof (cases "cl_worker s = W_running")
  case True
  have same: "accounts s {#} (s\<lparr>cl_garbage := []\<rparr>)" "accounts s {#} s" "accounts s {#} (s\<lparr>cl_worker := W_done\<rparr>)"
    "accounts s {#} (s\<lparr>cl_worker := W_waiting d\<rparr>)" for d
    by (rule accounts_same [OF ok]; simp add: True)+
  have begun: "accounts s {#} (attempt_begin (s\<lparr>cl_reconnect_scheduled := False\<rparr>))"
    using ok True by (simp add: accounts_def results_held_def pending_ok_def attempt_begin_def Let_def)
  have "accounts s {#} (deliver (snd (begin_disconnect E ''InactiveServer'' (s, [])))
      (fst (begin_disconnect E ''InactiveServer'' (s, []))))" if "\<not> cl_stopping s"
    by (rule accounts_disconnect(1) [OF ok that inv]) simp
  then show ?thesis using same begun by (simp add: worker_pass_def case_prod_unfold Let_def)
next
  case False
  then show ?thesis by (simp add: worker_pass_def accounts_same [OF ok])
qed

lemma accounts_ws_open:
  assumes ok: "pending_ok s" and quiet: "snd (ws_open L E gen s) = None"
  shows "accounts s {#} (fst (ws_open L E gen s))"
proof (cases "cl_stopping s \<or> gen \<noteq> cl_conn_gen s")
  case True
  then show ?thesis by (simp add: ws_open_def accounts_same [OF ok])
next
  case False
  let ?s1 = "s\<lparr>cl_socket_open := True\<rparr>"
  have "pending_ok ?s1" "held_out (?s1, []) = results_held s"
    using ok by (simp_all add: pending_ok_def held_out_def results_held_def)
  moreover have "accounts s {#} (?s1\<lparr>cl_pending_open := True\<rparr>)" by (rule accounts_same [OF ok]) simp_all
  ultimately show ?thesis
    using False quiet accounts_after_open [of L E ?s1 "[]" s]
    by (cases "cl_conn s") (simp_all add: ws_open_def Let_def)
qed

lemma accounts_do_subscribe:
  assumes ok: "pending_ok s"
  shows "is_ok (snd (do_subscribe L p args cb s)) \<or> \<not> is_ok (serialize_args L args)
    \<Longrightarrow> accounts s {#} (fst (do_subscribe L p args cb s))"
proof (rule do_subscribe_cases [of L p args s cb])
  fix b e
  assume sub: "subscribe L p args (cl_base s) = (b, Inl e)"
    and eq: "do_subscribe L p args cb s = (s\<lparr>cl_base := b\<rparr>, Inl e)"
  have "bc_ongoing_requests b = bc_ongoing_requests (cl_base s)"
    using subscribe_requests [of L p args "cl_base s"] sub by simp
  then show ?thesis unfolding eq by (simp add: accounts_same [OF ok])
next
  fix b sid s2 x
  assume sub: "subscribe L p args (cl_base s) = (b, Inr sid)"
    and d: "drain_outgoing L (s\<lparr>cl_base := b, cl_subs := add_entry sid cb (cl_subs s)\<rparr>) = (s2, x)"
    and eq: "do_subscribe L p args cb s = (case x of
         Some e \<Rightarrow> (s2, Inl e)
       | None \<Rightarrow> (deliver (case latest_result b (si_query sid) of None \<Rightarrow> [] | Some fr \<Rightarrow> [Ev_update cb fr]) s2, Inr sid))"
  let ?s1 = "s\<lparr>cl_base := b, cl_subs := add_entry sid cb (cl_subs s)\<rparr>"
  have "bc_ongoing_requests b = bc_ongoing_requests (cl_base s)"
    using subscribe_requests [of L p args "cl_base s"] sub by simp
  then have "accounts s {#} ?s1" by (intro accounts_same [OF ok]) simp_all
  then have "accounts s {#} s2" using accounts_drain [of s "{#}" L ?s1] unfolding d by simp
  then show ?thesis
    unfolding eq by (cases x) (simp_all add: accounts_def held_out_def split: option.split)
qed

lemma accounts_do_request:
  assumes ok: "pending_ok s" and inv: "bc_inv (cl_base s)"
  shows "accounts s (mset (registers L s (Do_request m p args cb))) (fst (do_request L m p args cb s))"
proof (cases "cl_stopping s")
  case True
  then show ?thesis
    using ok by (simp add: do_request_def accounts_def results_held_def pending_ok_def)
next
  case False
  define f where "f = (if m then mutation L p args else action L p args)"
  have exec: "fst (do_request L m p args cb s) = (case f (cl_base s) of
      (b, Inl e) \<Rightarrow> s\<lparr>cl_base := b\<rparr>
    | (b, Inr rid) \<Rightarrow> fst (drain_outgoing L (s\<lparr>cl_base := b, cl_pending := om_emplace rid cb (cl_pending s)\<rparr>)))"
    using False by (simp add: do_request_def f_def split: prod.split sum.split)
  show ?thesis
  proof (cases "serialize_args L args")
    case (Inl e)
    then have f: "f (cl_base s) = ((cl_base s)\<lparr>bc_next_request_id := bc_next_request_id (cl_base s) + 1\<rparr>, Inl e)"
      by (simp add: f_def mutation_def action_def enqueue_request_throws)
    show ?thesis using Inl False by (simp add: exec f accounts_same [OF ok])
  next
    case (Inr a)
    let ?rid = "bc_next_request_id (cl_base s)"
    have r: "requests_ok (cl_base s)" using inv by (simp add: bc_inv_def)
    obtain k mk where "f (cl_base s) = enqueue_request k mk L p args (cl_base s)"
      by (cases m) (simp_all add: f_def mutation_def action_def)
    then obtain msg where f: "f (cl_base s) = (push_outgoing msg (new_request k msg (cl_base s)), Inr ?rid)"
      using enqueue_request_ok [OF r Inr refl] by metis
    have keys: "fst ` set (bc_ongoing_requests (push_outgoing msg (new_request k msg (cl_base s)))) =
        insert ?rid (fst ` set (bc_ongoing_requests (cl_base s)))"
      by (simp add: push_outgoing_def new_request_def keys_om_insert)
    have wf: "om_wf (cl_pending s)" and orph: "cl_orphaned s = []"
      and dom: "fst ` set (cl_pending s) = fst ` set (bc_ongoing_requests (cl_base s))"
      using ok False by (simp_all add: pending_ok_def)
    have "?rid \<notin> fst ` set (cl_pending s)"
      using fresh_request_id [OF r] by (simp add: dom map_of_eq_None_iff)
    then have fresh: "map_of (cl_pending s) ?rid = None" by (simp add: map_of_eq_None_iff)
    have "fst ` set (om_emplace ?rid cb (cl_pending s)) = insert ?rid (fst ` set (cl_pending s))"
      using om_emplace_fresh [OF fresh] by (simp add: keys_om_insert)
    then have "accounts s {#cb#} (s\<lparr>cl_base := push_outgoing msg (new_request k msg (cl_base s)),
        cl_pending := om_emplace ?rid cb (cl_pending s)\<rparr>)"
      using False keys dom orph om_wf_emplace [OF wf] mset_vals_emplace [OF wf fresh, of cb]
      by (simp add: accounts_def pending_ok_def results_held_def del: mset_map)
    then show ?thesis using False Inr by (simp add: exec f)
  qed
qed

lemma mset_concat_nth: "n < length xss \<Longrightarrow>
    mset (result_cbs (concat xss)) = mset (result_cbs (xss ! n)) + mset (result_cbs (concat (drop_nth n xss)))"
proof -
  assume n: "n < length xss"
  have "xss = take n xss @ xss ! n # drop (Suc n) xss" using n by (simp add: id_take_nth_drop)
  then have "mset (result_cbs (concat xss)) = mset (result_cbs (concat (take n xss @ xss ! n # drop (Suc n) xss)))"
    by simp
  then show ?thesis by (simp add: drop_nth_def)
qed

lemma accounts_step:
  assumes ok: "pending_ok s" and inv: "bc_inv (cl_base s)" and en: "client_ok L s op"
  shows "accounts s (mset (registers L s op)) (client_step L s op)"
proof (cases op)
  case (Ws_open E gen)
  then show ?thesis using accounts_ws_open [OF ok] en by (simp add: client_ok_def client_step_def)
next
  case (Ws_message E gen t)
  then show ?thesis using accounts_ws_message [OF ok inv] en by (simp add: client_ok_def client_step_def)
next
  case (Ws_close E gen reason)
  show ?thesis
  proof (cases "cl_stopping s \<or> gen \<noteq> cl_conn_gen s")
    case True
    then show ?thesis by (simp add: Ws_close client_step_def ws_close_def accounts_same [OF ok])
  next
    case False
    then show ?thesis
      using accounts_disconnect(1) [OF ok _ inv, of "[]"]
      by (simp add: Ws_close client_step_def ws_close_def case_prod_unfold Let_def)
  qed
next
  case (Worker_pass E)
  then show ?thesis using accounts_worker_pass [OF ok inv] by (simp add: client_step_def)
next
  case (Connect_returns E r)
  show ?thesis
  proof (cases "cl_worker s")
    case (W_connecting gen out)
    then show ?thesis
      using accounts_attempt_end [OF ok inv W_connecting] en
      by (simp add: Connect_returns client_ok_def client_step_def connect_returns_def)
  qed (simp_all add: Connect_returns client_step_def connect_returns_def accounts_same [OF ok])
next
  case (Do_subscribe p args cb)
  then show ?thesis
    using accounts_do_subscribe [OF ok] en
    by (cases "snd (do_subscribe L p args cb s)") (auto simp: client_ok_def client_step_def thrown_def)
next
  case (Do_unsubscribe sid)
  have "accounts s {#} (s\<lparr>cl_subs := m, cl_base := unsubscribe sid (cl_base s)\<rparr>)" for m
    by (rule accounts_same [OF ok]) (simp_all add: unsubscribe_requests)
  then show ?thesis
    by (simp add: Do_unsubscribe client_step_def do_unsubscribe_def accounts_same [OF ok])
next
  case (Do_request m p args cb)
  then show ?thesis using accounts_do_request [OF ok inv] by (simp add: client_step_def)
next
  case (Do_set_auth tok f)
  have "accounts s {#} (s\<lparr>cl_fetcher := f, cl_consecutive_auth_errors := 0, cl_base := set_auth tok (cl_base s)\<rparr>)"
    by (rule accounts_same [OF ok]) (simp_all add: set_auth_def push_outgoing_def)
  then show ?thesis by (simp add: Do_set_auth client_step_def do_set_auth_def accounts_same [OF ok])
next
  case (Run_delivery n)
  show ?thesis
  proof (cases "n < length (cl_in_flight s)")
    case True
    then show ?thesis
      using ok mset_concat_nth [OF True]
      by (simp add: Run_delivery client_step_def run_delivery_def accounts_def)
         (simp add: held_out_def results_held_def pending_ok_def ac_simps)
  next
    case False
    then show ?thesis by (simp add: Run_delivery client_step_def run_delivery_def accounts_same [OF ok])
  qed
next
  case Process_events
  then show ?thesis
    using ok by (simp add: client_step_def do_process_events_def accounts_def results_held_def pending_ok_def)
next
  case Shutdown_begin
  show ?thesis
  proof (cases "cl_stopping s")
    case True
    then show ?thesis by (simp add: Shutdown_begin client_step_def shutdown_begin_def accounts_same [OF ok])
  next
    case False
    then show ?thesis
      using ok by (simp add: Shutdown_begin client_step_def shutdown_begin_def accounts_def)
        (simp add: results_held_def pending_ok_def)
  qed
next
  case Shutdown_end
  then have "cl_stopping s" using en by (simp add: client_ok_def)
  then show ?thesis
    using ok by (simp add: Shutdown_end client_step_def shutdown_end_def accounts_def results_held_def
        pending_ok_def ac_simps)
next
  case Worker_wake
  then show ?thesis using ok by (simp add: client_step_def worker_wake_def accounts_def)
qed (simp_all add: client_step_def on_state_change_def on_auth_failure_def on_log_lines_def accounts_same [OF ok])

end
