(* ===== verification/ClientProps.thy ===== *)
theory ClientProps
  imports ClientCallbacks
begin

section \<open>What every run of the realtime client satisfies\<close>

text \<open>
  The invariants of \<open>ClientRuns\<close>, \<open>ClientLink\<close> and \<open>ClientCallbacks\<close> hold together on every run of
  the client from its construction, whatever the interleaving of the threads; the properties
  below read them off, or state what one section does on the states of such a run.
\<close>

subsection \<open>The invariant of the client\<close>

definition client_inv :: "json_lib \<Rightarrow> client_state \<Rightarrow> bool" where
  "client_inv L s \<longleftrightarrow> conn_ok s \<and> wakes s \<and> pending_ok s
     \<and> (\<exists>ss. session_inv ss \<and> linked L s ss)"

lemma client_invD:
  assumes "client_inv L s"
  shows "conn_ok s" "wakes s" "pending_ok s" "bc_inv (cl_base s)"
    "\<exists>ss. session_inv ss \<and> linked L s ss"
proof -
  show "conn_ok s" "wakes s" "pending_ok s" "\<exists>ss. session_inv ss \<and> linked L s ss"
    using assms by (simp_all add: client_inv_def)
  obtain ss where "session_inv ss" "linked L s ss" using assms by (auto simp: client_inv_def)
  then show "bc_inv (cl_base s)" using linkedD(1) [of L s ss] by (simp add: session_inv_def)
qed

interpretation cl: guarded_machine "client_step L" "client_ok L" "client_inv L" for L
proof
  fix s op
  assume inv: "client_inv L s" and en: "client_ok L s op"
  note I = client_invD [OF inv]
  obtain ss where ss: "session_inv ss" "linked L s ss" using I(5) by blast
  obtain ss' where "sess_to L ss ss'" "linked L (client_step L s op) ss'"
    using client_step_linked [OF ss(2) I(1,4) en] by blast
  moreover from this have "session_inv ss'" using sess_to_inv ss(1) by blast
  moreover have "conn_ok (client_step L s op)"
    using conn_ok_step [OF I(1)] en by (simp add: client_ok_def)
  moreover have "pending_ok (client_step L s op)"
    using accounts_step [OF I(3,4) en] by (simp add: accounts_def)
  ultimately show "client_inv L (client_step L s op)"
    using wakes_step [OF I(2,1) en] by (auto simp: client_inv_def)
qed

lemma new_client_inv: "new_client opts sid now = Inr s \<Longrightarrow> client_inv L s"
proof -
  assume "new_client opts sid now = Inr s"
  then have "conn_ok s" "wakes s" "pending_ok s" "linked L s (new_session sid)"
    by (auto simp: new_client_def result_simps conn_ok_def connecting_def wakes_def pending_ok_def
        linked_def prelinked_def is_open_def new_session_def new_base_client_def split: if_splits)
  then show ?thesis using session_inv_new unfolding client_inv_def by blast
qed

text \<open>A run of enabled operations from the construction of the client.\<close>

definition client_runs :: "json_lib \<Rightarrow> client_options \<Rightarrow> string \<Rightarrow> time \<Rightarrow> client_op list \<Rightarrow> bool" where
  "client_runs L opts sid now ops =
     (case new_client opts sid now of Inl e \<Rightarrow> False | Inr s \<Rightarrow> ok_run (client_step L) (client_ok L) s ops)"

definition client_run :: "json_lib \<Rightarrow> client_options \<Rightarrow> string \<Rightarrow> time \<Rightarrow> client_op list \<Rightarrow> client_state" where
  "client_run L opts sid now ops =
     (case new_client opts sid now of Inl e \<Rightarrow> undefined | Inr s \<Rightarrow> run (client_step L) s ops)"

lemma client_run_inv: "client_runs L opts sid now ops \<Longrightarrow> client_inv L (client_run L opts sid now ops)"
  using cl.run_keeps new_client_inv
  by (auto simp: client_runs_def client_run_def split: sum.splits)

subsection \<open>A run to try the properties on\<close>

definition sample_version :: "nat \<Rightarrow> string \<Rightarrow> json" where
  "sample_version n ts = JObject [(''identity'', JUInt 0), (''querySet'', JUInt (of_nat n)), (''ts'', JString ts)]"

definition sample_parse :: "string \<Rightarrow> json result" where
  "sample_parse t =
     (if t = ''[{}]'' then Inr (JArray [JObject []])
      else if t = ''ping'' then Inr (JObject [(''type'', JString ''Ping'')])
      else if t = ''rejected'' then
        Inr (JObject [(''error'', JString ''bad token''), (''type'', JString ''AuthError'')])
      else if t = ''mutated'' then
        Inr (JObject [(''requestId'', JUInt 0), (''result'', JNull), (''success'', JBool True),
          (''ts'', JString ''BwAAAAAAAAA=''), (''type'', JString ''MutationResponse'')])
      else if t = ''moved'' then
        Inr (JObject [(''endVersion'', sample_version 1 ''CQAAAAAAAAA=''),
          (''modifications'', JArray [JObject [(''logLines'', JArray [JString ''hello'']),
             (''queryId'', JUInt 0), (''type'', JString ''QueryUpdated''), (''value'', JNull)]]),
          (''startVersion'', sample_version 0 ''AAAAAAAAAAA=''), (''type'', JString ''Transition'')])
      else Inl (Json_exception ''parse error''))"

text \<open>The text of a message to the server is its type.\<close>

definition sample_dump :: "json \<Rightarrow> string result" where
  "sample_dump j = (case json_find j ''type'' of Some (JString t) \<Rightarrow> Inr t | _ \<Rightarrow> Inr ''{}'')"

definition sample_lib :: json_lib where
  "sample_lib = \<lparr>jl_dump = sample_dump, jl_parse = sample_parse\<rparr>"

definition sample_opts :: client_options where
  "sample_opts = \<lparr>co_deployment_url = ''https://x.convex.cloud'', co_websocket = True,
     co_delivery_mode = Pumped, co_client_id = ''cpp'', co_initial_backoff = 2,
     co_max_backoff = 8, co_server_inactivity_threshold = 9\<rparr>"

definition at_time :: "time \<Rightarrow> env" where
  "at_time t = \<lparr>ev_now = t, ev_wall_clock_ms = 0, ev_fetched = None, ev_jitter = 1\<rparr>"

definition sample_open :: "client_op list" where
  "sample_open = [On_state_change 3, Do_subscribe ''messages:list'' [] 1, Do_request True ''messages:send'' [] 7,
     Do_request False ''mail:send'' [] 8, Worker_pass (at_time 0), Connect_returns (at_time 1) Conn_made,
     Worker_pass (at_time 1), Ws_open (at_time 2) 1]"

definition sample_synced :: "client_op list" where
  "sample_synced = sample_open @ [On_log_lines 4, Ws_message (at_time 3) 1 ''mutated'',
     Ws_message (at_time 4) 1 ''moved'', Run_delivery 2]"

definition sample_lost :: "client_op list" where
  "sample_lost = sample_synced @ [Worker_pass (at_time 5), Ws_close (at_time 5) 1 ''reset'',
     Worker_pass (at_time 6), Worker_pass (at_time 6)]"

lemma sample_runs: "client_runs sample_lib sample_opts ''s'' 0 sample_lost"
  by code_simp

lemma sample_prefixes:
  "client_runs sample_lib sample_opts ''s'' 0 sample_open"
  "client_runs sample_lib sample_opts ''s'' 0 sample_synced"
  using sample_runs
  by (auto simp: client_runs_def sample_lost_def sample_synced_def ok_run_append split: sum.splits)

text \<open>What the witnesses need of the three runs, each evaluated once.\<close>

lemma sample_open_facts:
  "let s = client_run sample_lib sample_opts ''s'' 0 sample_open
   in ci_state (info s) = Connected \<and> \<not> cl_stopping s \<and>
      cl_wire s = [''Connect'', ''ModifyQuerySet'', ''Mutation'', ''Action'']"
  by code_simp

lemma sample_lost_facts:
  "let s = client_run sample_lib sample_opts ''s'' 0 sample_lost
   in cl_worker s = W_waiting (Some 7) \<and> \<not> cl_stopping s \<and> cl_reconnect_scheduled s \<and> cl_reconnect_at s = 7
      \<and> cl_state s = Disconnected \<and> cl_garbage s = []"
  by code_simp

lemmas sample_facts = sample_open_facts [unfolded Let_def] sample_lost_facts [unfolded Let_def]

subsection \<open>The connection\<close>

text \<open>
  \<open>C8\<close>: the connection state machine. While the client runs, exactly one of these holds: the next
  attempt is scheduled, the worker is in the transport's \<open>connect\<close> for the current generation,
  or there is a connection, of the current generation. The state reported by \<open>info\<close> agrees:
  connected exactly when the connection is open, disconnected exactly when an attempt is
  scheduled. After \<open>shutdown\<close> has begun there is no connection.
\<close>

theorem client_connection:
  assumes "client_runs L opts sid now ops"
  defines "s \<equiv> client_run L opts sid now ops"
  shows "if cl_stopping s then cl_conn s = None \<and> \<not> cl_socket_open s
    else (cl_reconnect_scheduled s \<longleftrightarrow> \<not> connecting s \<and> cl_conn s = None)
      \<and> \<not> (connecting s \<and> cl_conn s \<noteq> None)
      \<and> (cl_conn s = None \<or> cl_conn s = Some (cl_conn_gen s))
      \<and> (ci_state (info s) = Connected \<longleftrightarrow> cl_conn s \<noteq> None \<and> cl_socket_open s)
      \<and> (ci_state (info s) = Disconnected \<longleftrightarrow> cl_reconnect_scheduled s)"
proof -
  have ok: "conn_ok s" using client_run_inv [OF assms(1)] by (simp add: s_def client_inv_def)
  show ?thesis
  proof (cases "cl_stopping s")
    case True
    then show ?thesis using ok by (simp add: conn_ok_def)
  next
    case False
    have "cl_state s = Disconnected \<longleftrightarrow> cl_state s \<noteq> Connected \<and> cl_state s \<noteq> Connecting"
      by (cases "cl_state s") simp_all
    then show ?thesis using ok False by (auto simp: conn_ok_def info_def connecting_def)
  qed
qed

lemma client_connection_witness:
  "ci_state (info (client_run sample_lib sample_opts ''s'' 0 sample_open)) = Connected
   \<and> \<not> cl_reconnect_scheduled (client_run sample_lib sample_opts ''s'' 0 sample_open)"
proof -
  show ?thesis using client_connection [OF sample_prefixes(1)] sample_facts by simp
qed

text \<open>
  \<open>C4\<close>: what an open connection carries. The frames sent on it are one Connect followed by the
  encodings of messages a server, starting empty, accepts one after the other; nothing is left
  in the queue, and the server then holds exactly the client's query set, versions and token.
\<close>

theorem client_wire:
  assumes "client_runs L opts sid now ops"
  defines "s \<equiv> client_run L opts sid now ops"
  assumes "ci_state (info s) = Connected" "\<not> cl_stopping s"
  shows "\<exists>c ms. list_all2 (\<lambda>m frame. encode_client_message L m = Inr frame) (CM_connect c # ms) (cl_wire s)
    \<and> server_run ms fresh_view = Some (client_view (cl_base s)) \<and> bc_outgoing (cl_base s) = []"
proof -
  note I = client_invD [OF client_run_inv [OF assms(1)], folded s_def]
  obtain ss where ss: "session_inv ss" "linked L s ss" using I(5) by blast
  have op: "is_open s" using I(1) assms(3,4) by (simp add: is_open_def conn_ok_def info_def)
  then have out: "bc_outgoing (cl_base s) = []" using ss(2) by (simp add: linked_def)
  have "server_run (ss_sent ss @ bc_outgoing (ss_client ss)) fresh_view = Some (client_view (ss_client ss))"
    using ss(1) by (simp add: session_inv_def in_step_def)
  moreover obtain c where "on_wire L (CM_connect c # ss_sent ss) (cl_wire s)"
    using ss(2) op by (auto simp: linked_def prelinked_def)
  ultimately show ?thesis using linkedD(1) [OF ss(2)] out unfolding on_wire_def by auto
qed

lemma client_wire_witness:
  "cl_wire (client_run sample_lib sample_opts ''s'' 0 sample_open) =
     [''Connect'', ''ModifyQuerySet'', ''Mutation'', ''Action'']
   \<and> bc_outgoing (cl_base (client_run sample_lib sample_opts ''s'' 0 sample_open)) = []"
proof -
  show ?thesis using client_wire [OF sample_prefixes(1)] sample_facts by blast
qed

subsection \<open>The worker\<close>

lemma worker_pass_attempt:
  assumes "cl_worker s = W_running" "\<not> cl_stopping s" "cl_reconnect_scheduled s" "cl_reconnect_at s \<le> ev_now E"
  shows "connecting (worker_pass E s) \<or> connecting (worker_pass E (worker_pass E s))"
proof (cases "cl_garbage s = []")
  case True
  then show ?thesis using assms by (simp add: worker_pass_def attempt_begin_def Let_def connecting_def)
next
  case False
  then have "worker_pass E s = s\<lparr>cl_garbage := []\<rparr>" using assms by (simp add: worker_pass_def)
  then show ?thesis using assms by (simp add: worker_pass_def attempt_begin_def Let_def connecting_def)
qed

text \<open>
  \<open>C13\<close>: no lost wakeup, and the next attempt is made. In every reached state where an attempt is
  scheduled, the worker is not stuck: it is not gone, when it waits its deadline is not after the
  scheduled time, and once that time has come, waking it and at most two passes of its loop are
  in the transport's \<open>connect\<close> (the worker may first have to finish a superseded attempt).
\<close>

theorem worker_reconnects:
  assumes "client_runs L opts sid now ops"
  defines "s \<equiv> client_run L opts sid now ops"
  assumes "\<not> cl_stopping s" "cl_reconnect_scheduled s" "cl_reconnect_at s \<le> ev_now E"
  shows "cl_worker s \<noteq> W_done
    \<and> (\<forall>d. cl_worker s = W_waiting d \<longrightarrow> (\<exists>t. d = Some t \<and> t \<le> cl_reconnect_at s))
    \<and> (worker_gen (cl_worker s) = None \<longrightarrow>
        connecting (worker_pass E (worker_wake s)) \<or> connecting (worker_pass E (worker_pass E (worker_wake s))))"
proof -
  note I = client_invD [OF client_run_inv [OF assms(1)], folded s_def]
  have alive: "cl_worker s \<noteq> W_done" using I(1) assms(3) by (simp add: conn_ok_def)
  moreover have "\<forall>d. cl_worker s = W_waiting d \<longrightarrow> (\<exists>t. d = Some t \<and> t \<le> cl_reconnect_at s)"
    using I(2) assms(4) by (simp add: wakes_def due_by_def)
  moreover have "connecting (worker_pass E (worker_wake s)) \<or> connecting (worker_pass E (worker_pass E (worker_wake s)))"
    if "worker_gen (cl_worker s) = None"
  proof (rule worker_pass_attempt)
    show "cl_worker (worker_wake s) = W_running"
      using that alive by (cases "cl_worker s") (simp_all add: worker_wake_def notify_all_worker)
  qed (use assms(3-5) in \<open>simp_all add: worker_wake_def\<close>)
  ultimately show ?thesis by blast
qed

lemma worker_reconnects_witness:
  "cl_worker (client_run sample_lib sample_opts ''s'' 0 sample_lost) = W_waiting (Some 7)
   \<and> connecting (worker_pass (at_time 7) (worker_wake (client_run sample_lib sample_opts ''s'' 0 sample_lost)))"
proof -
  let ?s = "client_run sample_lib sample_opts ''s'' 0 sample_lost"
  have "connecting (worker_pass (at_time 7) (worker_pass (at_time 7) (worker_wake ?s)))
     \<or> connecting (worker_pass (at_time 7) (worker_wake ?s))"
    using worker_reconnects [OF sample_runs, of "at_time 7"] sample_facts by (auto simp: at_time_def)
  moreover have "worker_pass (at_time 7) (worker_pass (at_time 7) (worker_wake ?s)) = worker_pass (at_time 7) (worker_wake ?s)"
    using sample_facts by (simp add: worker_pass_def worker_wake_def notify_all_worker attempt_begin_def Let_def at_time_def)
  ultimately show ?thesis using sample_facts by simp
qed

subsection \<open>The results of requests\<close>

fun registered :: "json_lib \<Rightarrow> client_state \<Rightarrow> client_op list \<Rightarrow> callback list" where
  "registered L s [] = []"
| "registered L s (op # ops) = registers L s op @ registered L (client_step L s op) ops"

definition requests_made :: "json_lib \<Rightarrow> client_options \<Rightarrow> string \<Rightarrow> time \<Rightarrow> client_op list \<Rightarrow> callback list" where
  "requests_made L opts sid now ops =
     (case new_client opts sid now of Inl e \<Rightarrow> [] | Inr s \<Rightarrow> registered L s ops)"

lemma run_accounts:
  "client_inv L s \<Longrightarrow> ok_run (client_step L) (client_ok L) s ops \<Longrightarrow>
     results_held (run (client_step L) s ops) = results_held s + mset (registered L s ops)"
proof (induction ops arbitrary: s)
  case (Cons op ops)
  have en: "client_ok L s op" and rest: "ok_run (client_step L) (client_ok L) (client_step L s op) ops"
    using Cons.prems(2) by simp_all
  have "results_held (client_step L s op) = results_held s + mset (registers L s op)"
    using accounts_step [OF client_invD(3,4) [OF Cons.prems(1)] en] by (simp add: accounts_def)
  then show ?case using Cons.IH [OF cl.step_keeps [OF Cons.prems(1) en] rest] by simp
qed simp

lemma client_run_results:
  "client_runs L opts sid now ops \<Longrightarrow>
     results_held (client_run L opts sid now ops) = mset (requests_made L opts sid now ops)"
proof -
  assume runs: "client_runs L opts sid now ops"
  then obtain s where s: "new_client opts sid now = Inr s" "ok_run (client_step L) (client_ok L) s ops"
    by (auto simp: client_runs_def split: sum.splits)
  have "results_held s = {#}"
    using s(1) by (auto simp: new_client_def result_simps results_held_def split: if_splits)
  then show ?thesis
    using run_accounts [OF new_client_inv [OF s(1)] s(2)] s(1)
    by (simp add: client_run_def requests_made_def)
qed

text \<open>
  \<open>C5\<close>: every result callback runs exactly once. In every reached state the callbacks of the
  accepted mutations and actions, counted with multiplicity, are exactly those still pending
  (one per request in flight, while the client runs), those \<open>shutdown\<close> is about to fail, those
  in an event list on its way to the user, and those that have run. After \<open>shutdown\<close> has
  returned and the deliveries have run, each of them has run exactly once.
\<close>

theorem results_exactly_once:
  assumes "client_runs L opts sid now ops"
  defines "s \<equiv> client_run L opts sid now ops"
  shows "mset (requests_made L opts sid now ops) =
      mset (map snd (cl_pending s)) + mset (cl_orphaned s)
      + mset (result_cbs (concat (cl_in_flight s) @ cl_event_queue s @ worker_events (cl_worker s)))
      + mset (result_cbs (cl_delivered s))
    \<and> (\<not> cl_stopping s \<longrightarrow> map fst (cl_pending s) = map fst (bc_ongoing_requests (cl_base s)))
    \<and> (cl_stopping s \<and> cl_orphaned s = [] \<and> cl_worker s = W_done \<and> cl_event_queue s = [] \<and> cl_in_flight s = []
        \<longrightarrow> mset (result_cbs (cl_delivered s)) = mset (requests_made L opts sid now ops))"
proof -
  note I = client_invD [OF client_run_inv [OF assms(1)], folded s_def]
  have all: "results_held s = mset (requests_made L opts sid now ops)"
    using client_run_results [OF assms(1)] by (simp add: s_def)
  have "map fst (cl_pending s) = map fst (bc_ongoing_requests (cl_base s))" if "\<not> cl_stopping s"
  proof (rule sorted_distinct_set_unique)
    have "om_wf (cl_pending s)" "om_wf (bc_ongoing_requests (cl_base s))"
      using I(3,4) by (simp_all add: pending_ok_def bc_inv_def requests_ok_def)
    then show "sorted (map fst (cl_pending s))" "distinct (map fst (cl_pending s))"
      "sorted (map fst (bc_ongoing_requests (cl_base s)))" "distinct (map fst (bc_ongoing_requests (cl_base s)))"
      by (simp_all add: om_wf_def strict_sorted_iff)
  qed (use I(3) that in \<open>simp add: pending_ok_def\<close>)
  moreover have "mset (result_cbs (cl_delivered s)) = mset (requests_made L opts sid now ops)"
    if "cl_stopping s" "cl_orphaned s = []" "cl_worker s = W_done" "cl_event_queue s = []" "cl_in_flight s = []"
    using all that I(3) by (simp add: results_held_def pending_ok_def)
  ultimately show ?thesis using all by (simp add: results_held_def ac_simps)
qed

definition sample_over :: "client_op list" where
  "sample_over = [Do_request True ''messages:send'' [] 7, Do_request False ''mail:send'' [] 8,
     Shutdown_begin, Do_request True ''messages:send'' [] 9, Worker_pass (at_time 0), Shutdown_end]"

lemma results_exactly_once_witness:
  "mset (result_cbs (cl_delivered (client_run sample_lib sample_opts ''s'' 0 sample_over))) = {#7, 8, 9#}"
proof -
  have runs: "client_runs sample_lib sample_opts ''s'' 0 sample_over"
    and made: "requests_made sample_lib sample_opts ''s'' 0 sample_over = [7, 8, 9]"
    and over: "let s = client_run sample_lib sample_opts ''s'' 0 sample_over
     in cl_stopping s \<and> cl_orphaned s = [] \<and> cl_worker s = W_done"
    "let s = client_run sample_lib sample_opts ''s'' 0 sample_over
     in List.null (cl_event_queue s) \<and> List.null (cl_in_flight s)"
    by code_simp+
  have "mset (result_cbs (cl_delivered (client_run sample_lib sample_opts ''s'' 0 sample_over))) =
      mset (requests_made sample_lib sample_opts ''s'' 0 sample_over)"
    using results_exactly_once [OF runs] over unfolding Let_def List.null_iff by blast
  then show ?thesis unfolding made by simp
qed

end
