(* ===== verification/ClientSections.thy ===== *)
theory ClientSections
  imports ClientProps
begin

section \<open>What the sections of the realtime client do\<close>

text \<open>
  The effect of the sections that matter most to a user, on the states of a run: a lost
  connection, a transition, a rejected token, a message that cannot be decoded, and the state
  after \<open>shutdown\<close>; and the two pure functions of the component, the address of the sync
  endpoint and the delay before the next attempt.
\<close>

subsection \<open>A lost connection\<close>

text \<open>With one callback for each completion, \<open>complete_pending\<close> calls them in order.\<close>

lemma complete_pending_map:
  "\<lbrakk>om_wf p; distinct (map fst rs); fst ` set rs \<subseteq> fst ` set p\<rbrakk> \<Longrightarrow> complete_pending rs p =
     (map (\<lambda>(rid, r). Ev_result (the (map_of p rid)) r) rs, filter (\<lambda>(rid, cb). rid \<notin> fst ` set rs) p)"
proof (induction rs p rule: complete_pending.induct)
  case (2 rid r rs p)
  obtain cb where cb: "map_of p rid = Some cb"
    using 2(5) by (cases "map_of p rid") (auto simp: map_of_eq_None_iff)
  have "fst ` set (om_erase rid p) = fst ` set p - {rid}" by (auto simp: set_om_erase)
  then have sub: "fst ` set rs \<subseteq> fst ` set (om_erase rid p)"
    using 2(4,5) by (simp add: subset_Diff_insert)
  have "complete_pending rs (om_erase rid p) =
      (map (\<lambda>(i, r). Ev_result (the (map_of (om_erase rid p) i)) r) rs,
       filter (\<lambda>(i, cb). i \<notin> fst ` set rs) (om_erase rid p))"
    using 2(2) [OF cb om_wf_erase [OF 2(3)] _ sub] 2(4) by simp
  moreover have "map (\<lambda>(i, r). Ev_result (the (map_of (om_erase rid p) i)) r) rs =
      map (\<lambda>(i, r). Ev_result (the (map_of p i)) r) rs"
    using 2(4) by (auto simp: image_iff)
  moreover have "filter (\<lambda>(i, cb). i \<notin> fst ` set rs) (om_erase rid p) =
      filter (\<lambda>(i, cb). i \<notin> fst ` set ((rid, r) # rs)) p"
    by (auto simp: om_erase_def intro!: filter_cong)
  ultimately show ?case using cb by simp
qed (simp add: case_prod_unfold)

lemma lost_keys:
  assumes "pending_ok s" "\<not> cl_stopping s" "bc_inv (cl_base s)"
  shows "om_wf (cl_pending s)" "distinct (map fst (lost_actions (cl_base s)))"
    "fst ` set (lost_actions (cl_base s)) \<subseteq> fst ` set (cl_pending s)"
proof -
  show "om_wf (cl_pending s)" using assms(1) by (simp add: pending_ok_def)
  have wf: "om_wf (bc_ongoing_requests (cl_base s))" using assms(3) by (simp add: bc_inv_def requests_ok_def)
  show "distinct (map fst (lost_actions (cl_base s)))"
    unfolding lost_actions_def using om_wf_distinct [OF om_wf_filter [OF wf]] .
  show "fst ` set (lost_actions (cl_base s)) \<subseteq> fst ` set (cl_pending s)"
    using assms(1,2) by (auto simp: pending_ok_def lost_actions_def)
qed

definition connection_lost :: function_result where
  "connection_lost = FR_error ''Connection lost while action was in flight''"

lemma close_reason_frame [simp]:
  "cl_last_close_reason (deliver out s) = cl_last_close_reason s"
  "cl_last_close_reason (deliver_later out s) = cl_last_close_reason s"
  by (simp_all add: deliver_def deliver_later_def split: delivery.split)

lemma deliver_in_flight:
  "cl_in_flight (deliver evs s) = cl_in_flight s @ filter (\<lambda>evs. evs \<noteq> []) [evs]"
  by (simp add: deliver_def)

text \<open>The events of \<open>begin_disconnect\<close>: the new state, then the failed actions.\<close>

definition disconnect_events :: "client_state \<Rightarrow> event list" where
  "disconnect_events s =
     (if cl_state s \<noteq> Disconnected then map (\<lambda>l. Ev_state l Disconnected) (cl_state_listeners s) else [])
     @ map (\<lambda>(rid, req). Ev_result (the (map_of (cl_pending s) rid)) connection_lost) (lost_actions (cl_base s))"

lemma begin_disconnect_spec:
  assumes "pending_ok s" "\<not> cl_stopping s" "bc_inv (cl_base s)"
  shows "begin_disconnect E reason (s, out) =
    (disconnected E reason (fst (restart (refreshed_token E s) (cl_base s)))
       (filter (\<lambda>(rid, cb). rid \<notin> fst ` set (lost_actions (cl_base s))) (cl_pending s)) s,
     out @ disconnect_events s)"
proof -
  let ?failed = "map (\<lambda>(rid, req). (rid, connection_lost)) (lost_actions (cl_base s))"
  note K = lost_keys [OF assms]
  have r: "restart (refreshed_token E s) (cl_base s) =
      (fst (restart (refreshed_token E s) (cl_base s)), ?failed)"
    by (simp add: restart_eq connection_lost_def)
  have keys: "fst ` set ?failed = fst ` set (lost_actions (cl_base s))"
    "map fst ?failed = map fst (lost_actions (cl_base s))" by force+
  have c: "complete_pending ?failed (cl_pending s) =
      (map (\<lambda>(rid, req). Ev_result (the (map_of (cl_pending s) rid)) connection_lost) (lost_actions (cl_base s)),
       filter (\<lambda>(rid, cb). rid \<notin> fst ` set (lost_actions (cl_base s))) (cl_pending s))"
    using complete_pending_map [OF K(1), of ?failed] K(2,3) unfolding keys
    by (simp add: comp_def split_def)
  show ?thesis
    using begin_disconnect_eq [OF r c] by (simp add: disconnect_events_def)
qed

text \<open>
  \<open>C14\<close>: a lost connection. When the transport reports that the current connection closed, the
  client is disconnected and has scheduled the next attempt after the backoff of its retry
  counter, which goes up by one; the state machine is restarted, with the token of the fetcher
  when there is one; the listeners are told, and then exactly the actions that were on the wire
  fail: the callback of every other request stays pending. A report about any other connection
  changes nothing.
\<close>

theorem connection_closed:
  assumes "client_runs L opts sid now ops"
  defines "s \<equiv> client_run L opts sid now ops"
  shows "if cl_stopping s \<or> gen \<noteq> cl_conn_gen s then ws_close E gen reason s = s
    else (let s' = ws_close E gen reason s; b = cl_base s;
              lost = fst ` set (lost_actions b) in
      ci_state (info s') = Disconnected \<and> cl_conn s' = None \<and> cl_conn_gen s' = cl_conn_gen s + 1
      \<and> cl_reconnect_scheduled s' \<and> cl_last_close_reason s' = reason
      \<and> cl_reconnect_at s' = ev_now E + backoff_delay (cl_opts s) (ev_jitter E) (cl_retries s)
      \<and> cl_retries s' = cl_retries s + 1
      \<and> cl_base s' = fst (restart (if cl_fetcher s \<noteq> None then ev_fetched E else None) b)
      \<and> cl_pending s' = filter (\<lambda>(rid, cb). rid \<notin> lost) (cl_pending s)
      \<and> cl_in_flight s' = cl_in_flight s @ filter (\<lambda>evs. evs \<noteq> []) [disconnect_events s])"
proof (cases "cl_stopping s \<or> gen \<noteq> cl_conn_gen s")
  case True
  then show ?thesis by (simp add: ws_close_def)
next
  case False
  note I = client_invD [OF client_run_inv [OF assms(1)], folded s_def]
  show ?thesis
    using False begin_disconnect_spec [OF I(3) _ I(4), of E reason "[]"]
    by (simp add: ws_close_def Let_def info_def deliver_def refreshed_token_def)
qed

lemma connection_closed_witness:
  "cl_in_flight (ws_close (at_time 5) 1 ''reset'' (client_run sample_lib sample_opts ''s'' 0 sample_open)) =
     [[Ev_state 3 Connecting], [Ev_state 3 Connected], [Ev_state 3 Disconnected, Ev_result 8 connection_lost]]"
proof -
  have "let s = client_run sample_lib sample_opts ''s'' 0 sample_open
     in \<not> cl_stopping s \<and> cl_conn_gen s = 1 \<and> cl_in_flight s = [[Ev_state 3 Connecting], [Ev_state 3 Connected]]
       \<and> disconnect_events s = [Ev_state 3 Disconnected, Ev_result 8 connection_lost]"
    by code_simp
  then show ?thesis
    using connection_closed [OF sample_prefixes(1), where gen = 1 and E = "at_time 5" and reason = "''reset''"]
    by (simp add: Let_def)
qed

subsection \<open>A transition\<close>

lemma flushed_keys:
  assumes "pending_ok s" "\<not> cl_stopping s" "bc_inv (cl_base s)"
  shows "om_wf (cl_pending s)" "distinct (map fst (flushed w (cl_base s)))"
    "fst ` set (flushed w (cl_base s)) \<subseteq> fst ` set (cl_pending s)"
proof -
  show "om_wf (cl_pending s)" using assms(1) by (simp add: pending_ok_def)
  have wf: "om_wf (bc_ongoing_requests (cl_base s))" using assms(3) by (simp add: bc_inv_def requests_ok_def)
  have "map fst (flushed w (cl_base s)) =
      map fst (filter (\<lambda>(rid, req). flushable w req) (bc_ongoing_requests (cl_base s)))"
    by (simp add: flushed_def comp_def split_def)
  then show "distinct (map fst (flushed w (cl_base s)))" using om_wf_distinct [OF om_wf_filter [OF wf]] by simp
  show "fst ` set (flushed w (cl_base s)) \<subseteq> fst ` set (cl_pending s)"
    using assms(1,2) by (auto simp: pending_ok_def flushed_def intro: rev_image_eqI)
qed

lemma update_events_cong:
  assumes "bc_remote_results (cl_base s') = bc_remote_results (cl_base s)" "cl_subs s' = cl_subs s"
  shows "update_events s' changed = update_events s changed"
  unfolding update_events_def latest_result_def assms by (rule refl)

lemma log_events_cong: "cl_log_listeners s' = cl_log_listeners s \<Longrightarrow> log_events s' es = log_events s es"
  by (simp add: log_events_def)

lemma drain_results:
  "drain_outgoing L s = (s', e) \<Longrightarrow> cl_subs s' = cl_subs s \<and> cl_in_flight s' = cl_in_flight s
     \<and> cl_pending s' = cl_pending s \<and> cl_retries s' = cl_retries s
     \<and> bc_remote_results (cl_base s') = bc_remote_results (cl_base s)"
proof -
  assume d: "drain_outgoing L s = (s', e)"
  obtain b w where s': "s' = s\<lparr>cl_base := b, cl_wire := w\<rparr>"
    using drain_outgoing_frame [of L s] d by auto
  have "bc_remote_results (cl_base (fst (drain_outgoing L s))) = bc_remote_results (cl_base s)"
    using drain_loop_frame [of L "cl_base s"]
    by (auto simp: drain_outgoing_def case_prod_unfold Let_def)
  then show ?thesis using d by (simp add: s')
qed

text \<open>
  \<open>C7\<close>: a transition, and read-your-writes up to the callbacks. When a transition that starts at
  the client's version arrives on the current connection, one list of events leaves the section:
  first the log lines, for every listener; then, for every changed query in order and each of its
  subscribers in order, the result the state machine has after the transition; and only then the
  results of the mutations the transition has reached, in ascending order of their requests. The
  callbacks of those mutations, and no others, leave the table.
\<close>

theorem transition_callbacks:
  assumes "client_runs L opts sid now ops"
  defines "s \<equiv> client_run L opts sid now ops"
  assumes "\<not> cl_stopping s" "decode_server_message L t = Inr (SV_transition tr)"
    and "tr_start_version tr = bc_remote_version (cl_base s)"
    and "ws_message L E (cl_conn_gen s) t s = (s', None)"
  defines "finished \<equiv> flushed (sv_ts (tr_end_version tr)) (cl_base s)"
  shows "cl_in_flight s' = cl_in_flight s @ filter (\<lambda>evs. evs \<noteq> [])
      [log_events s (concat (map (sm_log (cl_base s)) (tr_modifications tr)))
       @ update_events s' (map sm_id (tr_modifications tr))
       @ map (\<lambda>(rid, r). Ev_result (the (map_of (cl_pending s) rid)) r) finished]
    \<and> cl_pending s' = filter (\<lambda>(rid, cb). rid \<notin> fst ` set finished) (cl_pending s)
    \<and> cl_subs s' = cl_subs s"
proof -
  note I = client_invD [OF client_run_inv [OF assms(1)], folded s_def]
  note K = flushed_keys(1) [OF I(3) assms(3) I(4)]
    flushed_keys(2,3) [OF I(3) assms(3) I(4), of "sv_ts (tr_end_version tr)", folded finished_def]
  let ?s0 = "s\<lparr>cl_last_server_msg := ev_now E, cl_chunk_assembler := asm_idle\<rparr>"
  define b where "b = advance tr (cl_base s)"
  define p where "p = filter (\<lambda>(rid, cb). rid \<notin> fst ` set finished) (cl_pending s)"
  define evs where "evs = map (\<lambda>(rid, r). Ev_result (the (map_of (cl_pending s) rid)) r) finished"
  define logs where "logs = concat (map (sm_log (cl_base s)) (tr_modifications tr))"
  note r = handle_transition_eq [OF I(4) assms(5), folded b_def finished_def logs_def]
  have c: "complete_pending finished (cl_pending s) = (evs, p)"
    using complete_pending_map [OF K] by (simp add: evs_def p_def)
  define s3 where "s3 = (if has_synced_past_last_restart b
      then ?s0\<lparr>cl_base := b, cl_pending := p, cl_retries := 0, cl_consecutive_auth_errors := 0\<rparr>
      else ?s0\<lparr>cl_base := b, cl_pending := p\<rparr>)"
  have eq: "ws_message L E (cl_conn_gen s) t s = (case drain_outgoing L s3 of
      (s4, Some e) \<Rightarrow> (s4, Some e)
    | (s4, None) \<Rightarrow> (deliver (log_events (?s0\<lparr>cl_base := b\<rparr>) logs
        @ update_events (?s0\<lparr>cl_base := b\<rparr>) (map sm_id (tr_modifications tr)) @ evs) s4, None))"
    using assms(3,4) c
    by (simp add: ws_message_def dispatch_message_def Let_def r no_receive_result_def s3_def [symmetric])
  then obtain s4 where d: "drain_outgoing L s3 = (s4, None)"
    and s': "s' = deliver (log_events (?s0\<lparr>cl_base := b\<rparr>) logs
        @ update_events (?s0\<lparr>cl_base := b\<rparr>) (map sm_id (tr_modifications tr)) @ evs) s4"
    using assms(6) by (auto split: prod.splits option.splits)
  note D = drain_results [OF d]
  have s3: "cl_subs s3 = cl_subs s" "cl_in_flight s3 = cl_in_flight s" "cl_pending s3 = p" "cl_base s3 = b"
    by (simp_all add: s3_def)
  have "log_events (?s0\<lparr>cl_base := b\<rparr>) logs = log_events s logs" by (rule log_events_cong) simp
  moreover have "update_events (?s0\<lparr>cl_base := b\<rparr>) (map sm_id (tr_modifications tr)) =
      update_events s' (map sm_id (tr_modifications tr))"
    by (rule update_events_cong [symmetric]) (use D s3 in \<open>simp_all add: s'\<close>)
  ultimately show ?thesis
    using D s3 by (simp add: s' deliver_def p_def evs_def logs_def)
qed

lemma transition_callbacks_witness:
  "\<exists>s'. ws_message sample_lib (at_time 4) 1 ''moved''
      (client_run sample_lib sample_opts ''s'' 0 (sample_open @ [On_log_lines 4, Ws_message (at_time 3) 1 ''mutated'']))
      = (s', None)
    \<and> last (cl_in_flight s') = [Ev_log 4 \<lparr>le_source = Source_query, le_udf_path = ''messages:list'', le_lines = [''hello'']\<rparr>]
        @ update_events s' [0] @ [Ev_result 7 (FR_success VNull)]"
proof -
  let ?ops = "sample_open @ [On_log_lines 4, Ws_message (at_time 3) 1 ''mutated'']"
  let ?s = "client_run sample_lib sample_opts ''s'' 0 ?ops"
  define tr where "tr = \<lparr>tr_start_version = initial_state_version,
     tr_end_version = \<lparr>sv_query_set = 1, sv_identity = 0, sv_ts = 9\<rparr>,
     tr_modifications = [SM_updated \<lparr>qu_id = 0, qu_result = VNull, qu_log_lines = [''hello''], qu_journal = None\<rparr>]\<rparr>"
  have runs: "client_runs sample_lib sample_opts ''s'' 0 ?ops"
    using sample_prefixes(2) by (auto simp: client_runs_def sample_synced_def ok_run_append split: sum.splits)
  have facts: "let s = ?s in \<not> cl_stopping s \<and> cl_conn_gen s = 1 \<and> snd (ws_message sample_lib (at_time 4) 1 ''moved'' s) = None
      \<and> bc_remote_version (cl_base s) = initial_state_version
      \<and> log_events s (sm_log (cl_base s) (hd (tr_modifications tr))) =
         [Ev_log 4 \<lparr>le_source = Source_query, le_udf_path = ''messages:list'', le_lines = [''hello'']\<rparr>]
      \<and> map (\<lambda>(rid, r). Ev_result (the (map_of (cl_pending s) rid)) r) (flushed 9 (cl_base s)) =
         [Ev_result 7 (FR_success VNull)]"
    unfolding tr_def by code_simp
  have dec: "decode_server_message sample_lib ''moved'' = Inr (SV_transition tr)" unfolding tr_def by code_simp
  obtain s' where s': "ws_message sample_lib (at_time 4) 1 ''moved'' ?s = (s', None)"
    using facts by (cases "ws_message sample_lib (at_time 4) 1 ''moved'' ?s") (simp add: Let_def)
  then have "ws_message sample_lib (at_time 4) (cl_conn_gen ?s) ''moved'' ?s = (s', None)"
    using facts by (simp add: Let_def)
  from transition_callbacks [OF runs _ dec _ this] s' facts show ?thesis
    by (simp add: Let_def tr_def)
qed

subsection \<open>A rejected token\<close>

lemma lost_set_auth [simp]:
  "lost_actions (set_auth tok b) = lost_actions b"
  by (simp add: lost_actions_def action_lost_def set_auth_def push_outgoing_def unsent_actions_def)

lemma disconnect_events_cong:
  "\<lbrakk>cl_state s' = cl_state s; cl_state_listeners s' = cl_state_listeners s; cl_pending s' = cl_pending s;
    lost_actions (cl_base s') = lost_actions (cl_base s)\<rbrakk> \<Longrightarrow> disconnect_events s' = disconnect_events s"
  by (simp add: disconnect_events_def)

lemma restart_auth: "bc_auth (fst (restart tok b)) = auth_after tok b"
  by (simp add: restart_eq)

lemma set_auth_none: "bc_auth (set_auth auth_token_none b) = None"
  by (simp add: set_auth_def push_outgoing_def auth_token_none_def)

text \<open>The section of an AuthError, from what \<open>auth_rejected\<close> makes of the state.\<close>

lemma ws_auth_error:
  assumes "\<not> cl_stopping s" "decode_server_message L t = Inr (SV_auth_error e)"
    and rej: "auth_rejected (no_receive_result\<lparr>rr_reconnect_reason := Some (''AuthError: '' @ ae_error e),
          rr_auth_error := True, rr_auth_update_attempted := ae_auth_update_attempted e\<rparr>) (''AuthError: '' @ ae_error e)
        (s\<lparr>cl_last_server_msg := ev_now E, cl_chunk_assembler := asm_idle\<rparr>, []) = (s2, out)"
    and ok: "pending_ok s2" "\<not> cl_stopping s2" "bc_inv (cl_base s2)"
  shows "ws_message L E (cl_conn_gen s) t s =
      (deliver (out @ disconnect_events s2)
        (disconnected E (''AuthError: '' @ ae_error e) (fst (restart (refreshed_token E s2) (cl_base s2)))
          (filter (\<lambda>(rid, cb). rid \<notin> fst ` set (lost_actions (cl_base s2))) (cl_pending s2)) s2), None)"
proof -
  let ?s0 = "s\<lparr>cl_last_server_msg := ev_now E, cl_chunk_assembler := asm_idle\<rparr>"
  define reason where "reason = ''AuthError: '' @ ae_error e"
  define r where "r = no_receive_result\<lparr>rr_reconnect_reason := Some reason, rr_auth_error := True,
    rr_auth_update_attempted := ae_auth_update_attempted e\<rparr>"
  have "receive_message (SV_auth_error e) (cl_base s) = Inr (cl_base s, r)" by (simp add: r_def reason_def)
  moreover have "rr_reconnect_reason r = Some reason" "rr_auth_error r" "rr_log_entries r = []"
    by (simp_all add: r_def no_receive_result_def)
  moreover have "auth_rejected r reason (?s0, []) = (s2, out)" using rej by (simp add: r_def reason_def)
  ultimately have "dispatch_message L E (SV_auth_error e) ?s0 =
      (case begin_disconnect E reason (s2, out) of (s3, out3) \<Rightarrow> (deliver out3 s3, None))"
    by (simp add: dispatch_message_def Let_def log_events_def)
  moreover have "ws_message L E (cl_conn_gen s) t s = dispatch_message L E (SV_auth_error e) ?s0"
    using assms(1,2) by (simp add: ws_message_def Let_def)
  ultimately show ?thesis by (simp add: begin_disconnect_spec [OF ok] reason_def)
qed

text \<open>
  \<open>C15\<close>: a rejected token. An AuthError always ends the connection. The client gives up on the token
  when the server says it was already refreshed, when there is no fetcher, or at the second
  AuthError without a healthy sync between them: it then continues unauthenticated, forgets the
  fetcher, and tells every listener, before the state change and the failed actions. Otherwise it
  keeps the fetcher, counts the error, and authenticates with the token just fetched, or the old
  one when the fetcher has none.
\<close>

theorem auth_error:
  fixes E :: env
  assumes "client_runs L opts sid now ops"
  defines "s \<equiv> client_run L opts sid now ops"
  assumes "\<not> cl_stopping s" "decode_server_message L t = Inr (SV_auth_error e)"
  defines "s' \<equiv> fst (ws_message L E (cl_conn_gen s) t s)"
    and "reason \<equiv> ''AuthError: '' @ ae_error e"
    and "terminal \<equiv> ae_auth_update_attempted e \<or> cl_fetcher s = None \<or> 2 \<le> cl_consecutive_auth_errors s + 1"
  shows "snd (ws_message L E (cl_conn_gen s) t s) = None
    \<and> ci_state (info s') = Disconnected \<and> cl_reconnect_scheduled s' \<and> cl_last_close_reason s' = reason
    \<and> (if terminal then bc_auth (cl_base s') = None \<and> cl_fetcher s' = None \<and> cl_consecutive_auth_errors s' = 0
       else bc_auth (cl_base s') = auth_after (ev_fetched E) (cl_base s) \<and> cl_fetcher s' = cl_fetcher s
         \<and> cl_consecutive_auth_errors s' = cl_consecutive_auth_errors s + 1)
    \<and> cl_in_flight s' = cl_in_flight s @ filter (\<lambda>evs. evs \<noteq> [])
        [(if terminal then map (\<lambda>l. Ev_auth_failure l reason) (cl_auth_failure_listeners s) else [])
         @ disconnect_events s]"
proof -
  note I = client_invD [OF client_run_inv [OF assms(1)], folded s_def]
  let ?s0 = "s\<lparr>cl_last_server_msg := ev_now E, cl_chunk_assembler := asm_idle\<rparr>"
  define s2 where "s2 = (if terminal
     then ?s0\<lparr>cl_base := set_auth auth_token_none (cl_base s), cl_fetcher := None, cl_consecutive_auth_errors := 0\<rparr>
     else ?s0\<lparr>cl_consecutive_auth_errors := cl_consecutive_auth_errors s + 1\<rparr>)"
  define out where "out = (if terminal then map (\<lambda>l. Ev_auth_failure l reason) (cl_auth_failure_listeners s) else [])"
  have ok: "pending_ok s2" "\<not> cl_stopping s2" "bc_inv (cl_base s2)"
    using I(3,4) assms(3) set_auth_inv [OF I(4)]
    by (simp_all add: s2_def pending_ok_def set_auth_def push_outgoing_def)
  have eq: "ws_message L E (cl_conn_gen s) t s =
      (deliver (out @ disconnect_events s2) (disconnected E reason (fst (restart (refreshed_token E s2) (cl_base s2)))
        (filter (\<lambda>(rid, cb). rid \<notin> fst ` set (lost_actions (cl_base s2))) (cl_pending s2)) s2), None)"
    unfolding reason_def
    by (rule ws_auth_error [OF assms(3,4) _ ok])
       (simp add: auth_rejected_def Let_def s2_def out_def terminal_def reason_def)
  have "disconnect_events s2 = disconnect_events s"
    by (rule disconnect_events_cong) (simp_all add: s2_def)
  moreover have "cl_in_flight s2 = cl_in_flight s" by (simp add: s2_def)
  moreover have "bc_auth (fst (restart (refreshed_token E s2) (cl_base s2))) =
      (if terminal then None else auth_after (ev_fetched E) (cl_base s))"
  proof (cases terminal)
    case True
    then show ?thesis
      by (simp add: restart_auth auth_after_def refreshed_token_def) (simp add: s2_def set_auth_none)
  next
    case False
    then have "cl_fetcher s2 = cl_fetcher s" "cl_base s2 = cl_base s" by (simp_all add: s2_def)
    moreover have "cl_fetcher s \<noteq> None" using False unfolding terminal_def by simp
    ultimately show ?thesis using False by (simp add: restart_auth auth_after_def refreshed_token_def)
  qed
  moreover have "cl_fetcher s2 = (if terminal then None else cl_fetcher s)"
    "cl_consecutive_auth_errors s2 = (if terminal then 0 else cl_consecutive_auth_errors s + 1)"
    by (simp_all add: s2_def)
  ultimately show ?thesis
    unfolding s'_def eq by (cases terminal) (simp_all add: deliver_in_flight info_def out_def)
qed

lemma auth_error_witness:
  "let s = client_run sample_lib sample_opts ''s'' 0 sample_open;
       s' = fst (ws_message sample_lib (at_time 3) 1 ''rejected'' s)
   in ci_state (info s') = Disconnected \<and> bc_auth (cl_base s') = None"
proof -
  have facts: "let s = client_run sample_lib sample_opts ''s'' 0 sample_open
     in \<not> cl_stopping s \<and> cl_conn_gen s = 1 \<and> cl_fetcher s = None" by code_simp
  have dec: "decode_server_message sample_lib ''rejected'' =
      Inr (SV_auth_error \<lparr>ae_error = ''bad token'', ae_base_version = None, ae_auth_update_attempted = False\<rparr>)"
    by code_simp
  show ?thesis
    using auth_error [OF sample_prefixes(1) _ dec, of "at_time 3"] facts by (simp add: Let_def)
qed

subsection \<open>A message that cannot be decoded\<close>

text \<open>
  \<open>C16\<close>: a message that is not a protocol message ends the connection, with the decoder's reason,
  and the client will reconnect; the state machine sees nothing of it but the restart. Any other
  exception of the decoder leaves the callback of the transport, and only the clock was set.
\<close>

theorem undecodable_message:
  assumes "client_runs L opts sid now ops"
  defines "s \<equiv> client_run L opts sid now ops"
  assumes "\<not> cl_stopping s" "decode_server_message L t = Inl e"
  shows "case e of
      Protocol_error w \<Rightarrow> (let s' = fst (ws_message L E (cl_conn_gen s) t s) in
        snd (ws_message L E (cl_conn_gen s) t s) = None
        \<and> ci_state (info s') = Disconnected \<and> cl_reconnect_scheduled s' \<and> cl_conn s' = None
        \<and> cl_last_close_reason s' = ''ProtocolError: '' @ w
        \<and> cl_base s' = fst (restart (if cl_fetcher s \<noteq> None then ev_fetched E else None) (cl_base s)))
    | _ \<Rightarrow> ws_message L E (cl_conn_gen s) t s = (s\<lparr>cl_last_server_msg := ev_now E\<rparr>, Some e)"
proof (cases "\<exists>w. e = Protocol_error w")
  case True
  then obtain w where w: "e = Protocol_error w" by blast
  note I = client_invD [OF client_run_inv [OF assms(1)], folded s_def]
  let ?s0 = "s\<lparr>cl_last_server_msg := ev_now E\<rparr>"
  have "pending_ok ?s0" "\<not> cl_stopping ?s0" "bc_inv (cl_base ?s0)"
    using I(3,4) assms(3) by (simp_all add: pending_ok_def)
  from begin_disconnect_spec [OF this, of E "''ProtocolError: '' @ w" "[]"] show ?thesis
    using assms(3,4)
    by (simp add: ws_message_def protocol_failure_def w Let_def info_def refreshed_token_def)
next
  case False
  then show ?thesis using assms(3,4) by (cases e) (simp_all add: ws_message_def Let_def)
qed

lemma undecodable_message_witness:
  "let s' = fst (ws_message sample_lib (at_time 3) 1 ''?'' (client_run sample_lib sample_opts ''s'' 0 sample_open))
   in ci_state (info s') = Disconnected \<and> cl_reconnect_scheduled s'"
proof -
  have facts: "let s = client_run sample_lib sample_opts ''s'' 0 sample_open
     in \<not> cl_stopping s \<and> cl_conn_gen s = 1" by code_simp
  have dec: "case decode_server_message sample_lib ''?'' of Inl (Protocol_error w) \<Rightarrow> True | _ \<Rightarrow> False" by code_simp
  then obtain w where "decode_server_message sample_lib ''?'' = Inl (Protocol_error w)"
    by (auto split: sum.splits exn.splits)
  from undecodable_message [OF sample_prefixes(1) _ this, of "at_time 3"] facts show ?thesis
    by (simp add: Let_def)
qed

subsection \<open>After shutdown\<close>

definition halted :: "client_state \<Rightarrow> bool" where
  "halted s \<longleftrightarrow> cl_stopping s \<and> cl_conn s = None \<and> cl_conn_slot s = None \<and> \<not> cl_socket_open s
     \<and> cl_wire s = []"

lemma halted_cong:
  "\<lbrakk>cl_stopping s' = cl_stopping s; cl_conn s' = cl_conn s; cl_conn_slot s' = cl_conn_slot s;
    cl_socket_open s' = cl_socket_open s; cl_wire s' = cl_wire s\<rbrakk> \<Longrightarrow> halted s' = halted s"
  by (simp add: halted_def)

lemma halted_frame [simp]:
  "halted (deliver out s) = halted s" "halted (notify_all s) = halted s" "halted (hand_over out s) = halted s"
  by (rule halted_cong; simp)+

lemma halted_step:
  assumes h: "halted s"
  shows "halted (client_step L s op)"
proof -
  have keep: "halted s'"
    if "cl_stopping s' = cl_stopping s" "cl_conn s' = cl_conn s" "cl_conn_slot s' = cl_conn_slot s"
      "cl_socket_open s' = cl_socket_open s" "cl_wire s' = cl_wire s" for s'
    using h halted_cong [OF that] by simp
  have st: "cl_stopping s" and closed: "\<not> cl_socket_open s" using h by (simp_all add: halted_def)
  show ?thesis
  proof (cases op)
    case (Worker_pass E)
    then show ?thesis using st by (auto intro!: keep simp: client_step_def worker_pass_def)
  next
    case (Connect_returns E r)
    show ?thesis
    proof (cases "cl_worker s")
      case (W_connecting g out)
      have "halted (s\<lparr>cl_worker := W_running\<rparr>)" "halted (s\<lparr>cl_worker := W_running, cl_garbage := x\<rparr>)" for x
        by (rule keep; simp)+
      then show ?thesis
        using st by (simp add: Connect_returns client_step_def connect_returns_def W_connecting attempt_end_def Let_def)
    qed (use h in \<open>simp_all add: Connect_returns client_step_def connect_returns_def\<close>)
  next
    case (Run_delivery n)
    have "halted (s\<lparr>cl_in_flight := q\<rparr>)" for q by (rule keep) simp_all
    then show ?thesis using h by (simp add: Run_delivery client_step_def run_delivery_def)
  next
    case (Do_subscribe p args cb)
    have "halted (fst (do_subscribe L p args cb s))"
      by (rule do_subscribe_keeps) (use keep closed in \<open>simp_all add: drain_outgoing_closed\<close>)
    then show ?thesis by (simp add: Do_subscribe client_step_def)
  next
    case (Shutdown_end)
    then show ?thesis by (auto intro!: keep simp: client_step_def shutdown_end_def)
  qed (use h st in \<open>auto intro!: keep simp: client_step_def ws_open_def ws_message_def ws_close_def
      worker_wake_def do_unsubscribe_def do_request_def do_set_auth_def do_process_events_def
      shutdown_begin_def on_state_change_def on_auth_failure_def on_log_lines_def\<close>)
qed

interpretation off: guarded_machine "client_step L" "\<lambda>s op. True" halted for L
  by unfold_locales (rule halted_step)

lemma ok_run_any: "ok_run step (\<lambda>s op. True) s ops"
  by (induction ops arbitrary: s) simp_all

text \<open>
  \<open>C17\<close>: \<open>shutdown\<close> is final. Whatever happens after it has begun, in any interleaving and even if a
  transport breaks its contract, the client stays stopped: it has no connection, the observer of
  none, and sends nothing.
\<close>

theorem shutdown_is_final:
  assumes "\<not> cl_stopping s"
  shows "let s' = run (client_step L) s (Shutdown_begin # later)
    in cl_stopping s' \<and> cl_conn s' = None \<and> cl_conn_slot s' = None \<and> \<not> cl_socket_open s' \<and> cl_wire s' = []"
proof -
  have "halted (client_step L s Shutdown_begin)"
    using assms by (simp add: client_step_def shutdown_begin_def) (simp add: halted_def)
  from off.run_keeps [OF this ok_run_any, of L later] show ?thesis by (simp add: halted_def Let_def)
qed

lemma shutdown_is_final_witness:
  "cl_wire (run (client_step sample_lib) (client_run sample_lib sample_opts ''s'' 0 sample_open)
      (Shutdown_begin # [Ws_open (at_time 9) 2, Do_request True ''messages:send'' [] 9])) = []"
  using shutdown_is_final [of "client_run sample_lib sample_opts ''s'' 0 sample_open" sample_lib
      "[Ws_open (at_time 9) 2, Do_request True ''messages:send'' [] 9]"] sample_facts
  unfolding Let_def by blast

subsection \<open>The address of the endpoint\<close>

lemma find_scheme: "CHR '':'' \<notin> set a \<Longrightarrow> find_sub (a @ CHR '':'' # pat @ b) (CHR '':'' # pat) = Some (length a)"
  by (induction a) auto

lemma tolower_colon: "tolower CHR '':'' = CHR '':''"
  by (simp add: tolower_def)

definition ws_schemes :: "(string \<times> string) list" where
  "ws_schemes = [(''https'', ''wss''), (''wss'', ''wss''), (''http'', ''ws''), (''ws'', ''ws'')]"

lemma ws_schemes_colon: "map_of ws_schemes low = Some ws \<Longrightarrow> CHR '':'' \<notin> set low"
  by (auto simp: ws_schemes_def split: if_splits)

lemma deployment_eq:
  "deployment_to_ws_url u = (case find_sub u ''://'' of
      None \<Rightarrow> Inl (Invalid_argument (''convex: deployment URL has no scheme: '' @ u))
    | Some k \<Rightarrow> (case map_of ws_schemes (List.map tolower (take k u)) of
        None \<Rightarrow> Inl (Invalid_argument (''convex: unsupported deployment URL scheme: '' @ List.map tolower (take k u)))
      | Some ws \<Rightarrow> (if pop_slashes (drop (k + 3) u) = []
          then Inl (Invalid_argument ''convex: deployment URL has no host'')
          else Inr (ws @ ''://'' @ pop_slashes (drop (k + 3) u) @ ''/api/sync''))))"
  by (simp add: deployment_to_ws_url_def ws_schemes_def Let_def split: option.split)

text \<open>An address that is accepted, taken apart; and one put together.\<close>

lemma endpoint_parts:
  assumes url: "deployment_to_ws_url u = Inr w"
  obtains scheme host n ws where "u = scheme @ ''://'' @ host @ replicate n CHR ''/''"
    "host \<noteq> []" "last host \<noteq> CHR ''/''" "map_of ws_schemes (List.map tolower scheme) = Some ws"
    "w = ws @ ''://'' @ host @ ''/api/sync''"
proof -
  obtain k where k: "find_sub u ''://'' = Some k" using url by (auto simp: deployment_eq split: option.splits)
  define scheme rest where "scheme = take k u" and "rest = drop (k + 3) u"
  have "take 3 (drop k u) = ''://''" using find_sub_Some [OF k] by (simp add: numeral_3_eq_3)
  then have "drop k u = ''://'' @ rest" unfolding rest_def
    by (metis append_take_drop_id drop_drop add.commute)
  then have u: "u = scheme @ ''://'' @ rest" unfolding scheme_def by (metis append_take_drop_id)
  obtain ws where ws: "map_of ws_schemes (List.map tolower scheme) = Some ws"
    and host: "pop_slashes rest \<noteq> []" "w = ws @ ''://'' @ pop_slashes rest @ ''/api/sync''"
    using url k by (auto simp: deployment_eq scheme_def rest_def split: option.splits if_splits)
  obtain n where "rest = pop_slashes rest @ replicate n CHR ''/''" using pop_slashes_spec(1) by blast
  then show thesis
    using u ws host pop_slashes_spec(2) [of rest] by (intro that [of scheme "pop_slashes rest" n ws]) auto
qed

lemma endpoint_of_parts:
  assumes host: "host \<noteq> []" "last host \<noteq> CHR ''/''" and ws: "map_of ws_schemes (List.map tolower scheme) = Some ws"
  shows "deployment_to_ws_url (scheme @ ''://'' @ host @ replicate n CHR ''/'') = Inr (ws @ ''://'' @ host @ ''/api/sync'')"
    (is "deployment_to_ws_url ?u = _")
proof -
  have "CHR '':'' \<notin> set scheme"
    using ws_schemes_colon [OF ws] by (metis imageI list.set_map tolower_colon)
  then have k: "find_sub ?u ''://'' = Some (length scheme)"
    using find_scheme [of scheme "''//''"] by simp
  have "drop (length scheme + 3) ?u = host @ replicate n CHR ''/''" "take (length scheme) ?u = scheme"
    by simp_all
  then show ?thesis
    using k ws host(1) pop_slashes_host [OF host] by (simp add: deployment_eq)
qed

text \<open>
  \<open>C19\<close>: the sync endpoint of a deployment. An address is derived exactly from a scheme, in any
  letter case, \<open>://\<close>, and a host part that is not empty once its trailing slashes are dropped:
  https and wss give wss, http and ws give ws, and the path of the endpoint is appended. Any other
  text is refused with the documented exception.
\<close>

theorem endpoint_address:
  "(deployment_to_ws_url u = Inr w \<longleftrightarrow>
      (\<exists>scheme host n ws. u = scheme @ ''://'' @ host @ replicate n CHR ''/''
        \<and> host \<noteq> [] \<and> last host \<noteq> CHR ''/''
        \<and> map_of ws_schemes (List.map tolower scheme) = Some ws \<and> w = ws @ ''://'' @ host @ ''/api/sync''))
   \<and> (deployment_to_ws_url u = Inl e \<longrightarrow> (\<exists>m. e = Invalid_argument m))"
proof
  show "deployment_to_ws_url u = Inl e \<longrightarrow> (\<exists>m. e = Invalid_argument m)"
    by (auto simp: deployment_eq split: option.splits if_splits)
  show "deployment_to_ws_url u = Inr w \<longleftrightarrow>
      (\<exists>scheme host n ws. u = scheme @ ''://'' @ host @ replicate n CHR ''/''
        \<and> host \<noteq> [] \<and> last host \<noteq> CHR ''/''
        \<and> map_of ws_schemes (List.map tolower scheme) = Some ws \<and> w = ws @ ''://'' @ host @ ''/api/sync'')"
    by (metis endpoint_parts endpoint_of_parts)
qed

lemma endpoint_address_witness:
  "deployment_to_ws_url ''HTTPS://x.convex.cloud//'' = Inr ''wss://x.convex.cloud/api/sync''"
proof -
  have "''HTTPS://x.convex.cloud//'' = ''HTTPS'' @ ''://'' @ ''x.convex.cloud'' @ replicate 2 CHR ''/''
    \<and> ''x.convex.cloud'' \<noteq> [] \<and> last ''x.convex.cloud'' \<noteq> CHR ''/''
    \<and> map_of ws_schemes (List.map tolower ''HTTPS'') = Some ''wss''
    \<and> ''wss://x.convex.cloud/api/sync'' = ''wss'' @ ''://'' @ ''x.convex.cloud'' @ ''/api/sync''"
    by code_simp
  then show ?thesis using endpoint_address [THEN conjunct1, THEN iffD2, OF exI, OF exI, OF exI, OF exI] by blast
qed

subsection \<open>The delay before the next attempt\<close>

lemma backoff_capped_mono:
  "n \<le> m \<Longrightarrow> backoff_capped opts n \<le> backoff_capped opts m"
proof -
  assume "n \<le> m"
  then have "(2 :: nat) ^ unat n \<le> 2 ^ unat m" by (simp add: word_le_nat_alt)
  then have "co_initial_backoff opts * 2 ^ unat n \<le> co_initial_backoff opts * 2 ^ unat m" by simp
  then show ?thesis unfolding backoff_capped_def by (rule min.mono) simp
qed

text \<open>
  \<open>C20\<close>: the backoff. With the jitter the random distribution yields, the delay after \<open>n\<close> failed
  attempts is between one half and three halves of the initial delay doubled \<open>n\<close> times, or of
  the maximum when that is smaller; it never exceeds three halves of the maximum, and without
  the jitter it never goes down from one attempt to the next.
\<close>

theorem backoff_bounds:
  assumes "1 / 2 \<le> j" "j \<le> 3 / 2" "n \<le> m"
  shows "let c = min (co_initial_backoff opts * 2 ^ unat n) (co_max_backoff opts) in
      c div 2 \<le> backoff_delay opts j n \<and> 2 * backoff_delay opts j n \<le> 3 * c
      \<and> 2 * backoff_delay opts j n \<le> 3 * co_max_backoff opts
      \<and> backoff_capped opts n \<le> backoff_capped opts m"
proof -
  define c where "c = backoff_capped opts n"
  have c: "c = min (co_initial_backoff opts * 2 ^ unat n) (co_max_backoff opts)"
    by (simp add: c_def backoff_capped_def)
  have pos: "0 \<le> (of_nat c :: rat)" by simp
  have lo: "of_nat c * (1 / 2) \<le> of_nat c * j" using assms(1) pos by (rule mult_left_mono)
  have hi: "of_nat c * j \<le> of_nat c * (3 / 2)" using assms(2) pos by (rule mult_left_mono)
  have "int (c div 2) \<le> \<lfloor>of_nat c * j\<rfloor>"
  proof -
    have "(of_int (int (c div 2)) :: rat) \<le> of_nat c * (1 / 2)"
    proof -
      have "2 * (c div 2) \<le> c" by simp
      then have "(of_nat (2 * (c div 2)) :: rat) \<le> of_nat c" unfolding of_nat_le_iff .
      then show ?thesis by simp
    qed
    then show ?thesis using lo by (simp add: le_floor_iff)
  qed
  moreover have "2 * \<lfloor>of_nat c * j\<rfloor> \<le> 3 * int c"
  proof -
    have "(of_int \<lfloor>of_nat c * j\<rfloor> :: rat) \<le> of_nat c * (3 / 2)" using hi of_int_floor_le order_trans by blast
    then have "(of_int (2 * \<lfloor>of_nat c * j\<rfloor>) :: rat) \<le> of_int (3 * int c)" by simp
    then show ?thesis by (simp only: of_int_le_iff)
  qed
  ultimately have "c div 2 \<le> backoff_delay opts j n" "2 * backoff_delay opts j n \<le> 3 * c"
    by (simp_all add: backoff_delay_def c_def)
  moreover have "c \<le> co_max_backoff opts" by (simp add: c)
  ultimately show ?thesis using backoff_capped_mono [OF assms(3)] by (simp add: c Let_def)
qed

lemma backoff_bounds_witness:
  "2 * backoff_delay sample_opts (5 / 4) 3 \<le> 3 * 8"
  using backoff_bounds [of "5 / 4" 3 3 sample_opts] by (simp add: Let_def sample_opts_def)

end
