(* ===== verification/ClientCarried.thy ===== *)
theory ClientCarried
  imports ClientProps
begin

section \<open>Carrying an invariant of the state machine through the client\<close>

text \<open>
  What a property of the state machine and of the table of subscribers must satisfy to hold after
  every run of the realtime client. The property also sees the generation of the connection
  and whether a reconnect is scheduled. The laws speak of the operations of the state machine; that
  no section of the client does anything else to it is proved here, once.
\<close>

type_synonym subs_table = "(query_id, sub_entry list) omap"

subsection \<open>Runs with assumptions on the server and on the application\<close>

text \<open>
  \<open>good\<close>: the transitions handed to the state machine on a generation. \<open>room\<close> and \<open>present\<close>: when
  the application subscribes, and what it unsubscribes.
\<close>

fun step_lawful ::
  "(64 word \<Rightarrow> transition_message \<Rightarrow> bool) \<Rightarrow> (base_client \<Rightarrow> bool) \<Rightarrow> (subscriber_id \<Rightarrow> subs_table \<Rightarrow> bool)
    \<Rightarrow> json_lib \<Rightarrow> client_state \<Rightarrow> client_op \<Rightarrow> bool"
where
  "step_lawful good room present L s (Ws_message E gen t) \<longleftrightarrow>
     (case handed L s t of Some tr \<Rightarrow> good gen tr | None \<Rightarrow> True)"
| "step_lawful good room present L s (Do_subscribe p args cb) \<longleftrightarrow> room (cl_base s)"
| "step_lawful good room present L s (Do_unsubscribe sid) \<longleftrightarrow> cl_stopping s \<or> present sid (cl_subs s)"
| "step_lawful good room present L s _ \<longleftrightarrow> True"

fun run_lawful ::
  "(64 word \<Rightarrow> transition_message \<Rightarrow> bool) \<Rightarrow> (base_client \<Rightarrow> bool) \<Rightarrow> (subscriber_id \<Rightarrow> subs_table \<Rightarrow> bool)
    \<Rightarrow> json_lib \<Rightarrow> client_state \<Rightarrow> client_op list \<Rightarrow> bool"
where
  "run_lawful good room present L s [] \<longleftrightarrow> True"
| "run_lawful good room present L s (op # ops) \<longleftrightarrow>
     step_lawful good room present L s op \<and> run_lawful good room present L (client_step L s op) ops"

definition carries ::
  "(64 word \<Rightarrow> bool \<Rightarrow> base_client \<Rightarrow> subs_table \<Rightarrow> bool) \<Rightarrow> client_state \<Rightarrow> bool"
where
  "carries P s \<longleftrightarrow> cl_stopping s \<or> P (cl_conn_gen s) (cl_reconnect_scheduled s) (cl_base s) (cl_subs s)"

lemma carries_frame [simp]:
  "carries P (deliver out s) = carries P s" "carries P (notify_all s) = carries P s"
  "carries P (hand_over out s) = carries P s" "carries P (deliver_later out s) = carries P s"
  by (simp_all add: carries_def)

lemma carries_cong:
  "\<lbrakk>carries P s; cl_stopping s' = cl_stopping s; cl_conn_gen s' = cl_conn_gen s;
    cl_reconnect_scheduled s' = cl_reconnect_scheduled s; cl_base s' = cl_base s; cl_subs s' = cl_subs s\<rbrakk>
   \<Longrightarrow> carries P s'"
  by (simp add: carries_def)

text \<open>While the observer of the current generation is alive no reconnect is scheduled.\<close>

lemma slot_not_scheduled:
  "conn_ok s \<Longrightarrow> \<not> cl_stopping s \<Longrightarrow> has_slot s (cl_conn_gen s) \<Longrightarrow> \<not> cl_reconnect_scheduled s"
  by (auto simp: conn_ok_def has_slot_iff connecting_def)

text \<open>A message that is no transition changes the requests in flight and the largest timestamp only.\<close>

lemma observe_frame: "\<exists>t. observe_timestamp ts b = b\<lparr>bc_max_observed_timestamp := t\<rparr>"
proof (cases "bc_max_observed_timestamp b")
  case None
  then show ?thesis by (auto simp: observe_timestamp_def)
next
  case (Some old)
  then show ?thesis
    by (intro exI [of _ "if ts > old then Some ts else bc_max_observed_timestamp b"]) (simp add: observe_timestamp_def)
qed

lemma receive_frame:
  assumes r: "receive_message m b = Inr (b', out)" and no: "\<And>t. m \<noteq> SV_transition t"
  shows "\<exists>q t. b' = b\<lparr>bc_max_observed_timestamp := t, bc_ongoing_requests := q\<rparr>"
proof -
  have same: "\<exists>q t. b = b\<lparr>bc_max_observed_timestamp := t, bc_ongoing_requests := q\<rparr>"
    by (intro exI [of _ "bc_ongoing_requests b"] exI [of _ "bc_max_observed_timestamp b"]) simp
  have requests: "\<exists>q' t. b\<lparr>bc_ongoing_requests := q\<rparr> = b\<lparr>bc_max_observed_timestamp := t, bc_ongoing_requests := q'\<rparr>" for q
    by (intro exI [of _ q] exI [of _ "bc_max_observed_timestamp b"]) simp
  show ?thesis
  proof (cases m)
    case (SV_mutation_response mr)
    show ?thesis
    proof (cases "map_of (bc_ongoing_requests b) (mr_id mr)")
      case None
      then show ?thesis using r same by (simp add: SV_mutation_response handle_mutation_response_def)
    next
      case (Some req)
      show ?thesis
      proof (cases "fr_ok (mr_result mr) \<and> mr_ts mr \<noteq> None")
        case True
        then obtain ts where ts: "mr_ts mr = Some ts" by auto
        let ?held = "b\<lparr>bc_ongoing_requests := om_insert (mr_id mr)
          (req\<lparr>pr_completed := True, pr_ts := Some ts, pr_result := Some (mr_result mr)\<rparr>) (bc_ongoing_requests b)\<rparr>"
        obtain t where "observe_timestamp ts ?held = ?held\<lparr>bc_max_observed_timestamp := t\<rparr>"
          using observe_frame by blast
        then show ?thesis
          using r True Some ts
          by (auto simp: SV_mutation_response handle_mutation_response_def flush_completed_def result_simps Let_def)
      next
        case False
        then show ?thesis
          using r Some requests
          by (auto simp: SV_mutation_response handle_mutation_response_def complete_request_def Let_def split: option.splits)
      qed
    qed
  next
    case (SV_action_response a)
    then show ?thesis
      using r same requests by (auto simp: handle_action_response_def complete_request_def split: option.splits)
  next
    case (SV_transition t)
    then show ?thesis using no by blast
  next
    case (SV_auth_error e)
    then have "b' = b" using r by simp
    then show ?thesis using same by blast
  next
    case (SV_fatal_error e)
    then have "b' = b" using r by simp
    then show ?thesis using same by blast
  next
    case SV_ping
    then have "b' = b" using r by simp
    then show ?thesis using same by blast
  next
    case (SV_transition_chunk c)
    then have "b' = b" using r by simp
    then show ?thesis using same by blast
  qed
qed

subsection \<open>The laws, and what follows\<close>

locale carried =
  fixes P :: "64 word \<Rightarrow> bool \<Rightarrow> base_client \<Rightarrow> subs_table \<Rightarrow> bool"
    and good :: "64 word \<Rightarrow> transition_message \<Rightarrow> bool"
    and room :: "base_client \<Rightarrow> bool"
    and present :: "subscriber_id \<Rightarrow> subs_table \<Rightarrow> bool"
  assumes queue: "P g c b m \<Longrightarrow> P g c (b\<lparr>bc_outgoing := q\<rparr>) m"
    and connect: "P g c b m \<Longrightarrow> P g c (fst (make_connect_message reason ts b)) m"
    and auth: "P g c b m \<Longrightarrow> P g c (set_auth tok b) m"
    and request: "P g c b m \<Longrightarrow> P g c (fst (enqueue_request k mk L p args b)) m"
    and receive: "\<lbrakk>P g False b m; bc_inv b; receive_message msg b = Inr (b', out);
        \<And>tr. msg = SV_transition tr \<Longrightarrow> good g tr\<rbrakk> \<Longrightarrow> P g False b' m"
    and restarted: "P g c b m \<Longrightarrow> P g' True (fst (restart tok' b)) m"
    and attempt: "P g True b m \<Longrightarrow> P g' False b m"
    and add: "\<lbrakk>P g c b m; bc_inv b; subscribe_ok b; room b; subscribe L p args b = (b', Inr sid)\<rbrakk>
        \<Longrightarrow> P g c b' (add_entry sid cb m)"
    and remove: "\<lbrakk>P g c b m; bc_inv b; present sid m\<rbrakk> \<Longrightarrow> P g c (unsubscribe sid b) (drop_entry sid m)"
begin

lemma drain: "carries P s \<Longrightarrow> carries P (fst (drain_outgoing L s))"
proof -
  assume s: "carries P s"
  obtain q where "fst (drain_loop L (cl_base s)) = (cl_base s)\<lparr>bc_outgoing := q\<rparr>" using drain_loop_frame by blast
  then show "carries P (fst (drain_outgoing L s))"
    using s queue by (auto simp: drain_outgoing_def case_prod_unfold Let_def carries_def)
qed

lemma handle_open:
  assumes s: "carries P s"
  shows "carries P (fst (handle_open L E (s, out)))"
proof -
  obtain b m where cm: "make_connect_message (cl_last_close_reason s) (Some (ev_wall_clock_ms E)) (cl_base s) = (b, m)"
    by fastforce
  then have b: "carries P (s\<lparr>cl_last_server_msg := ev_now E, cl_state := Connected, cl_base := b\<rparr>)"
    "carries P (s\<lparr>cl_last_server_msg := ev_now E, cl_state := Connected, cl_base := b, cl_wire := w\<rparr>)" for w
    using s connect [of "cl_conn_gen s" "cl_reconnect_scheduled s" "cl_base s" "cl_subs s" "cl_last_close_reason s"]
    by (simp_all add: carries_def) (metis fst_conv)+
  show ?thesis
    using cm b(1) drain [OF b(2)]
    by (cases "encode_client_message L (CM_connect m)") (simp_all add: handle_open_def Let_def case_prod_unfold)
qed

lemma after_open:
  "carries P s \<Longrightarrow> carries P (fst (case handle_open L E (s, out) of
     (s2, out2, Some e) \<Rightarrow> (s2, Some e)
   | (s2, out2, None) \<Rightarrow> (deliver out2 (notify_all s2), None)))"
  using handle_open [of s L E out] by (cases "handle_open L E (s, out)") (auto split: option.split)

lemma disconnect: "carries P s \<Longrightarrow> carries P (fst (begin_disconnect E reason (s, out)))"
proof (rule begin_disconnect_cases [of E s reason out])
  fix b failed evs p
  assume s: "carries P s" and r: "restart (refreshed_token E s) (cl_base s) = (b, failed)"
    and eq: "begin_disconnect E reason (s, out) = (disconnected E reason b p s,
      out @ (if cl_state s \<noteq> Disconnected then map (\<lambda>l. Ev_state l Disconnected) (cl_state_listeners s) else []) @ evs)"
  have "P (cl_conn_gen s + 1) True b (cl_subs s)" if "\<not> cl_stopping s"
    using s that restarted [of "cl_conn_gen s" "cl_reconnect_scheduled s" "cl_base s" "cl_subs s" _ "refreshed_token E s"] r
    by (simp add: carries_def)
  then show "carries P (fst (begin_disconnect E reason (s, out)))" unfolding eq by (auto simp: carries_def)
qed

lemma ws_open: "carries P s \<Longrightarrow> carries P (fst (ws_open L E gen s))"
proof -
  assume s: "carries P s"
  have upd: "carries P (s\<lparr>cl_socket_open := True\<rparr>)" "carries P (s\<lparr>cl_socket_open := True, cl_pending_open := True\<rparr>)"
    by (rule carries_cong [OF s]; simp)+
  show ?thesis using s upd after_open [OF upd(1), of L E "[]"] by (simp add: ws_open_def Let_def)
qed

lemma auth_rejection: "carries P s \<Longrightarrow> carries P (fst (auth_rejected r reason (s, out)))"
proof -
  assume s: "carries P s"
  have "carries P (s\<lparr>cl_consecutive_auth_errors := n\<rparr>)" for n by (rule carries_cong [OF s]) simp_all
  moreover have "carries P (s\<lparr>cl_base := set_auth tok (cl_base s), cl_fetcher := f, cl_consecutive_auth_errors := n\<rparr>)"
    for tok f n using s auth by (auto simp: carries_def)
  ultimately show "carries P (fst (auth_rejected r reason (s, out)))"
    by (auto simp: auth_rejected_def Let_def)
qed

lemma dispatch:
  assumes s: "carries P s" and run: "\<not> cl_stopping s" "\<not> cl_reconnect_scheduled s" and inv: "bc_inv (cl_base s)"
    and server: "\<And>tr. msg = SV_transition tr \<Longrightarrow> good (cl_conn_gen s) tr"
  shows "carries P (fst (dispatch_message L E msg s))"
proof (cases "receive_message msg (cl_base s)")
  case (Inl e)
  then show ?thesis using s by (simp add: dispatch_message_def)
next
  case (Inr br)
  obtain b r where br: "br = (b, r)" by fastforce
  have "P (cl_conn_gen s) False (cl_base s) (cl_subs s)" using s run by (simp add: carries_def)
  then have b: "P (cl_conn_gen s) False b (cl_subs s)"
    by (rule receive [OF _ inv Inr [unfolded br] server])
  then have s1: "carries P (s\<lparr>cl_base := b\<rparr>)" using run(2) by (simp add: carries_def)
  show ?thesis
  proof (cases "rr_reconnect_reason r")
    case (Some reason)
    have "carries P (fst (begin_disconnect E reason (auth_rejected r reason (s\<lparr>cl_base := b\<rparr>, out))))" for out
      using auth_rejection [OF s1, of r reason out] disconnect
      by (cases "auth_rejected r reason (s\<lparr>cl_base := b\<rparr>, out)") simp
    then show ?thesis
      using Inr br Some disconnect [OF s1] by (simp add: dispatch_message_def Let_def case_prod_unfold)
  next
    case None
    have upd: "carries P (s\<lparr>cl_base := b, cl_pending := p\<rparr>)"
      "carries P (s\<lparr>cl_base := b, cl_pending := p, cl_retries := 0, cl_consecutive_auth_errors := 0\<rparr>)" for p
      by (rule carries_cong [OF s1]; simp)+
    show ?thesis
      using Inr br None drain [OF upd(1)] drain [OF upd(2)]
      by (auto simp: dispatch_message_def Let_def case_prod_unfold split: option.split)
  qed
qed

lemma ws_message:
  assumes s: "carries P s" and ok: "conn_ok s" and inv: "bc_inv (cl_base s)"
    and en: "gen = cl_conn_gen s \<longrightarrow> has_slot s gen" and server: "step_lawful good room present L s (Ws_message E gen t)"
  shows "carries P (fst (ws_message L E gen t s))"
proof (cases "cl_stopping s \<or> gen \<noteq> cl_conn_gen s")
  case True
  then show ?thesis using s by (simp add: ws_message_def)
next
  case False
  then have run: "\<not> cl_stopping s" "gen = cl_conn_gen s" by simp_all
  have idle: "\<not> cl_reconnect_scheduled s" using slot_not_scheduled [OF ok run(1)] en run(2) by simp
  have upd: "carries P (s\<lparr>cl_last_server_msg := ev_now E, cl_chunk_assembler := a\<rparr>)" for a
    by (rule carries_cong [OF s]) simp_all
  show ?thesis
  proof (rule ws_message_cases [OF run, of L E t])
    fix w a assume "ws_message L E gen t s =
      protocol_failure E w (s\<lparr>cl_last_server_msg := ev_now E, cl_chunk_assembler := a\<rparr>)"
    then show ?thesis
      using disconnect [OF upd] by (simp add: protocol_failure_def case_prod_unfold Let_def)
  next
    fix msg a
    assume eq: "ws_message L E gen t s =
        dispatch_message L E msg (s\<lparr>cl_last_server_msg := ev_now E, cl_chunk_assembler := a\<rparr>)"
      and handed: "\<forall>tr. msg = SV_transition tr \<longrightarrow> handed L s t = Some tr"
    have "good (cl_conn_gen s) tr" if "msg = SV_transition tr" for tr
      using server handed that run(2) by simp
    then show ?thesis
      unfolding eq by (intro dispatch [OF upd]) (use run idle inv in simp_all)
  qed (simp_all add: upd)
qed

lemma attempt_end:
  assumes s: "carries P s"
  shows "carries P (fst (attempt_end L E gen out r s))"
proof -
  have upd: "carries P (s\<lparr>cl_worker := W_running\<rparr>)" "carries P (s\<lparr>cl_worker := W_running, cl_garbage := g\<rparr>)"
    "carries P (s\<lparr>cl_worker := W_running, cl_conn := c, cl_conn_slot := c, cl_wire := w\<rparr>)"
    "carries P (s\<lparr>cl_worker := W_running, cl_conn := c, cl_conn_slot := c, cl_wire := w,
      cl_pending_open := False, cl_socket_open := True\<rparr>)"
    "carries P (s\<lparr>cl_worker := W_running, cl_conn_slot := c\<rparr>)" for g c w
    by (rule carries_cong [OF s]; simp)+
  show ?thesis
    using upd disconnect [OF upd(5)] after_open [OF upd(4)]
    by (simp add: attempt_end_def Let_def case_prod_unfold)
qed

lemma worker_pass:
  assumes s: "carries P s"
  shows "carries P (worker_pass E s)"
proof -
  have upd: "carries P (s\<lparr>cl_garbage := []\<rparr>)" "carries P (s\<lparr>cl_worker := w\<rparr>)" for w
    by (rule carries_cong [OF s]; simp)+
  have "carries P (attempt_begin (s\<lparr>cl_reconnect_scheduled := False\<rparr>))" if "\<not> cl_stopping s" "cl_reconnect_scheduled s"
    using s that attempt by (auto simp: attempt_begin_def Let_def carries_def)
  then show ?thesis
    using s upd disconnect [OF s] by (auto simp: worker_pass_def case_prod_unfold Let_def)
qed

lemma do_subscribe:
  assumes s: "carries P s" and inv: "bc_inv (cl_base s)" and en: "subscribe_ok (cl_base s)" "room (cl_base s)"
  shows "carries P (fst (do_subscribe L p args cb s))"
proof (rule do_subscribe_cases [of L p args s cb])
  fix b sid s2 x
  assume sub: "subscribe L p args (cl_base s) = (b, Inr sid)"
    and d: "drain_outgoing L (s\<lparr>cl_base := b, cl_subs := add_entry sid cb (cl_subs s)\<rparr>) = (s2, x)"
    and eq: "do_subscribe L p args cb s = (case x of
       Some e \<Rightarrow> (s2, Inl e)
     | None \<Rightarrow> (deliver (case latest_result b (si_query sid) of None \<Rightarrow> [] | Some fr \<Rightarrow> [Ev_update cb fr]) s2, Inr sid))"
  have "carries P (s\<lparr>cl_base := b, cl_subs := add_entry sid cb (cl_subs s)\<rparr>)"
    using s add [OF _ inv en sub] by (auto simp: carries_def)
  from drain [OF this, of L] show ?thesis unfolding eq d by (cases x) simp_all
next
  fix b e assume sub: "subscribe L p args (cl_base s) = (b, Inl e)" and eq: "do_subscribe L p args cb s = (s\<lparr>cl_base := b\<rparr>, Inl e)"
  have "b = cl_base s" using sub by (auto simp: subscribe_def split: sum.splits prod.splits)
  then show ?thesis using s unfolding eq by simp
qed

lemma do_unsubscribe:
  assumes s: "carries P s" and inv: "bc_inv (cl_base s)" and en: "cl_stopping s \<or> present sid (cl_subs s)"
  shows "carries P (fst (do_unsubscribe L sid s))"
proof (cases "cl_stopping s")
  case True
  then show ?thesis using s by (simp add: do_unsubscribe_def)
next
  case False
  have "carries P (s\<lparr>cl_subs := drop_entry sid (cl_subs s), cl_base := unsubscribe sid (cl_base s)\<rparr>)"
    using s False en remove [OF _ inv] by (simp add: carries_def)
  then show ?thesis using False drain by (simp add: do_unsubscribe_def)
qed

lemma do_request:
  assumes s: "carries P s"
  shows "carries P (fst (do_request L mut p args cb s))"
proof (cases "cl_stopping s")
  case True
  then show ?thesis by (simp add: do_request_def carries_def)
next
  case False
  define r where "r = (if mut then mutation L p args (cl_base s) else action L p args (cl_base s))"
  have "P (cl_conn_gen s) (cl_reconnect_scheduled s) (fst r) (cl_subs s)"
    using s False request by (simp add: r_def mutation_def action_def carries_def)
  then have upd: "carries P (s\<lparr>cl_base := fst r\<rparr>)" "carries P (s\<lparr>cl_base := fst r, cl_pending := q\<rparr>)" for q
    by (simp_all add: carries_def)
  show ?thesis
    using False upd(1) drain [OF upd(2)]
    by (cases r; cases "snd r") (simp_all add: do_request_def r_def [symmetric])
qed

lemma step:
  assumes s: "carries P s" and inv: "client_inv L s" and en: "client_ok L s op"
    and law: "step_lawful good room present L s op"
  shows "carries P (client_step L s op)"
proof (cases op)
  case (Ws_open E gen)
  then show ?thesis using ws_open [OF s] by (simp add: client_step_def)
next
  case (Ws_message E gen t)
  then show ?thesis
    using ws_message [OF s client_invD(1,4) [OF inv]] en law by (simp add: client_step_def client_ok_def)
next
  case (Ws_close E gen reason)
  then show ?thesis
    using s disconnect [OF s] by (simp add: client_step_def ws_close_def case_prod_unfold Let_def)
next
  case (Worker_pass E)
  then show ?thesis using worker_pass [OF s] by (simp add: client_step_def)
next
  case (Connect_returns E r)
  then show ?thesis
    using s attempt_end [OF s] by (cases "cl_worker s") (simp_all add: client_step_def connect_returns_def)
next
  case (Run_delivery n)
  have "carries P (s\<lparr>cl_in_flight := q\<rparr>)" for q by (rule carries_cong [OF s]) simp_all
  then show ?thesis using s by (simp add: Run_delivery client_step_def run_delivery_def)
next
  case (Do_subscribe p args cb)
  then show ?thesis
    using do_subscribe [OF s client_invD(4) [OF inv]] en law by (simp add: client_step_def client_ok_def)
next
  case (Do_unsubscribe sid)
  then show ?thesis
    using do_unsubscribe [OF s client_invD(4) [OF inv]] law by (simp add: client_step_def)
next
  case (Do_request mut p args cb)
  then show ?thesis using do_request [OF s] by (simp add: client_step_def)
next
  case (Do_set_auth tok f)
  have "carries P (s\<lparr>cl_fetcher := f, cl_consecutive_auth_errors := 0, cl_base := set_auth tok (cl_base s)\<rparr>)"
    using s auth by (auto simp: carries_def)
  then show ?thesis using s drain by (simp add: Do_set_auth client_step_def do_set_auth_def)
next
  case Shutdown_begin
  then show ?thesis using s by (simp add: client_step_def shutdown_begin_def) (simp add: carries_def)
qed (use s in \<open>simp_all add: client_step_def worker_wake_def\<close>,
     use s in \<open>simp_all add: carries_def do_process_events_def shutdown_end_def on_state_change_def
       on_auth_failure_def on_log_lines_def\<close>)

lemma run:
  "carries P s \<Longrightarrow> client_inv L s \<Longrightarrow> ok_run (client_step L) (client_ok L) s ops \<Longrightarrow>
     run_lawful good room present L s ops \<Longrightarrow> carries P (run (client_step L) s ops)"
proof (induction ops arbitrary: s)
  case (Cons op ops)
  have en: "client_ok L s op" and rest: "ok_run (client_step L) (client_ok L) (client_step L s op) ops"
    using Cons.prems(3) by simp_all
  have law: "step_lawful good room present L s op" "run_lawful good room present L (client_step L s op) ops"
    using Cons.prems(4) by simp_all
  have "carries P (client_step L s op)" by (rule step [OF Cons.prems(1,2) en law(1)])
  moreover have "client_inv L (client_step L s op)" by (rule cl.step_keeps [OF Cons.prems(2) en])
  ultimately show ?case using Cons.IH [OF _ _ rest law(2)] by simp
qed simp

text \<open>A run from the construction of the client.\<close>

lemma client_run:
  assumes "client_runs L opts sid now ops" and "P 0 True (new_base_client sid) []"
    and "case new_client opts sid now of Inl e \<Rightarrow> False | Inr s \<Rightarrow> run_lawful good room present L s ops"
  shows "carries P (client_run L opts sid now ops)"
proof -
  obtain s0 where s0: "new_client opts sid now = Inr s0" "ok_run (client_step L) (client_ok L) s0 ops"
    using assms(1) by (auto simp: client_runs_def split: sum.splits)
  have "carries P s0"
    using s0(1) assms(2) by (auto simp: new_client_def result_simps carries_def split: if_splits)
  from run [OF this new_client_inv [OF s0(1)] s0(2)] show ?thesis
    using assms(3) s0(1) by (simp add: client_run_def)
qed

end

end
