(* ===== verification/Snapshots.thy ===== *)
theory Snapshots
  imports ClientCarried SessionProps
begin

section \<open>What the subscribers see is the state of the server\<close>

text \<open>
  The server's side of the query results, and the theorem that the client shows it. On one
  connection a server has, for every version it announces, the results of the queries: a \<open>view\<close>.
  A transition is faithful to the view when its modifications turn the results at its start
  version into those at its end version. Nothing is assumed about which transitions arrive: they
  may be lost, repeated or reordered on the way. The client checks the start version, and so what it
  holds is always the view at one version, never a mixture of two.
\<close>

type_synonym view = "state_version \<Rightarrow> query_id \<Rightarrow> function_result option"

definition faithful :: "view \<Rightarrow> transition_message \<Rightarrow> bool" where
  "faithful view t \<longleftrightarrow> (\<forall>i.
     fold (\<lambda>m r. if sm_id m = i then sm_result m else r) (tr_modifications t) (view (tr_start_version t) i)
       = view (tr_end_version t) i)"

subsection \<open>The state machine\<close>

text \<open>
  The queries whose results are compared: those that are subscribed, and the identifiers that have not
  been given out. A query that was dropped may get a result from a transition on its way.
\<close>

definition tracked :: "base_client \<Rightarrow> query_id \<Rightarrow> bool" where
  "tracked b i \<longleftrightarrow> map_of (bc_id_to_token b) i \<noteq> None \<or> bc_next_query_id b \<le> i"

definition mirrors :: "view \<Rightarrow> base_client \<Rightarrow> bool" where
  "mirrors view b \<longleftrightarrow> (\<forall>i. tracked b i \<longrightarrow> latest_result b i = view (bc_remote_version b) i)"

definition blank :: "base_client \<Rightarrow> bool" where
  "blank b \<longleftrightarrow> bc_remote_version b = initial_state_version \<and> bc_remote_results b = []"

text \<open>The operations that are not the server's.\<close>

definition keeps_results :: "base_client \<Rightarrow> base_client \<Rightarrow> bool" where
  "keeps_results b b' \<longleftrightarrow> bc_remote_version b' = bc_remote_version b
     \<and> (\<forall>i. tracked b' i \<longrightarrow> tracked b i \<and> latest_result b' i = latest_result b i)
     \<and> (bc_remote_results b = [] \<longrightarrow> bc_remote_results b' = [])"

lemma results_same [intro]:
  "\<lbrakk>bc_remote_version b' = bc_remote_version b; bc_remote_results b' = bc_remote_results b;
    bc_id_to_token b' = bc_id_to_token b; bc_next_query_id b' = bc_next_query_id b\<rbrakk> \<Longrightarrow> keeps_results b b'"
  by (simp add: keeps_results_def tracked_def latest_result_def)

lemma results_refl [simp]: "keeps_results b b"
  by (rule results_same) simp_all

lemma results_trans: "keeps_results a b \<Longrightarrow> keeps_results b c \<Longrightarrow> keeps_results a c"
  by (simp add: keeps_results_def)

lemma mirrors_keeps: "mirrors view b \<Longrightarrow> keeps_results b b' \<Longrightarrow> mirrors view b'"
  by (simp add: mirrors_def keeps_results_def)

lemma blank_keeps: "blank b \<Longrightarrow> keeps_results b b' \<Longrightarrow> blank b'"
  by (simp add: blank_def keeps_results_def)

lemma blank_mirrors: "blank b \<Longrightarrow> view initial_state_version = (\<lambda>_. None) \<Longrightarrow> mirrors view b"
  by (simp add: blank_def mirrors_def latest_result_def)

lemma restart_blank: "blank (fst (restart tok b))"
  by (simp add: blank_def restart_eq)

lemma results_subscribe:
  assumes ok: "queries_ok b" and free: "subscribe_ok b"
  shows "keeps_results b (fst (subscribe L p args b))"
proof (cases "serialize_args L args")
  case (Inl e)
  then show ?thesis by (simp add: subscribe_def)
next
  case ser: (Inr a)
  show ?thesis
  proof (cases "map_of (bc_query_set b) (query_token (canonicalize_udf_path p) a)")
    case None
    let ?n = "bc_next_query_id b"
    have later: "?n \<le> i" if "?n + 1 \<le> i" for i
      using that less_plus_one [OF subscribe_okD(1) [OF free], of i] by (metis not_le less_imp_le)
    have "keeps_results b (new_query (canonicalize_udf_path p) a b)"
      by (auto simp: keeps_results_def tracked_def latest_result_def new_query_def later split: if_splits)
    then show ?thesis
      by (rule results_trans) (auto simp: subscribe_Inr [OF ser] subscribe_query_new [OF ok None] push_outgoing_def)
  next
    case (Some q)
    then show ?thesis by (simp add: subscribe_Inr [OF ser] subscribe_query_old results_same)
  qed
qed

lemma results_unsubscribe:
  assumes ok: "queries_ok b"
  shows "keeps_results b (unsubscribe sid b)"
proof (cases "map_of (bc_id_to_token b) (si_query sid)")
  case None
  then show ?thesis by (simp add: unsubscribe_unknown)
next
  case (Some tok)
  then obtain q where q: "map_of (bc_query_set b) tok = Some q" using queries_okD(8) [OF ok] by blast
  show ?thesis
  proof (cases "lq_num_subscribers q = 1")
    case True
    have "si_query sid < bc_next_query_id b" by (rule queries_okD(7) [OF ok Some])
    then have "keeps_results b (drop_query (si_query sid) tok b)"
      by (auto simp: keeps_results_def tracked_def latest_result_def drop_query_def)
    then show ?thesis
      by (rule results_trans) (auto simp: unsubscribe_last [OF Some q True] push_outgoing_def)
  next
    case False
    then show ?thesis by (auto simp: unsubscribe_shared [OF Some q False])
  qed
qed

lemma results_request: "keeps_results b (fst (enqueue_request k mk L p args b))"
  by (auto simp: enqueue_request_def Let_def push_outgoing_def split: sum.split)

lemma results_set_auth: "keeps_results b (set_auth tok b)"
  by (auto simp: set_auth_def push_outgoing_def)

lemma results_connect: "keeps_results b (fst (make_connect_message reason ts b))"
  by (auto simp: make_connect_message_def)

text \<open>A message of the server: a transition advances the view, the others keep the results.\<close>

lemma fold_latest:
  "latest_result (advance t b) i =
     fold (\<lambda>m r. if sm_id m = i then sm_result m else r) (tr_modifications t) (latest_result b i)"
  by (simp add: advance_def latest_result_def map_of_fold_result)

lemma mirrors_advance:
  assumes "mirrors view b" "faithful view t" "tr_start_version t = bc_remote_version b"
  shows "mirrors view (advance t b)"
proof -
  have "tracked (advance t b) i = tracked b i" for i by (simp add: tracked_def advance_def)
  moreover have "bc_remote_version (advance t b) = tr_end_version t" by (simp add: advance_def)
  ultimately show ?thesis
    using assms by (simp add: mirrors_def fold_latest faithful_def)
qed

lemma receive_keeps:
  assumes "receive_message m b = Inr (b', out)" and "\<And>t. m \<noteq> SV_transition t"
  shows "keeps_results b b'"
  using receive_frame [OF assms] by auto

lemma receive_mirrors:
  assumes inv: "bc_inv b" and m: "mirrors view b" and r: "receive_message msg b = Inr (b', out)"
    and server: "\<And>t. msg = SV_transition t \<Longrightarrow> faithful view t"
  shows "mirrors view b'"
proof (cases "\<exists>t. msg = SV_transition t")
  case True
  then obtain t where t: "msg = SV_transition t" by blast
  show ?thesis
  proof (cases "tr_start_version t = bc_remote_version b")
    case True
    then have "b' = advance t b" using r handle_transition_eq [OF inv True] by (simp add: t)
    then show ?thesis using mirrors_advance [OF m server [OF t] True] by simp
  next
    case False
    then show ?thesis using r m by (simp add: t handle_transition_def)
  qed
next
  case False
  then show ?thesis using mirrors_keeps [OF m receive_keeps [OF r]] by blast
qed

subsection \<open>The realtime client\<close>

text \<open>
  A connection starts at version zero, without results. A run is honest when every transition
  that is handed to the state machine is faithful to the view of the generation it came on.
\<close>

definition starts_empty :: "(64 word \<Rightarrow> view) \<Rightarrow> bool" where
  "starts_empty V \<longleftrightarrow> (\<forall>gen. V gen initial_state_version = (\<lambda>_. None))"

definition server_honest ::
  "json_lib \<Rightarrow> (64 word \<Rightarrow> view) \<Rightarrow> client_options \<Rightarrow> string \<Rightarrow> time \<Rightarrow> client_op list \<Rightarrow> bool"
where
  "server_honest L V opts sid now ops \<longleftrightarrow> starts_empty V
     \<and> (case new_client opts sid now of
          Inl e \<Rightarrow> False
        | Inr s \<Rightarrow> run_lawful (\<lambda>gen. faithful (V gen)) (\<lambda>_. True) (\<lambda>_ _. True) L s ops)"

definition snapshot_inv :: "(64 word \<Rightarrow> view) \<Rightarrow> 64 word \<Rightarrow> bool \<Rightarrow> base_client \<Rightarrow> subs_table \<Rightarrow> bool" where
  "snapshot_inv V gen scheduled b m \<longleftrightarrow> starts_empty V \<and> mirrors (V gen) b \<and> (scheduled \<longrightarrow> blank b)"

lemma snapshot_inv_keeps: "snapshot_inv V g c b m \<Longrightarrow> keeps_results b b' \<Longrightarrow> snapshot_inv V g c b' m'"
  using mirrors_keeps [of "V g" b b'] blank_keeps [of b b'] by (auto simp: snapshot_inv_def)

lemma snapshot_inv_blank: "starts_empty V \<Longrightarrow> blank b \<Longrightarrow> snapshot_inv V g c b m"
  by (simp add: snapshot_inv_def blank_mirrors starts_empty_def)

interpretation sn: carried "snapshot_inv V" "\<lambda>gen. faithful (V gen)" "\<lambda>_. True" "\<lambda>_ _. True" for V
proof
  fix g c b m
  assume s: "snapshot_inv V g c b m"
  show "snapshot_inv V g c (b\<lparr>bc_outgoing := q\<rparr>) m" for q by (rule snapshot_inv_keeps [OF s]) auto
  show "snapshot_inv V g c (fst (make_connect_message reason ts b)) m" for reason ts
    by (rule snapshot_inv_keeps [OF s results_connect])
  show "snapshot_inv V g c (set_auth tok b) m" for tok by (rule snapshot_inv_keeps [OF s results_set_auth])
  show "snapshot_inv V g c (fst (enqueue_request k mk L p args b)) m" for k mk L p args
    by (rule snapshot_inv_keeps [OF s results_request])
  show "snapshot_inv V g' True (fst (restart tok' b)) m" for g' tok'
    by (rule snapshot_inv_blank [OF _ restart_blank]) (use s in \<open>simp add: snapshot_inv_def\<close>)
  show "snapshot_inv V g c b' (add_entry sid cb m)"
    if "bc_inv b" "subscribe_ok b" "subscribe L p args b = (b', Inr sid)" for L p args b' sid cb
    using snapshot_inv_keeps [OF s results_subscribe [of b L p args]] that by (simp add: bc_inv_def)
  show "snapshot_inv V g c (unsubscribe sid b) (drop_entry sid m)" if "bc_inv b" for sid
    by (rule snapshot_inv_keeps [OF s results_unsubscribe]) (use that in \<open>simp add: bc_inv_def\<close>)
next
  fix g b m msg b' out
  assume "snapshot_inv V g False b m" "bc_inv b" "receive_message msg b = Inr (b', out)"
    and "\<And>tr. msg = SV_transition tr \<Longrightarrow> faithful (V g) tr"
  then show "snapshot_inv V g False b' m" using receive_mirrors [of b "V g" msg b' out] by (simp add: snapshot_inv_def)
next
  fix g b m g'
  assume "snapshot_inv V g True b m"
  then show "snapshot_inv V g' False b m" by (intro snapshot_inv_blank) (simp_all add: snapshot_inv_def)
qed

lemma wanted_tracked: "wanted b i \<noteq> None \<Longrightarrow> tracked b i"
  by (auto simp: wanted_def tracked_def split: option.splits)

text \<open>
  \<open>C2\<close>: The subscribers see the state of the server, at one version. Take any run of the client, in any
  interleaving and over any number of connections, whose transitions are faithful to what the
  server holds on the connection they come on, in whatever order and however often they arrive.
  While the client runs, the latest result it has for a subscribed query, which is what a
  transition reports to the subscribers and what a new subscriber is given at once, is the result the server
  has for that query on the current connection at the version the client is at: the same version for
  all queries, and none before the first transition of a connection.
\<close>

theorem consistent_snapshot:
  assumes "client_runs L opts sid now ops" and "server_honest L V opts sid now ops"
  defines "s \<equiv> client_run L opts sid now ops"
  assumes "\<not> cl_stopping s" and "wanted (cl_base s) i \<noteq> None"
  shows "latest_result (cl_base s) i = V (cl_conn_gen s) (bc_remote_version (cl_base s)) i
    \<and> (cl_state s = Disconnected \<longrightarrow> latest_result (cl_base s) i = None)"
proof -
  have zero: "starts_empty V" using assms(2) by (simp add: server_honest_def)
  have "snapshot_inv V 0 True (new_base_client sid) []"
    by (rule snapshot_inv_blank [OF zero]) (simp add: blank_def new_base_client_def)
  from sn.client_run [OF assms(1) this] have "carries (snapshot_inv V) s"
    using assms(2) by (simp add: server_honest_def s_def)
  then have m: "mirrors (V (cl_conn_gen s)) (cl_base s)" "cl_reconnect_scheduled s \<longrightarrow> blank (cl_base s)"
    using assms(4) by (simp_all add: carries_def snapshot_inv_def)
  have "cl_reconnect_scheduled s" if "cl_state s = Disconnected"
    using client_invD(1) [OF client_run_inv [OF assms(1)], folded s_def] assms(4) that
    by (auto simp: conn_ok_def)
  then show ?thesis
    using m wanted_tracked [OF assms(5)] by (auto simp: mirrors_def blank_def latest_result_def)
qed

text \<open>The sample server: one query, which has a result from timestamp 9 on.\<close>

definition sample_view :: "64 word \<Rightarrow> view" where
  "sample_view gen v i =
     (if v = \<lparr>sv_query_set = 1, sv_identity = 0, sv_ts = 9\<rparr> \<and> i = 0 then Some (FR_success VNull) else None)"

lemma sample_honest: "server_honest sample_lib sample_view sample_opts ''s'' 0 sample_synced"
proof -
  let ?v = "\<lparr>sv_query_set = 1, sv_identity = 0, sv_ts = 9\<rparr> :: state_version"
  let ?tr = "\<lparr>tr_start_version = initial_state_version, tr_end_version = ?v,
     tr_modifications = [SM_updated \<lparr>qu_id = 0, qu_result = VNull, qu_log_lines = [''hello''], qu_journal = None\<rparr>]\<rparr>"
  have "?v \<noteq> initial_state_version" by (simp add: initial_state_version_def)
  then have view: "starts_empty sample_view" "faithful (sample_view gen) ?tr" for gen
    by (auto simp: starts_empty_def sample_view_def faithful_def fun_eq_iff)
  have "decode_server_message sample_lib ''moved'' = Inr (SV_transition ?tr)" by code_simp
  then have moved: "handed sample_lib s ''moved'' = Some ?tr" for s by (simp add: handed_def)
  have "case decode_server_message sample_lib ''mutated'' of Inr (SV_mutation_response r) \<Rightarrow> True | _ \<Rightarrow> False"
    by code_simp
  then have mutated: "handed sample_lib s ''mutated'' = None" for s
    by (auto simp: handed_def split: sum.splits server_message.splits)
  obtain s where "new_client sample_opts ''s'' 0 = Inr s"
    using sample_prefixes(2) by (auto simp: client_runs_def split: sum.splits)
  then show ?thesis
    by (simp add: server_honest_def view sample_synced_def sample_open_def moved mutated)
qed

lemma consistent_snapshot_witness:
  "latest_result (cl_base (client_run sample_lib sample_opts ''s'' 0 sample_synced)) 0 = Some (FR_success VNull)"
proof -
  let ?s = "client_run sample_lib sample_opts ''s'' 0 sample_synced"
  have facts: "let s = ?s in \<not> cl_stopping s \<and> wanted (cl_base s) 0 = Some (''messages:list'', ''[{}]'')
      \<and> bc_remote_version (cl_base s) = \<lparr>sv_query_set = 1, sv_identity = 0, sv_ts = 9\<rparr>"
    by code_simp
  then show ?thesis
    using consistent_snapshot [OF sample_prefixes(2) sample_honest, of 0] by (simp add: Let_def sample_view_def)
qed

end
