(* ===== verification/Subscribers.thy ===== *)
theory Subscribers
  imports ClientCarried SessionProps
begin

section \<open>The table of subscribers and the query set\<close>

text \<open>
  The client keeps the callbacks of the subscribers (\<open>subs\<close>), its state machine counts them
  (\<open>num_subscribers\<close>) and tells the server. The two agree on every run, provided that a
  subscription is dropped once, as its handle does: an \<open>unsubscribe\<close> is for a subscriber that is in
  the table.
\<close>

definition refcount :: "base_client \<Rightarrow> query_id \<Rightarrow> nat option" where
  "refcount b i = (case map_of (bc_id_to_token b) i of
     None \<Rightarrow> None
   | Some tok \<Rightarrow> map_option (\<lambda>q. unat (lq_num_subscribers q)) (map_of (bc_query_set b) tok))"

definition index_free :: "base_client \<Rightarrow> bool" where
  "index_free b \<longleftrightarrow> bc_next_subscription_index b + 1 \<noteq> 0"

definition in_table :: "subscriber_id \<Rightarrow> subs_table \<Rightarrow> bool" where
  "in_table sid m \<longleftrightarrow> (case map_of m (si_query sid) of
     None \<Rightarrow> False | Some es \<Rightarrow> list_ex (\<lambda>e. se_index e = si_index sid) es)"

definition subs_inv :: "64 word \<Rightarrow> bool \<Rightarrow> base_client \<Rightarrow> subs_table \<Rightarrow> bool" where
  "subs_inv gen scheduled b m \<longleftrightarrow> (\<forall>i. refcount b i = map_option length (map_of m i))
     \<and> (\<forall>i es. map_of m i = Some es \<longrightarrow> distinct (map se_index es)
          \<and> (\<forall>e \<in> set es. se_index e < bc_next_subscription_index b))"

lemma subs_inv_cong:
  assumes "subs_inv g c b m" "refcount b' = refcount b" "bc_next_subscription_index b' = bc_next_subscription_index b"
  shows "subs_inv g' c' b' m"
  using assms by (simp add: subs_inv_def)

lemma refcount_cong:
  assumes "bc_id_to_token b' = bc_id_to_token b"
    and "\<And>tok. map_option lq_num_subscribers (map_of (bc_query_set b') tok) =
      map_option lq_num_subscribers (map_of (bc_query_set b) tok)"
  shows "refcount b' = refcount b"
proof
  fix i
  have "map_option (\<lambda>q. unat (lq_num_subscribers q)) (map_of (bc_query_set b') tok) =
      map_option (\<lambda>q. unat (lq_num_subscribers q)) (map_of (bc_query_set b) tok)" for tok
    using arg_cong [OF assms(2) [of tok], of "map_option unat"] by (simp add: option.map_comp comp_def)
  then show "refcount b' i = refcount b i" by (simp add: refcount_def assms(1) split: option.split)
qed

lemma refcount_same:
  "bc_id_to_token b' = bc_id_to_token b \<Longrightarrow> bc_query_set b' = bc_query_set b \<Longrightarrow> refcount b' = refcount b"
  by (rule refcount_cong) simp_all

text \<open>A message of the server changes neither the counts nor the indices.\<close>

lemma journal_subscribers:
  "map_option lq_num_subscribers (map_of (fold apply_journal ms qs) tok) = map_option lq_num_subscribers (map_of qs tok)"
proof (induction ms arbitrary: qs)
  case (Cons m ms)
  have "map_option lq_num_subscribers (map_of (apply_journal m qs) tok) = map_option lq_num_subscribers (map_of qs tok)"
    by (cases "map_of qs tok") (simp_all add: apply_journal_def map_of_put_journal split: option.split)
  then show ?case using Cons by simp
qed simp

lemma observe_same:
  "bc_id_to_token (observe_timestamp ts b) = bc_id_to_token b"
  "bc_query_set (observe_timestamp ts b) = bc_query_set b"
  "bc_next_subscription_index (observe_timestamp ts b) = bc_next_subscription_index b"
proof -
  obtain t where t: "observe_timestamp ts b = b\<lparr>bc_max_observed_timestamp := t\<rparr>" using observe_frame by blast
  show "bc_id_to_token (observe_timestamp ts b) = bc_id_to_token b"
    "bc_query_set (observe_timestamp ts b) = bc_query_set b"
    "bc_next_subscription_index (observe_timestamp ts b) = bc_next_subscription_index b"
    unfolding t by simp_all
qed

lemma receive_subs:
  assumes inv: "bc_inv b" and r: "receive_message msg b = Inr (b', out)"
  shows "refcount b' = refcount b \<and> bc_next_subscription_index b' = bc_next_subscription_index b"
proof (cases "\<exists>t. msg = SV_transition t")
  case True
  then obtain t where t: "msg = SV_transition t" by blast
  have eq: "refcount (advance t b) = refcount b"
    by (rule refcount_cong) (simp_all add: advance_def observe_same journal_subscribers)
  have "bc_next_subscription_index (advance t b) = bc_next_subscription_index b"
    by (simp add: advance_def observe_same)
  moreover have "b' = advance t b \<or> b' = b"
  proof (cases "tr_start_version t = bc_remote_version b")
    case True
    then show ?thesis using r handle_transition_eq [OF inv True] by (simp add: t)
  next
    case False
    then show ?thesis using r by (simp add: t handle_transition_def)
  qed
  ultimately show ?thesis using eq by auto
next
  case False
  then obtain q t where b': "b' = b\<lparr>bc_max_observed_timestamp := t, bc_ongoing_requests := q\<rparr>"
    using receive_frame [OF r] by blast
  have "refcount b' = refcount b" by (rule refcount_same) (simp_all add: b')
  then show ?thesis by (simp add: b')
qed

text \<open>A subscription counts one more, its end one less.\<close>

lemma refcount_token:
  assumes "queries_ok b" "map_of (bc_query_set b) tok = Some q"
  shows "refcount b (lq_id q) = Some (unat (lq_num_subscribers q))"
  using assms by (simp add: refcount_def queries_okD(4))

lemma refcount_update:
  assumes ok: "queries_ok b" and q: "map_of (bc_query_set b) tok = Some q"
  shows "refcount (b\<lparr>bc_query_set := om_insert tok (q\<lparr>lq_num_subscribers := n\<rparr>) (bc_query_set b)\<rparr>) =
    (refcount b)(lq_id q \<mapsto> unat n)"
proof
  fix i
  have "tok' = tok \<longleftrightarrow> i = lq_id q" if "map_of (bc_id_to_token b) i = Some tok'" for tok'
    using queries_okD(4) [OF ok q] queries_okD(8) [OF ok that] q that by auto
  then show "refcount (b\<lparr>bc_query_set := om_insert tok (q\<lparr>lq_num_subscribers := n\<rparr>) (bc_query_set b)\<rparr>) i =
    ((refcount b)(lq_id q \<mapsto> unat n)) i"
    using queries_okD(4) [OF ok q] by (auto simp: refcount_def split: option.split)
qed

lemma refcount_new:
  assumes ok: "queries_ok b" and new: "map_of (bc_query_set b) (query_token p a) = None"
  shows "refcount (new_query p a b) = (refcount b)(bc_next_query_id b \<mapsto> 1)"
proof
  fix i
  have "tok \<noteq> query_token p a" if "map_of (bc_id_to_token b) i = Some tok" for tok
    using queries_okD(8) [OF ok that] new by auto
  then show "refcount (new_query p a b) i = ((refcount b)(bc_next_query_id b \<mapsto> 1)) i"
    by (auto simp: refcount_def new_query_def split: option.split)
qed

lemma refcount_drop:
  assumes ok: "queries_ok b" and tok: "map_of (bc_id_to_token b) i = Some tok"
  shows "refcount (drop_query i tok b) = (refcount b)(i := None)"
proof
  fix j
  have "tok' \<noteq> tok" if "map_of (bc_id_to_token b) j = Some tok'" "j \<noteq> i" for tok'
    using queries_okD(8) [OF ok that(1)] queries_okD(8) [OF ok tok] that(2) by auto
  then show "refcount (drop_query i tok b) j = ((refcount b)(i := None)) j"
    by (auto simp: refcount_def drop_query_def split: option.split)
qed

definition one_more :: "nat option \<Rightarrow> nat" where
  "one_more n = (case n of None \<Rightarrow> 1 | Some k \<Rightarrow> Suc k)"

lemma subscribe_counts:
  assumes ok: "queries_ok b" and free: "subscribe_ok b" and sub: "subscribe L p args b = (b', Inr sid)"
  shows "refcount b' = (refcount b)(si_query sid \<mapsto> one_more (refcount b (si_query sid)))
    \<and> si_index sid = bc_next_subscription_index b \<and> bc_next_subscription_index b' = bc_next_subscription_index b + 1"
proof -
  obtain a where a: "serialize_args L args = Inr a"
    using sub by (auto simp: subscribe_def split: sum.splits)
  let ?p = "canonicalize_udf_path p"
  have r: "subscribe_query ?p a b = (b', sid)" using sub by (simp add: subscribe_Inr [OF a] prod_eq_iff)
  show ?thesis
  proof (cases "map_of (bc_query_set b) (query_token ?p a)")
    case None
    have "refcount b (bc_next_query_id b) = None" using fresh_query_id [OF ok] by (simp add: refcount_def)
    moreover have "refcount b' = refcount (new_query ?p a b)" using r
      by (auto simp: subscribe_query_new [OF ok None] intro!: refcount_same)
    ultimately show ?thesis
      using r refcount_new [OF ok None]
      by (auto simp: subscribe_query_new [OF ok None] one_more_def new_query_def)
  next
    case (Some q)
    let ?n = "lq_num_subscribers q + 1"
    have n: "unat ?n = Suc (unat (lq_num_subscribers q))" by (rule unat_plus_one [OF subscribe_okD(2) [OF free Some]])
    have "refcount b' = refcount (b\<lparr>bc_query_set := om_insert (query_token ?p a) (q\<lparr>lq_num_subscribers := ?n\<rparr>) (bc_query_set b)\<rparr>)"
      using r by (auto simp: subscribe_query_old [OF Some] intro!: refcount_same)
    then show ?thesis
      using r refcount_update [OF ok Some, of ?n] n refcount_token [OF ok Some]
      by (auto simp: subscribe_query_old [OF Some] one_more_def)
  qed
qed

lemma unsubscribe_counts:
  assumes ok: "queries_ok b" and n: "refcount b (si_query sid) = Some (Suc n)"
  shows "refcount (unsubscribe sid b) = (refcount b)(si_query sid := if n = 0 then None else Some n)
    \<and> bc_next_subscription_index (unsubscribe sid b) = bc_next_subscription_index b"
proof -
  obtain tok where tok: "map_of (bc_id_to_token b) (si_query sid) = Some tok"
    using n by (auto simp: refcount_def split: option.splits)
  obtain q where q: "map_of (bc_query_set b) tok = Some q" "lq_id q = si_query sid"
    using queries_okD(8) [OF ok tok] by blast
  have count: "unat (lq_num_subscribers q) = Suc n" using n refcount_token [OF ok q(1)] q(2) by simp
  show ?thesis
  proof (cases "lq_num_subscribers q = 1")
    case True
    have "refcount (unsubscribe sid b) = refcount (drop_query (si_query sid) tok b)"
      by (rule refcount_same) (simp_all add: unsubscribe_last [OF tok q(1) True])
    then show ?thesis
      using count True refcount_drop [OF ok tok] by (simp add: unsubscribe_last [OF tok q(1) True] drop_query_def)
  next
    case False
    have "n \<noteq> 0" using count False by (auto simp: word_unat_eq_iff)
    moreover have "unat (lq_num_subscribers q - 1) = n"
      using count unat_minus_one [of "lq_num_subscribers q"] by fastforce
    ultimately show ?thesis
      using refcount_update [OF ok q(1), of "lq_num_subscribers q - 1"] q(2)
      by (simp add: unsubscribe_shared [OF tok q(1) False])
  qed
qed

lemma length_filter_index:
  assumes "distinct (map f es)" "list_ex (\<lambda>e. f e = k) es"
  shows "length es = Suc (length (filter (\<lambda>e. f e \<noteq> k) es))"
  using assms
proof (induction es)
  case (Cons e es)
  show ?case
  proof (cases "f e = k")
    case True
    then have "\<forall>x \<in> set es. f x \<noteq> k" using Cons.prems(1) by (metis distinct.simps(2) image_eqI list.simps(9) list.set_map)
    then have "filter (\<lambda>e. f e \<noteq> k) es = es" by (simp add: filter_id_conv)
    then show ?thesis using True by simp
  qed (use Cons in simp)
qed simp

subsection \<open>The laws, and every run\<close>

lemma wanted_counted: "wanted b i = None \<longleftrightarrow> refcount b i = None"
  by (simp add: wanted_def refcount_def split: option.split)

lemma subs_inv_add:
  assumes inv: "subs_inv g c b m" and b: "bc_inv b" "subscribe_ok b" and free: "index_free b"
    and sub: "subscribe L p args b = (b', Inr sid)"
  shows "subs_inv g c b' (add_entry sid cb m)"
proof -
  let ?n = "bc_next_subscription_index b" and ?i = "si_query sid"
  note counts = subscribe_counts [OF _ b(2) sub]
  have ok: "queries_ok b" using b(1) by (simp add: bc_inv_def)
  define es where "es = (case map_of m ?i of None \<Rightarrow> [] | Some es \<Rightarrow> es)"
  have count: "refcount b i = map_option length (map_of m i)" for i using inv by (simp add: subs_inv_def)
  have "one_more (refcount b ?i) = length (es @ [\<lparr>se_index = ?n, se_cb = cb\<rparr>])"
    by (simp add: count one_more_def es_def split: option.split)
  then have length: "refcount b' i = map_option length (map_of (add_entry sid cb m) i)" for i
    using counts [OF ok] count by (simp add: add_entry_def es_def [symmetric])
  have old: "distinct (map se_index es')" "\<forall>e \<in> set es'. se_index e < ?n" if "map_of m i = Some es'" for i es'
    using inv that by (simp_all add: subs_inv_def)
  have es: "distinct (map se_index es)" "\<forall>e \<in> set es. se_index e < ?n"
    using old [of ?i] by (cases "map_of m ?i"; simp add: es_def)+
  have below: "e < ?n + 1" if "e < ?n \<or> e = ?n" for e
    using that free by (auto simp: index_free_def less_plus_one intro: less_imp_le)
  have "distinct (map se_index es') \<and> (\<forall>e \<in> set es'. se_index e < ?n + 1)"
    if es': "map_of (add_entry sid cb m) i = Some es'" for i es'
  proof (cases "i = ?i")
    case True
    then have "es' = es @ [\<lparr>se_index = ?n, se_cb = cb\<rparr>]"
      using es' counts [OF ok] by (simp add: add_entry_def es_def [symmetric])
    then show ?thesis using es below by auto
  next
    case False
    then have "map_of m i = Some es'" using es' by (simp add: add_entry_def)
    from old [OF this] show ?thesis using below by blast
  qed
  then show ?thesis using length counts [OF ok] by (simp add: subs_inv_def)
qed

lemma subs_inv_remove:
  assumes inv: "subs_inv g c b m" and b: "bc_inv b" and entry: "in_table sid m"
  shows "subs_inv g c (unsubscribe sid b) (drop_entry sid m)"
proof -
  let ?i = "si_query sid" and ?keep = "filter (\<lambda>e. se_index e \<noteq> si_index sid)"
  have ok: "queries_ok b" using b by (simp add: bc_inv_def)
  obtain es where es: "map_of m ?i = Some es" "list_ex (\<lambda>e. se_index e = si_index sid) es"
    using entry by (auto simp: in_table_def split: option.splits)
  have old: "distinct (map se_index es')" "\<forall>e \<in> set es'. se_index e < bc_next_subscription_index b"
    if "map_of m i = Some es'" for i es'
    using inv that by (simp_all add: subs_inv_def)
  have count: "refcount b i = map_option length (map_of m i)" for i using inv by (simp add: subs_inv_def)
  have n: "length es = Suc (length (?keep es))"
    by (rule length_filter_index [OF old(1) [OF es(1)] es(2)])
  have counts: "refcount (unsubscribe sid b) =
      (refcount b)(?i := if length (?keep es) = 0 then None else Some (length (?keep es)))"
    "bc_next_subscription_index (unsubscribe sid b) = bc_next_subscription_index b"
    using unsubscribe_counts [OF ok, of sid "length (?keep es)"] count [of ?i] es(1) n by simp_all
  have table: "map_of (drop_entry sid m) = (map_of m)(?i := if ?keep es = [] then None else Some (?keep es))"
    using es(1) by (simp add: drop_entry_def Let_def)
  have "refcount (unsubscribe sid b) i = map_option length (map_of (drop_entry sid m) i)" for i
    using count [of i] unfolding counts(1) table by simp
  moreover have "distinct (map se_index es') \<and> (\<forall>e \<in> set es'. se_index e < bc_next_subscription_index b)"
    if "map_of (drop_entry sid m) i = Some es'" for i es'
    using that old [OF es(1)] old [of i es'] unfolding table
    by (auto simp: distinct_map_filter split: if_splits)
  ultimately show ?thesis by (simp add: subs_inv_def counts(2))
qed

interpretation sb: carried subs_inv "\<lambda>_ _. True" index_free in_table
proof
  fix g c b m
  assume s: "subs_inv g c b m"
  show "subs_inv g c (b\<lparr>bc_outgoing := q\<rparr>) m" for q
    by (rule subs_inv_cong [OF s refcount_same]) simp_all
  show "subs_inv g c (fst (make_connect_message reason ts b)) m" for reason ts
    by (rule subs_inv_cong [OF s refcount_same]) (simp_all add: make_connect_message_def)
  show "subs_inv g c (set_auth tok b) m" for tok
    by (rule subs_inv_cong [OF s refcount_same]) (simp_all add: set_auth_def)
  show "subs_inv g c (fst (enqueue_request k mk L p args b)) m" for k mk L p args
    by (rule subs_inv_cong [OF s refcount_same]) (simp_all add: enqueue_request_def Let_def split: sum.split)
  show "subs_inv g' True (fst (restart tok' b)) m" for g' tok'
    by (rule subs_inv_cong [OF s refcount_same]) (simp_all add: restart_eq)
qed (auto intro: subs_inv_add subs_inv_remove subs_inv_cong dest: receive_subs)

text \<open>The runs in which every subscription ends at most once and the numbers of the subscriptions do not run out.\<close>

definition subscribes_properly :: "json_lib \<Rightarrow> client_options \<Rightarrow> string \<Rightarrow> time \<Rightarrow> client_op list \<Rightarrow> bool" where
  "subscribes_properly L opts sid now ops =
     (case new_client opts sid now of
        Inl e \<Rightarrow> False
      | Inr s \<Rightarrow> run_lawful (\<lambda>_ _. True) index_free in_table L s ops)"

text \<open>
  \<open>C3\<close>: The callbacks of the client and the query set of its state machine agree. Take any run of the
  client, in any interleaving and over any number of connections, in which a subscription ends at most once.
  While the client runs, a query is wanted from the server exactly if there are
  callbacks for it, its count of subscribers is the number of its callbacks, and no two of them have
  the same index. So a query with a callback is not given up, and one without does not leak.
\<close>

theorem subscribers_in_step:
  assumes "client_runs L opts sid now ops" and "subscribes_properly L opts sid now ops"
  defines "s \<equiv> client_run L opts sid now ops"
  assumes "\<not> cl_stopping s"
  shows "(wanted (cl_base s) i = None \<longleftrightarrow> map_of (cl_subs s) i = None)
    \<and> refcount (cl_base s) i = map_option length (map_of (cl_subs s) i)
    \<and> (case map_of (cl_subs s) i of None \<Rightarrow> True | Some es \<Rightarrow> es \<noteq> [] \<and> distinct (map se_index es))"
proof -
  have "subs_inv 0 True (new_base_client sid) []"
    by (simp add: subs_inv_def refcount_def new_base_client_def)
  from sb.client_run [OF assms(1) this] have "carries subs_inv s"
    using assms(2) by (simp add: subscribes_properly_def s_def)
  then have inv: "refcount (cl_base s) i = map_option length (map_of (cl_subs s) i)"
    "\<And>es. map_of (cl_subs s) i = Some es \<Longrightarrow> distinct (map se_index es)"
    using assms(4) by (simp_all add: carries_def subs_inv_def)
  have "queries_ok (cl_base s)"
    using client_invD(4) [OF client_run_inv [OF assms(1)]] by (simp add: s_def bc_inv_def)
  then have "refcount (cl_base s) i \<noteq> Some 0"
    using queries_okD(6,8) by (fastforce simp: refcount_def unat_eq_0 split: option.splits)
  then show ?thesis using inv by (auto simp: wanted_counted split: option.split)
qed

text \<open>Three subscriptions to the same query and to another one, two of which end.\<close>

definition sample_shared :: "client_op list" where
  "sample_shared = [Do_subscribe ''messages:list'' [] 1, Do_subscribe ''messages'' [] 2,
     Do_subscribe ''messages:list'' [] 3, Do_unsubscribe (Subscriber_id 0 0), Do_unsubscribe (Subscriber_id 1 1)]"

lemma subscribers_in_step_witness:
  "refcount (cl_base (client_run sample_lib sample_opts ''s'' 0 sample_shared)) 0 = Some 1
   \<and> wanted (cl_base (client_run sample_lib sample_opts ''s'' 0 sample_shared)) 1 = None"
proof -
  let ?s = "client_run sample_lib sample_opts ''s'' 0 sample_shared"
  have runs: "client_runs sample_lib sample_opts ''s'' 0 sample_shared"
    "subscribes_properly sample_lib sample_opts ''s'' 0 sample_shared" by code_simp+
  have "let s = ?s in \<not> cl_stopping s \<and> cl_subs s = [(0, [\<lparr>se_index = 2, se_cb = 3\<rparr>])]" by code_simp
  then show ?thesis
    using subscribers_in_step [OF runs, of 0] subscribers_in_step [OF runs, of 1] by (simp add: Let_def)
qed

end
