(* ===== verification/ClientFacade.thy ===== *)
theory ClientFacade
  imports Client
begin

section \<open>Subscription handles and one-shot queries (\<open>client.h\<close>, the end of \<open>src/client.cpp\<close>)\<close>

text \<open>
  The move-only handle of a subscription and \<open>client::query\<close>, which subscribes, hands the first
  result to its callback and unsubscribes. A handle is the identifier of its subscriber while its
  \<open>impl_\<close> pointer is set. The overloads that return a \<open>std::future\<close> are in \<open>Futures\<close>.
\<close>

subsection \<open>Handles\<close>

type_synonym sub_handle = "subscriber_id option"

definition handle_unsubscribe :: "json_lib \<Rightarrow> sub_handle \<Rightarrow> client_state \<Rightarrow> sub_handle \<times> client_state \<times> exn option" where
  "handle_unsubscribe L h s =
     (case h of
        None \<Rightarrow> (None, s, None)
      | Some sid \<Rightarrow>
          (case do_unsubscribe L sid s of
             (s', Some e) \<Rightarrow> (h, s', Some e)
           | (s', None) \<Rightarrow> (None, s', None)))"

text \<open>Move assignment: what the handle held is unsubscribed, the other one is left empty.\<close>

definition handle_move_assign ::
  "json_lib \<Rightarrow> sub_handle \<Rightarrow> sub_handle \<Rightarrow> client_state \<Rightarrow> (sub_handle \<times> sub_handle) \<times> client_state \<times> exn option"
where
  "handle_move_assign L h other s =
     (case handle_unsubscribe L h s of
        (h', s', Some e) \<Rightarrow> ((h', other), s', Some e)
      | (_, s', None) \<Rightarrow> ((other, None), s', None))"

definition client_subscribe ::
  "json_lib \<Rightarrow> string \<Rightarrow> value_object \<Rightarrow> callback \<Rightarrow> client_state \<Rightarrow> client_state \<times> sub_handle result"
where
  "client_subscribe L path args cb s =
     (case do_subscribe L path args cb s of
        (s', Inl e) \<Rightarrow> (s', Inl e)
      | (s', Inr sid) \<Rightarrow> (s', Inr (Some sid)))"

text \<open>However often a handle is unsubscribed, moved from or destroyed, the client hears of it once.\<close>

lemma handle_once:
  assumes "handle_unsubscribe L h s = (h', s', None)"
  shows "h' = None \<and> handle_unsubscribe L h' t = (None, t, None)"
  using assms by (auto simp: handle_unsubscribe_def split: option.splits prod.splits)

subsection \<open>One-shot queries\<close>

record one_shot =
  os_holder :: sub_handle
  os_fired :: bool
  os_results :: "function_result list"    \<comment> \<open>what \<open>on_done\<close> got\<close>

definition one_shot_new :: one_shot where
  "one_shot_new = \<lparr>os_holder = None, os_fired = False, os_results = []\<rparr>"

text \<open>The callback, and the assignment of the handle that \<open>subscribe\<close> returned.\<close>

datatype one_shot_step = Os_result function_result | Os_assign subscriber_id

fun one_shot_do :: "json_lib \<Rightarrow> one_shot \<times> client_state \<Rightarrow> one_shot_step \<Rightarrow> one_shot \<times> client_state" where
  "one_shot_do L (q, s) (Os_result r) =
     (if os_fired q then (q, s)
      else (let q1 = q\<lparr>os_fired := True, os_results := os_results q @ [r]\<rparr> in
        case handle_unsubscribe L (os_holder q1) s of (h, s', _) \<Rightarrow> (q1\<lparr>os_holder := h\<rparr>, s')))"
| "one_shot_do L (q, s) (Os_assign sid) =
     (case handle_move_assign L (os_holder q) (Some sid) s of ((h, _), s', _) \<Rightarrow> (q\<lparr>os_holder := h\<rparr>, s'))"

lemma fired_ignores:
  "os_fired q \<Longrightarrow> run (one_shot_do L) (q, s) (map Os_result rs) = (q, s)"
  by (induction rs) simp_all

text \<open>
  The callback of a one-shot query runs once, with the first result. When the handle is assigned
  first, as in pumped mode, that result also releases the subscription, provided the client can
  still send. When the result is delivered inside \<open>subscribe\<close>, as in immediate mode for a query
  whose result is known, the handle is assigned after it and nothing releases it.
\<close>

theorem one_shot_query:
  "(do_unsubscribe L sid s = (s', None) \<longrightarrow>
      run (one_shot_do L) (one_shot_new, s) (Os_assign sid # map Os_result (r # rs))
        = (\<lparr>os_holder = None, os_fired = True, os_results = [r]\<rparr>, s'))
   \<and> run (one_shot_do L) (one_shot_new, s) (Os_result r # Os_assign sid # map Os_result rs)
        = (\<lparr>os_holder = Some sid, os_fired = True, os_results = [r]\<rparr>, s)"
  by (simp add: one_shot_new_def handle_move_assign_def handle_unsubscribe_def fired_ignores)

end
