(* ===== verification/ClientAnswers.thy ===== *)
theory ClientAnswers
  imports ClientSections
begin

section \<open>Where the results of requests come from\<close>

text \<open>
  A result that reaches the callback of a mutation or an action originates in a response of the server
  to that very request, or in a loss the request can suffer: the connection for an action, the
  client for both. \<open>traced\<close> follows one request, made with identifier \<open>rid\<close> and callback \<open>cb\<close>,
  through all the places its result can be; \<open>S\<close> are the results the server has sent for it.
  Beside that: what has been delivered stays delivered.
\<close>

subsection \<open>The responses a client gets\<close>

fun answer_to :: "request_id \<Rightarrow> server_message \<Rightarrow> function_result list" where
  "answer_to rid (SV_mutation_response m) = (if mr_id m = rid then [mr_result m] else [])"
| "answer_to rid (SV_action_response a) = (if ar_id a = rid then [ar_result a] else [])"
| "answer_to rid _ = []"

text \<open>In a step: a message the client takes, on its current connection.\<close>

fun step_answers :: "json_lib \<Rightarrow> request_id \<Rightarrow> client_state \<Rightarrow> client_op \<Rightarrow> function_result list" where
  "step_answers L rid s (Ws_message E gen t) =
     (if cl_stopping s \<or> gen \<noteq> cl_conn_gen s then []
      else (case decode_server_message L t of Inl e \<Rightarrow> [] | Inr m \<Rightarrow> answer_to rid m))"
| "step_answers L rid s _ = []"

fun answers :: "json_lib \<Rightarrow> request_id \<Rightarrow> client_state \<Rightarrow> client_op list \<Rightarrow> function_result list" where
  "answers L rid s [] = []"
| "answers L rid s (op # ops) = step_answers L rid s op @ answers L rid (client_step L s op) ops"

subsection \<open>The state machine\<close>

definition base_from :: "request_id \<Rightarrow> request_kind \<Rightarrow> function_result set \<Rightarrow> base_client \<Rightarrow> bool" where
  "base_from rid k S b \<longleftrightarrow> rid < bc_next_request_id b
     \<and> (\<forall>req. (rid, req) \<in> set (bc_ongoing_requests b) \<longrightarrow>
          pr_typ req = k \<and> (\<forall>r. pr_result req = Some r \<longrightarrow> r \<in> S))"

lemma base_from_cong:
  "\<lbrakk>base_from rid k S b; bc_next_request_id b' = bc_next_request_id b;
    set (bc_ongoing_requests b') \<subseteq> set (bc_ongoing_requests b)\<rbrakk> \<Longrightarrow> base_from rid k S b'"
  by (auto simp: base_from_def)

lemma base_from_mono: "base_from rid k S b \<Longrightarrow> S \<subseteq> S' \<Longrightarrow> base_from rid k S' b"
  by (auto simp: base_from_def)

lemma flush_requests_from:
  "flush_requests w m = Inr (ready, kept) \<Longrightarrow> set kept \<subseteq> set m
     \<and> (\<forall>i r. (i, r) \<in> set ready \<longrightarrow> (\<exists>req. (i, req) \<in> set m \<and> pr_result req = Some r))"
proof (induction w m arbitrary: ready kept rule: flush_requests.induct)
  case (2 w rid req rest)
  show ?case
  proof (cases "flushable w req")
    case True
    obtain r d where r: "pr_result req = Some r" "flush_requests w rest = Inr (d, kept)" "ready = (rid, r) # d"
      using 2(3) True by (auto simp: bindr_eq_Inr split: option.splits)
    show ?thesis using 2(1) [OF True r(1,2)] r(1,3) by simp blast
  next
    case False
    obtain k where k: "flush_requests w rest = Inr (ready, k)" "kept = (rid, req) # k"
      using 2(3) False by (auto simp: bindr_eq_Inr)
    show ?thesis using 2(2) [OF False k(1)] k(2) by simp blast
  qed
qed simp

lemma flush_completed_from:
  assumes "flush_completed w (b, out) = Inr (b', out')" and bf: "base_from rid k S b"
    and "rr_completed_requests out = []"
  shows "base_from rid k S b' \<and> (\<forall>r. (rid, r) \<in> set (rr_completed_requests out') \<longrightarrow> r \<in> S)"
proof -
  obtain d kept where f: "flush_requests w (bc_ongoing_requests b) = Inr (d, kept)"
    "b' = b\<lparr>bc_ongoing_requests := kept\<rparr>" "rr_completed_requests out' = d"
    using assms(1,3) by (auto simp: flush_completed_def bindr_eq_Inr)
  show ?thesis
    using flush_requests_from [OF f(1)] f(2,3) bf by (auto simp: base_from_def) blast
qed

lemma observe_requests [simp]:
  "bc_ongoing_requests (observe_timestamp ts b) = bc_ongoing_requests b"
  "bc_next_request_id (observe_timestamp ts b) = bc_next_request_id b"
  by (simp_all add: observe_timestamp_def split: option.split)

lemma push_log_completes [simp]: "rr_completed_requests (push_log src path ls out) = rr_completed_requests out"
  by (simp add: push_log_def)

lemma receive_from:
  assumes inv: "bc_inv b" and bf: "base_from rid k S b" and r: "receive_message m b = Inr (b', out)"
  shows "base_from rid k (S \<union> set (answer_to rid m)) b'
    \<and> (\<forall>x. (rid, x) \<in> set (rr_completed_requests out) \<longrightarrow> x \<in> S \<union> set (answer_to rid m))"
proof (cases m)
  case (SV_transition t)
  show ?thesis
  proof (cases "tr_start_version t = bc_remote_version b")
    case True
    have eq: "b' = advance t b" "rr_completed_requests out = flushed (sv_ts (tr_end_version t)) b"
      using r handle_transition_eq [OF inv True] by (auto simp: SV_transition no_receive_result_def)
    have "base_from rid k S (advance t b)" by (rule base_from_cong [OF bf]) (auto simp: advance_def)
    moreover have "x \<in> S" if "(rid, x) \<in> set (flushed (sv_ts (tr_end_version t)) b)" for x
    proof -
      obtain req where req: "(rid, req) \<in> set (bc_ongoing_requests b)" "flushable (sv_ts (tr_end_version t)) req"
        "x = the (pr_result req)" using \<open>(rid, x) \<in> _\<close> by (auto simp: flushed_def)
      have "pr_result req \<noteq> None" by (rule requests_result [OF _ req(1,2)]) (use inv in \<open>simp add: bc_inv_def\<close>)
      then show ?thesis using bf req by (auto simp: base_from_def)
    qed
    ultimately show ?thesis by (simp add: SV_transition eq)
  next
    case False
    then show ?thesis using r bf by (auto simp: SV_transition handle_transition_def no_receive_result_def)
  qed
next
  case (SV_mutation_response mr)
  let ?S = "S \<union> set (answer_to rid m)"
  have S: "base_from rid k ?S b" by (rule base_from_mono [OF bf]) simp
  show ?thesis
  proof (cases "map_of (bc_ongoing_requests b) (mr_id mr)")
    case None
    then show ?thesis using r S by (auto simp: SV_mutation_response handle_mutation_response_def no_receive_result_def)
  next
    case (Some req)
    let ?out = "push_log Source_mutation (mutation_path (pr_original_message req)) (mr_log_lines mr) no_receive_result"
    have out: "rr_completed_requests ?out = []" by (simp add: no_receive_result_def)
    show ?thesis
    proof (cases "fr_ok (mr_result mr) \<and> mr_ts mr \<noteq> None")
      case True
      then obtain ts where ts: "mr_ts mr = Some ts" by auto
      let ?held = "req\<lparr>pr_completed := True, pr_ts := Some ts, pr_result := Some (mr_result mr)\<rparr>"
      let ?b = "observe_timestamp ts (b\<lparr>bc_ongoing_requests := om_insert (mr_id mr) ?held (bc_ongoing_requests b)\<rparr>)"
      have "base_from rid k ?S ?b"
        using S map_of_SomeD [OF Some] set_om_insert_subset [of "mr_id mr" ?held "bc_ongoing_requests b"]
        by (fastforce simp: base_from_def SV_mutation_response)
      moreover have "flush_completed (sv_ts (bc_remote_version b)) (?b, ?out) = Inr (b', out)"
        using r True Some ts by (simp add: SV_mutation_response handle_mutation_response_def Let_def)
      ultimately show ?thesis using flush_completed_from out by blast
    next
      case False
      then have "(b', out) = complete_request (mr_id mr) (mr_result mr) (b, ?out)"
        using r Some by (auto simp: SV_mutation_response handle_mutation_response_def Let_def split: option.splits)
      then have "b' = b\<lparr>bc_ongoing_requests := om_erase (mr_id mr) (bc_ongoing_requests b)\<rparr>"
        "rr_completed_requests out = [(mr_id mr, mr_result mr)]"
        using out by (simp_all add: complete_request_def)
      then show ?thesis
        using S by (auto simp: SV_mutation_response set_om_erase base_from_def)
    qed
  qed
next
  case (SV_action_response a)
  have S: "base_from rid k (S \<union> set (answer_to rid m)) b" by (rule base_from_mono [OF bf]) simp
  show ?thesis
    using r S by (auto simp: SV_action_response handle_action_response_def complete_request_def
        no_receive_result_def set_om_erase base_from_def split: option.splits)
qed (use r bf in \<open>auto simp: no_receive_result_def\<close>)

lemma restart_from:
  assumes r: "restart tok b = (b', failed)" and bf: "base_from rid k S b"
  shows "base_from rid k S b' \<and> (\<forall>x. (rid, x) \<in> set failed \<longrightarrow> x = connection_lost \<and> k = RK_action)"
proof -
  have b': "b' = fst (restart tok b)" "failed = snd (restart tok b)" using r by simp_all
  have "base_from rid k S b'"
    by (rule base_from_cong [OF bf]) (auto simp: b' restart_eq surviving_def)
  moreover have "x = connection_lost \<and> k = RK_action" if "(rid, x) \<in> set failed" for x
    using that bf
    by (auto simp: b' restart_eq lost_actions_def action_lost_def connection_lost_def base_from_def)
  ultimately show ?thesis by blast
qed

lemma enqueue_from:
  assumes bf: "base_from rid k S b" and free: "request_id_free b"
  shows "base_from rid k S (fst (enqueue_request k' mk L p args b))"
proof -
  have free': "bc_next_request_id b + 1 \<noteq> 0" using free by (simp add: request_id_free_def)
  have rid: "rid < bc_next_request_id b + 1" "rid \<noteq> bc_next_request_id b"
    using bf by (auto simp: base_from_def less_plus_one [OF free'])
  show ?thesis
  proof (cases "serialize_args L args")
    case (Inl e)
    then show ?thesis using bf rid by (simp add: enqueue_request_throws base_from_def)
  next
    case (Inr a)
    have sub: "set (om_emplace (bc_next_request_id b) x m) \<subseteq> insert (bc_next_request_id b, x) (set m)" for x :: pending_request and m
      using set_om_insert_subset [of "bc_next_request_id b" x m] by (auto simp: om_emplace_def split: option.splits)
    show ?thesis
      using bf rid sub unfolding base_from_def
      by (auto simp: enqueue_request_def Let_def Inr push_outgoing_def dest!: subsetD [OF sub])
  qed
qed

subsection \<open>The sections of the client\<close>

definition all_events :: "client_state \<Rightarrow> event list" where
  "all_events s = concat (cl_in_flight s) @ cl_event_queue s @ worker_events (cl_worker s) @ cl_delivered s"

text \<open>What the callback may be called with.\<close>

definition may_get :: "request_kind \<Rightarrow> function_result set \<Rightarrow> client_state \<Rightarrow> function_result \<Rightarrow> bool" where
  "may_get k S s r \<longleftrightarrow> r \<in> S \<or> r = connection_lost \<and> k = RK_action \<or> r = shut_down_error \<and> cl_stopping s"

text \<open>\<open>out\<close> are the events a section has collected.\<close>

definition traced ::
  "request_id \<Rightarrow> request_kind \<Rightarrow> callback \<Rightarrow> function_result set \<Rightarrow> client_state \<Rightarrow> event list \<Rightarrow> bool"
where
  "traced rid k cb S s out \<longleftrightarrow> base_from rid k S (cl_base s)
     \<and> (\<forall>i. (i, cb) \<in> set (cl_pending s) \<longrightarrow> i = rid)
     \<and> (\<forall>r. Ev_result cb r \<in> set (all_events s) \<union> set out \<longrightarrow> may_get k S s r)"

lemma traced_mono: "traced rid k cb S s out \<Longrightarrow> S \<subseteq> S' \<Longrightarrow> traced rid k cb S' s out"
  by (auto simp: traced_def may_get_def intro: base_from_mono)

text \<open>The fields that matter, for a step that changes others.\<close>

lemma traced_cong:
  assumes "traced rid k cb S s out" "cl_pending s' = cl_pending s" "cl_stopping s' = cl_stopping s"
    and "bc_next_request_id (cl_base s') = bc_next_request_id (cl_base s)"
    and "set (bc_ongoing_requests (cl_base s')) \<subseteq> set (bc_ongoing_requests (cl_base s))"
    and "\<And>r. Ev_result cb r \<in> set (all_events s') \<union> set out' \<Longrightarrow> Ev_result cb r \<in> set (all_events s) \<union> set out"
  shows "traced rid k cb S s' out'"
proof -
  have may: "may_get k S s' = may_get k S s" by (simp add: may_get_def fun_eq_iff assms(3))
  have "base_from rid k S (cl_base s')" using assms(1,4,5) by (auto simp: traced_def intro: base_from_cong)
  then show ?thesis using assms(1,2,6) unfolding traced_def may by metis
qed

lemma all_events_frame [simp]:
  "all_events (notify_all s) = all_events s" "set (all_events (deliver out s)) = set (all_events s) \<union> set out"
  "set (all_events (deliver_later out s)) = set (all_events s) \<union> set out"
  "set (all_events (hand_over out s)) = set (all_events s) \<union> set out"
  by (auto simp: all_events_def notify_all_worker deliver_def deliver_later_def hand_over_def
      split: worker.split delivery.split)

lemma traced_frame [simp]:
  "traced rid k cb S (notify_all s) out = traced rid k cb S s out"
  "traced rid k cb S (deliver out s) [] = traced rid k cb S s out"
  "traced rid k cb S (deliver_later out s) [] = traced rid k cb S s out"
  "traced rid k cb S (hand_over out s) [] = traced rid k cb S s out"
  by (simp_all add: traced_def may_get_def)

lemma complete_pending_from:
  "complete_pending rs p = (evs, p') \<Longrightarrow> set p' \<subseteq> set p
     \<and> (\<forall>cb r. Ev_result cb r \<in> set evs \<longrightarrow> (\<exists>i. (i, r) \<in> set rs \<and> (i, cb) \<in> set p))"
proof (induction rs p arbitrary: evs p' rule: complete_pending.induct)
  case (2 rid r rs p)
  show ?case
  proof (cases "map_of p rid")
    case None
    then show ?thesis using 2(1) [OF None] 2(3) by fastforce
  next
    case (Some cb)
    obtain evs1 where c: "complete_pending rs (om_erase rid p) = (evs1, p')" "evs = Ev_result cb r # evs1"
      using 2(3) Some by (auto split: prod.splits)
    show ?thesis
      using 2(2) [OF Some c(1)] c(2) map_of_SomeD [OF Some] by (auto simp: set_om_erase) blast
  qed
qed simp

lemma drain_requests_same:
  "bc_ongoing_requests (cl_base (fst (drain_outgoing L s))) = bc_ongoing_requests (cl_base s)"
  "bc_next_request_id (cl_base (fst (drain_outgoing L s))) = bc_next_request_id (cl_base s)"
proof -
  obtain q where "fst (drain_loop L (cl_base s)) = (cl_base s)\<lparr>bc_outgoing := q\<rparr>" using drain_loop_frame by blast
  then show "bc_ongoing_requests (cl_base (fst (drain_outgoing L s))) = bc_ongoing_requests (cl_base s)"
    "bc_next_request_id (cl_base (fst (drain_outgoing L s))) = bc_next_request_id (cl_base s)"
    by (auto simp: drain_outgoing_def case_prod_unfold Let_def)
qed

lemma drain_events_same:
  "all_events (fst (drain_outgoing L s)) = all_events s" "cl_pending (fst (drain_outgoing L s)) = cl_pending s"
  "cl_stopping (fst (drain_outgoing L s)) = cl_stopping s" "cl_delivered (fst (drain_outgoing L s)) = cl_delivered s"
proof -
  obtain b w where "fst (drain_outgoing L s) = s\<lparr>cl_base := b, cl_wire := w\<rparr>" using drain_outgoing_frame by blast
  then show "all_events (fst (drain_outgoing L s)) = all_events s" "cl_pending (fst (drain_outgoing L s)) = cl_pending s"
    "cl_stopping (fst (drain_outgoing L s)) = cl_stopping s" "cl_delivered (fst (drain_outgoing L s)) = cl_delivered s"
    by (simp_all add: all_events_def)
qed

lemma traced_drain: "traced rid k cb S s out \<Longrightarrow> traced rid k cb S (fst (drain_outgoing L s)) out"
  by (rule traced_cong) (simp_all add: drain_requests_same drain_events_same)

lemma traced_handle_open:
  assumes t: "traced rid k cb S s out"
  shows "traced rid k cb S (fst (handle_open L E (s, out))) (fst (snd (handle_open L E (s, out))))"
proof -
  obtain b m where cm: "make_connect_message (cl_last_close_reason s) (Some (ev_wall_clock_ms E)) (cl_base s) = (b, m)"
    by fastforce
  then have b: "bc_ongoing_requests b = bc_ongoing_requests (cl_base s)" "bc_next_request_id b = bc_next_request_id (cl_base s)"
    by (auto simp: make_connect_message_def)
  let ?s = "s\<lparr>cl_last_server_msg := ev_now E, cl_state := Connected, cl_base := b\<rparr>"
  have upd: "traced rid k cb S ?s (push_state_event (s\<lparr>cl_last_server_msg := ev_now E, cl_state := Connected\<rparr>) out)"
    "traced rid k cb S (?s\<lparr>cl_wire := w\<rparr>) (push_state_event (s\<lparr>cl_last_server_msg := ev_now E, cl_state := Connected\<rparr>) out)" for w
    by (rule traced_cong [OF t]; auto simp: b push_state_event_def all_events_def)+
  show ?thesis
    using cm upd(1) traced_drain [OF upd(2)]
    by (cases "encode_client_message L (CM_connect m)") (simp_all add: handle_open_def Let_def case_prod_unfold)
qed

lemma traced_after_open:
  assumes t: "traced rid k cb S s out"
    and quiet: "snd (case handle_open L E (s, out) of
      (s2, out2, Some e) \<Rightarrow> (s2, Some e) | (s2, out2, None) \<Rightarrow> (deliver out2 (notify_all s2), None)) = None"
  shows "traced rid k cb S (fst (case handle_open L E (s, out) of
     (s2, out2, Some e) \<Rightarrow> (s2, Some e) | (s2, out2, None) \<Rightarrow> (deliver out2 (notify_all s2), None))) []"
  using traced_handle_open [OF t, of L E] quiet by (cases "handle_open L E (s, out)") (auto split: option.splits)

lemma traced_disconnect:
  assumes t: "traced rid k cb S s out"
  shows "traced rid k cb S (fst (begin_disconnect E reason (s, out))) (snd (begin_disconnect E reason (s, out)))"
proof (rule begin_disconnect_cases [of E s reason out])
  fix b failed evs p
  assume r: "restart (refreshed_token E s) (cl_base s) = (b, failed)"
    and c: "complete_pending failed (cl_pending s) = (evs, p)"
    and eq: "begin_disconnect E reason (s, out) = (disconnected E reason b p s,
      out @ (if cl_state s \<noteq> Disconnected then map (\<lambda>l. Ev_state l Disconnected) (cl_state_listeners s) else []) @ evs)"
  have base: "base_from rid k S (cl_base s)" and pend: "\<And>i. (i, cb) \<in> set (cl_pending s) \<Longrightarrow> i = rid"
    and evs: "\<And>r. Ev_result cb r \<in> set (all_events s) \<union> set out \<Longrightarrow> may_get k S s r"
    using t by (auto simp: traced_def)
  note b = restart_from [OF r base] and p = complete_pending_from [OF c]
  have "r = connection_lost \<and> k = RK_action" if "Ev_result cb r \<in> set evs" for r
    using that p pend b by blast
  moreover have "all_events (disconnected E reason b p s) = all_events s"
    by (simp add: all_events_def split: worker.split)
  ultimately show ?thesis
    using b p pend evs unfolding eq by (auto simp: traced_def may_get_def)
qed

lemma traced_auth_rejected:
  assumes t: "traced rid k cb S s out"
  shows "traced rid k cb S (fst (auth_rejected r reason (s, out))) (snd (auth_rejected r reason (s, out)))"
proof -
  let ?n = "cl_consecutive_auth_errors s + 1"
  let ?gave_up = "(s\<lparr>cl_base := set_auth auth_token_none (cl_base s), cl_fetcher := None, cl_consecutive_auth_errors := 0\<rparr>,
    out @ map (\<lambda>l. Ev_auth_failure l reason) (cl_auth_failure_listeners s))"
  have "traced rid k cb S (fst ?gave_up) (snd ?gave_up)" "traced rid k cb S (s\<lparr>cl_consecutive_auth_errors := ?n\<rparr>) out"
    by (rule traced_cong [OF t]; auto simp: all_events_def set_auth_def push_outgoing_def)+
  moreover have "auth_rejected r reason (s, out) \<in> {?gave_up, (s\<lparr>cl_consecutive_auth_errors := ?n\<rparr>, out)}"
    by (simp add: auth_rejected_def Let_def)
  ultimately show ?thesis by auto
qed

lemma traced_dispatch:
  assumes t: "traced rid k cb S s []" and inv: "bc_inv (cl_base s)"
    and quiet: "snd (dispatch_message L E msg s) = None"
  shows "traced rid k cb (S \<union> set (answer_to rid msg)) (fst (dispatch_message L E msg s)) []"
proof -
  let ?S = "S \<union> set (answer_to rid msg)"
  obtain b r where r: "receive_message msg (cl_base s) = Inr (b, r)"
    using receive_message_inv [OF inv, of msg] by blast
  have base: "base_from rid k S (cl_base s)" using t by (simp add: traced_def)
  note rf = receive_from [OF inv base r]
  let ?s1 = "s\<lparr>cl_base := b\<rparr>" and ?logs = "log_events (s\<lparr>cl_base := b\<rparr>) (rr_log_entries r)"
  have logs: "Ev_result c x \<notin> set ?logs" "Ev_result c x \<notin> set (update_events ?s1 q)" for c x q
    by (auto simp: log_events_def update_events_def split: option.splits)
  have ev: "all_events ?s1 = all_events s" by (simp add: all_events_def)
  have s1: "traced rid k cb ?S ?s1 ?logs"
    using t rf unfolding traced_def ev by (auto simp: may_get_def logs)
  show ?thesis
  proof (cases "rr_reconnect_reason r")
    case (Some reason)
    obtain s2 out2 where x: "(if rr_auth_error r then auth_rejected r reason (?s1, ?logs) else (?s1, ?logs)) = (s2, out2)"
      by fastforce
    have "traced rid k cb ?S s2 out2"
      using s1 traced_auth_rejected [OF s1, of r reason] x by (auto split: if_splits)
    note disc = traced_disconnect [OF this, of E reason]
    have "fst (dispatch_message L E msg s) = deliver (snd (begin_disconnect E reason (s2, out2)))
        (fst (begin_disconnect E reason (s2, out2)))"
      unfolding x [symmetric] by (simp add: dispatch_message_def r Some Let_def case_prod_unfold)
    then show ?thesis using disc by simp
  next
    case None
    obtain evs p where c: "complete_pending (rr_completed_requests r) (cl_pending s) = (evs, p)" by fastforce
    note cp = complete_pending_from [OF c]
    define s3 where "s3 = (if rr_state_changed r \<and> has_synced_past_last_restart b
      then s\<lparr>cl_base := b, cl_pending := p, cl_retries := 0, cl_consecutive_auth_errors := 0\<rparr>
      else s\<lparr>cl_base := b, cl_pending := p\<rparr>)"
    let ?out = "?logs @ update_events ?s1 (rr_changed_queries r) @ evs"
    have s3: "cl_base s3 = b" "cl_pending s3 = p" "all_events s3 = all_events s" "cl_stopping s3 = cl_stopping s"
      by (simp_all add: s3_def all_events_def)
    have pend: "\<And>i. (i, cb) \<in> set (cl_pending s) \<Longrightarrow> i = rid" using t by (simp add: traced_def)
    have "x \<in> ?S" if "Ev_result cb x \<in> set evs" for x using that cp rf pend by blast
    moreover have "may_get k ?S s3 x" if "Ev_result cb x \<in> set (all_events s)" for x
      using t that by (auto simp: traced_def may_get_def s3)
    ultimately have s3': "traced rid k cb ?S s3 ?out"
      using rf cp pend unfolding traced_def s3 by (auto simp: may_get_def logs)
    obtain s4 where dr: "drain_outgoing L s3 = (s4, None)"
      and eq: "fst (dispatch_message L E msg s) = deliver ?out s4"
      using quiet c by (cases "drain_outgoing L s3")
        (simp add: dispatch_message_def r Let_def None s3_def [symmetric] split: option.splits)
    show ?thesis using traced_drain [OF s3', of L] by (simp add: dr eq)
  qed
qed

lemma traced_ws_message:
  assumes t: "traced rid k cb S s []" and inv: "bc_inv (cl_base s)" and quiet: "snd (ws_message L E gen x s) = None"
  shows "traced rid k cb (S \<union> set (step_answers L rid s (Ws_message E gen x))) (fst (ws_message L E gen x s)) []"
proof (cases "cl_stopping s \<or> gen \<noteq> cl_conn_gen s")
  case True
  then show ?thesis using t by (simp add: ws_message_def)
next
  case False
  then have run: "\<not> cl_stopping s" "gen = cl_conn_gen s" by simp_all
  let ?u = "\<lambda>a. s\<lparr>cl_last_server_msg := ev_now E, cl_chunk_assembler := a\<rparr>"
  let ?S = "S \<union> set (step_answers L rid s (Ws_message E gen x))"
  have u: "traced rid k cb S (?u a) []" for a by (rule traced_cong [OF t]) (simp_all add: all_events_def)
  have uS: "traced rid k cb ?S (?u a) []" for a by (rule traced_mono [OF u]) simp
  show ?thesis
  proof (rule ws_message_cases [OF run, of L E x])
    fix w a assume eq: "ws_message L E gen x s = protocol_failure E w (?u a)"
    show ?thesis
      using traced_disconnect [OF uS] unfolding eq by (simp add: protocol_failure_def case_prod_unfold Let_def)
  next
    fix msg a
    assume eq: "ws_message L E gen x s = dispatch_message L E msg (?u a)"
      and msg: "(\<exists>tr. msg = SV_transition tr) \<or> decode_server_message L x = Inr msg"
    have "set (answer_to rid msg) \<subseteq> set (step_answers L rid s (Ws_message E gen x))" using msg run by auto
    then have S: "S \<union> set (answer_to rid msg) \<subseteq> ?S" by blast
    have "traced rid k cb (S \<union> set (answer_to rid msg)) (fst (dispatch_message L E msg (?u a))) []"
      by (rule traced_dispatch [OF u]) (use inv quiet in \<open>simp_all add: eq\<close>)
    then show ?thesis unfolding eq by (rule traced_mono [OF _ S])
  qed (use uS in simp_all)
qed

lemma traced_attempt_end:
  assumes t: "traced rid k cb S s []" and wk: "cl_worker s = W_connecting gen out"
    and quiet: "snd (attempt_end L E gen out r s) = None"
  shows "traced rid k cb S (fst (attempt_end L E gen out r s)) []"
proof -
  have upd: "traced rid k cb S (s\<lparr>cl_worker := W_running\<rparr>) out"
    "traced rid k cb S (s\<lparr>cl_worker := W_running, cl_garbage := g\<rparr>) out"
    "traced rid k cb S (s\<lparr>cl_worker := W_running, cl_conn := c, cl_conn_slot := c, cl_wire := w\<rparr>) out"
    "traced rid k cb S (s\<lparr>cl_worker := W_running, cl_conn := c, cl_conn_slot := c, cl_wire := w,
      cl_pending_open := False, cl_socket_open := True\<rparr>) out"
    "traced rid k cb S (s\<lparr>cl_worker := W_running, cl_conn_slot := c\<rparr>) out" for g c w
    by (rule traced_cong [OF t]; auto simp: all_events_def wk)+
  show ?thesis
  proof (cases "\<not> cl_stopping s \<and> gen = cl_conn_gen s \<and> r = Conn_made \<and> cl_pending_open s")
    case True
    let ?s2 = "s\<lparr>cl_worker := W_running, cl_conn := Some gen, cl_conn_slot := Some gen, cl_wire := [],
      cl_pending_open := False, cl_socket_open := True\<rparr>"
    have eq: "attempt_end L E gen out r s = (case handle_open L E (?s2, out) of
        (s2, out2, Some e) \<Rightarrow> (s2, Some e) | (s2, out2, None) \<Rightarrow> (deliver out2 (notify_all s2), None))"
      using True by (simp add: attempt_end_def Let_def)
    show ?thesis using quiet unfolding eq by (rule traced_after_open [OF upd(4)])
  next
    case False
    then show ?thesis
      using upd(1-3) traced_disconnect [OF upd(5)]
      by (cases "cl_pending_open s"; cases "r = Conn_made"; cases "cl_stopping s"; cases "gen = cl_conn_gen s")
         (simp_all add: attempt_end_def Let_def case_prod_unfold)
  qed
qed

lemma traced_worker_pass:
  assumes t: "traced rid k cb S s []"
  shows "traced rid k cb S (worker_pass E s) []"
proof (cases "cl_worker s = W_running")
  case True
  have upd: "traced rid k cb S (s\<lparr>cl_garbage := []\<rparr>) []" "traced rid k cb S (s\<lparr>cl_worker := W_done\<rparr>) []"
    "traced rid k cb S (s\<lparr>cl_worker := W_waiting d\<rparr>) []"
    "traced rid k cb S (attempt_begin (s\<lparr>cl_reconnect_scheduled := False\<rparr>)) []" for d
    by (rule traced_cong [OF t]; auto simp: all_events_def True attempt_begin_def Let_def push_state_event_def)+
  show ?thesis using t upd traced_disconnect [OF t] by (simp add: worker_pass_def case_prod_unfold Let_def)
qed (use t in \<open>simp add: worker_pass_def\<close>)

lemma traced_do_subscribe:
  assumes t: "traced rid k cb S s []"
  shows "traced rid k cb S (fst (do_subscribe L p args c s)) []"
proof (rule do_subscribe_cases [of L p args s c])
  fix b e
  assume sub: "subscribe L p args (cl_base s) = (b, Inl e)" and eq: "do_subscribe L p args c s = (s\<lparr>cl_base := b\<rparr>, Inl e)"
  have "b = cl_base s" using sub by (auto simp: subscribe_def split: sum.splits prod.splits)
  then show ?thesis using t unfolding eq by simp
next
  fix b sid s2 x
  assume sub: "subscribe L p args (cl_base s) = (b, Inr sid)"
    and d: "drain_outgoing L (s\<lparr>cl_base := b, cl_subs := add_entry sid c (cl_subs s)\<rparr>) = (s2, x)"
    and eq: "do_subscribe L p args c s = (case x of
         Some e \<Rightarrow> (s2, Inl e)
       | None \<Rightarrow> (deliver (case latest_result b (si_query sid) of None \<Rightarrow> [] | Some fr \<Rightarrow> [Ev_update c fr]) s2, Inr sid))"
  have b: "bc_ongoing_requests b = bc_ongoing_requests (cl_base s)" "bc_next_request_id b = bc_next_request_id (cl_base s)"
    using sub by (auto simp: subscribe_def subscribe_query_def Let_def push_outgoing_def split: sum.splits prod.splits option.splits)
  have "traced rid k cb S (s\<lparr>cl_base := b, cl_subs := add_entry sid c (cl_subs s)\<rparr>) []"
    by (rule traced_cong [OF t]) (simp_all add: b all_events_def)
  from traced_drain [OF this, of L] have s2: "traced rid k cb S s2 []" by (simp add: d)
  have "traced rid k cb S s2 (case latest_result b (si_query sid) of None \<Rightarrow> [] | Some fr \<Rightarrow> [Ev_update c fr])"
    by (rule traced_cong [OF s2]) (auto split: option.splits)
  then show ?thesis using s2 unfolding eq by (cases x) simp_all
qed

lemma traced_do_request:
  assumes t: "traced rid k cb S s []" and free: "request_id_free (cl_base s)" and other: "c \<noteq> cb"
  shows "traced rid k cb S (fst (do_request L mut p args c s)) []"
proof (cases "cl_stopping s")
  case True
  have "traced rid k cb S (s\<lparr>cl_delivered := cl_delivered s @ [Ev_result c shut_down_error]\<rparr>) []"
    by (rule traced_cong [OF t]) (use other in \<open>auto simp: all_events_def\<close>)
  then show ?thesis using True by (simp add: do_request_def)
next
  case False
  define r where "r = (if mut then mutation L p args (cl_base s) else action L p args (cl_base s))"
  have base: "base_from rid k S (cl_base s)" and pend: "\<And>i. (i, cb) \<in> set (cl_pending s) \<Longrightarrow> i = rid"
    and evs: "\<And>x. Ev_result cb x \<in> set (all_events s) \<Longrightarrow> may_get k S s x"
    using t by (auto simp: traced_def)
  have b: "base_from rid k S (fst r)"
    using enqueue_from [OF base free] by (simp add: r_def mutation_def action_def)
  have "traced rid k cb S (s\<lparr>cl_base := fst r\<rparr>) []"
    using b pend evs by (simp add: traced_def may_get_def all_events_def)
  moreover have "traced rid k cb S (s\<lparr>cl_base := fst r, cl_pending := om_emplace i c (cl_pending s)\<rparr>) []" for i
  proof -
    have "(j, cb) \<in> set (cl_pending s)" if "(j, cb) \<in> set (om_emplace i c (cl_pending s))" for j
      using that other set_om_insert_subset [of i c "cl_pending s"] by (auto simp: om_emplace_def split: option.splits)
    then show ?thesis using b pend evs by (auto simp: traced_def may_get_def all_events_def)
  qed
  ultimately show ?thesis
    using False traced_drain by (cases r; cases "snd r") (simp_all add: do_request_def r_def [symmetric])
qed

subsection \<open>Steps and runs\<close>

fun request_cbs :: "client_op \<Rightarrow> callback list" where
  "request_cbs (Do_request m p args cb) = [cb]"
| "request_cbs _ = []"

lemma traced_stopping:
  assumes t: "traced rid k cb S s []" and "cl_base s' = cl_base s" "set (cl_pending s') \<subseteq> set (cl_pending s)"
    and stop: "cl_stopping s'"
    and evs: "\<And>r. Ev_result cb r \<in> set (all_events s') \<Longrightarrow> Ev_result cb r \<in> set (all_events s) \<or> r = shut_down_error"
  shows "traced rid k cb S s' []"
proof -
  have "may_get k S s' r" if "may_get k S s r \<or> r = shut_down_error" for r
    using that stop by (auto simp: may_get_def)
  then have "may_get k S s' r" if "Ev_result cb r \<in> set (all_events s')" for r
    using evs [OF that] t by (auto simp: traced_def)
  then show ?thesis using t assms(2,3) by (auto simp: traced_def)
qed

lemma traced_step:
  assumes t: "traced rid k cb S s []" and inv: "bc_inv (cl_base s)" and en: "client_ok L s op"
    and other: "cb \<notin> set (request_cbs op)"
  shows "traced rid k cb (S \<union> set (step_answers L rid s op)) (client_step L s op) []"
proof (cases op)
  case (Ws_open E gen)
  have upd: "traced rid k cb S (s\<lparr>cl_socket_open := True\<rparr>) []"
    "traced rid k cb S (s\<lparr>cl_socket_open := True, cl_pending_open := True\<rparr>) []"
    by (rule traced_cong [OF t]; simp add: all_events_def)+
  have "traced rid k cb S (fst (ws_open L E gen s)) []" if "snd (ws_open L E gen s) = None"
  proof (cases "\<not> (cl_stopping s \<or> gen \<noteq> cl_conn_gen s) \<and> cl_conn s \<noteq> None")
    case True
    then have eq: "ws_open L E gen s = (case handle_open L E (s\<lparr>cl_socket_open := True\<rparr>, []) of
        (s2, out2, Some e) \<Rightarrow> (s2, Some e) | (s2, out2, None) \<Rightarrow> (deliver out2 (notify_all s2), None))"
      by (auto simp: ws_open_def Let_def)
    show ?thesis using that unfolding eq by (rule traced_after_open [OF upd(1)])
  next
    case False
    then show ?thesis using t upd(2) by (auto simp: ws_open_def Let_def)
  qed
  then show ?thesis using en by (simp add: Ws_open client_ok_def client_step_def)
next
  case (Ws_message E gen x)
  then show ?thesis
    using traced_ws_message [OF t inv, of L E gen x] en by (simp add: client_ok_def client_step_def)
next
  case (Ws_close E gen reason)
  then show ?thesis
    using t traced_disconnect [OF t] by (simp add: client_step_def ws_close_def case_prod_unfold Let_def)
next
  case (Worker_pass E)
  then show ?thesis using traced_worker_pass [OF t] by (simp add: client_step_def)
next
  case (Connect_returns E r)
  show ?thesis
  proof (cases "cl_worker s")
    case (W_connecting gen out)
    then show ?thesis
      using traced_attempt_end [OF t W_connecting, of L E r] en
      by (simp add: Connect_returns client_ok_def client_step_def connect_returns_def)
  qed (use t in \<open>simp_all add: Connect_returns client_step_def connect_returns_def\<close>)
next
  case (Run_delivery n)
  show ?thesis
  proof (cases "n < length (cl_in_flight s)")
    case True
    have split: "cl_in_flight s = take n (cl_in_flight s) @ cl_in_flight s ! n # drop (Suc n) (cl_in_flight s)"
      by (rule id_take_nth_drop [OF True])
    have "set (concat (take n (cl_in_flight s) @ cl_in_flight s ! n # drop (Suc n) (cl_in_flight s))) =
        set (concat (drop_nth n (cl_in_flight s))) \<union> set (cl_in_flight s ! n)"
      by (auto simp: drop_nth_def)
    then have "set (concat (drop_nth n (cl_in_flight s))) \<union> set (cl_in_flight s ! n) = set (concat (cl_in_flight s))"
      using split by metis
    then have "traced rid k cb S (s\<lparr>cl_in_flight := drop_nth n (cl_in_flight s)\<rparr>) (cl_in_flight s ! n)"
      by (intro traced_cong [OF t]) (auto simp: all_events_def)
    then show ?thesis using True by (simp add: Run_delivery client_step_def run_delivery_def)
  next
    case False
    then show ?thesis using t by (simp add: Run_delivery client_step_def run_delivery_def)
  qed
next
  case (Do_subscribe p args c)
  then show ?thesis using traced_do_subscribe [OF t] by (simp add: client_step_def)
next
  case (Do_unsubscribe sid)
  have "traced rid k cb S (s\<lparr>cl_subs := m, cl_base := unsubscribe sid (cl_base s)\<rparr>) []" for m
    by (rule traced_cong [OF t])
       (simp_all add: all_events_def unsubscribe_def Let_def push_outgoing_def split: option.split)
  then show ?thesis using t traced_drain by (simp add: Do_unsubscribe client_step_def do_unsubscribe_def)
next
  case (Do_request m p args c)
  then show ?thesis
    using traced_do_request [OF t, of c] en other by (simp add: client_ok_def client_step_def)
next
  case (Do_set_auth tok f)
  have "traced rid k cb S (s\<lparr>cl_fetcher := f, cl_consecutive_auth_errors := 0, cl_base := set_auth tok (cl_base s)\<rparr>) []"
    by (rule traced_cong [OF t]) (simp_all add: all_events_def set_auth_def push_outgoing_def)
  then show ?thesis using t traced_drain by (simp add: Do_set_auth client_step_def do_set_auth_def)
next
  case Shutdown_begin
  show ?thesis
  proof (cases "cl_stopping s")
    case True
    then show ?thesis using t by (simp add: Shutdown_begin client_step_def shutdown_begin_def)
  next
    case False
    have "all_events (shutdown_begin s) = all_events s"
      by (simp add: shutdown_begin_def False) (simp add: all_events_def)
    then have "traced rid k cb S (shutdown_begin s) []"
      by (intro traced_stopping [OF t]) (simp_all add: shutdown_begin_def)
    then show ?thesis by (simp add: Shutdown_begin client_step_def)
  qed
next
  case Shutdown_end
  then have "cl_stopping s" using en by (simp add: client_ok_def)
  then have "traced rid k cb S (shutdown_end s) []"
    by (intro traced_stopping [OF t]) (auto simp: shutdown_end_def all_events_def)
  then show ?thesis by (simp add: Shutdown_end client_step_def)
next
  case Process_events
  show ?thesis
    unfolding Process_events by (rule traced_cong [OF t, THEN traced_mono])
      (auto simp: client_step_def do_process_events_def all_events_def)
qed (use t in \<open>simp_all add: client_step_def worker_wake_def\<close>,
     use t in \<open>simp_all add: traced_def may_get_def all_events_def on_state_change_def on_auth_failure_def on_log_lines_def\<close>)

lemma traced_run:
  "traced rid k cb S s [] \<Longrightarrow> client_inv L s \<Longrightarrow> ok_run (client_step L) (client_ok L) s ops \<Longrightarrow>
     cb \<notin> set (concat (map request_cbs ops)) \<Longrightarrow>
     traced rid k cb (S \<union> set (answers L rid s ops)) (run (client_step L) s ops) []"
proof (induction ops arbitrary: s S)
  case (Cons op ops)
  have en: "client_ok L s op" and rest: "ok_run (client_step L) (client_ok L) (client_step L s op) ops"
    using Cons.prems(3) by simp_all
  have "traced rid k cb (S \<union> set (step_answers L rid s op)) (client_step L s op) []"
    by (rule traced_step [OF Cons.prems(1) client_invD(4) [OF Cons.prems(2)] en]) (use Cons.prems(4) in simp)
  from Cons.IH [OF this cl.step_keeps [OF Cons.prems(2) en] rest] show ?case
    using Cons.prems(4) by (simp add: Un_assoc)
qed simp

subsection \<open>The past stays\<close>

definition same_past :: "client_state \<Rightarrow> client_state \<Rightarrow> bool" where
  "same_past s s' \<longleftrightarrow> cl_delivered s' = cl_delivered s \<and> cl_stopping s' = cl_stopping s"

lemma same_past_simps [simp]:
  "same_past s s" "same_past s (notify_all s') = same_past s s'" "same_past s (deliver out s') = same_past s s'"
  "same_past s (deliver_later out s') = same_past s s'" "same_past s (fst (drain_outgoing L s')) = same_past s s'"
  "same_past s (disconnected E reason b p s') = same_past s s'"
  by (simp_all add: same_past_def drain_events_same)

lemma same_past_open: "same_past s (fst (handle_open L E (s, out)))"
  by (simp add: handle_open_def Let_def case_prod_unfold same_past_def drain_events_same split: sum.split)

lemma same_past_disconnect: "same_past s (fst (begin_disconnect E reason (s, out)))"
  by (rule begin_disconnect_cases [of E s reason out]) simp

lemma same_past_auth: "same_past s (fst (auth_rejected r reason (s, out)))"
  by (simp add: auth_rejected_def Let_def same_past_def)

lemma same_past_after_open:
  "same_past s (fst (case handle_open L E (s, out) of
     (s2, out2, Some e) \<Rightarrow> (s2, Some e) | (s2, out2, None) \<Rightarrow> (deliver out2 (notify_all s2), None)))"
  using same_past_open [of s L E out] by (cases "handle_open L E (s, out)") (auto split: option.split)

lemma same_past_trans: "same_past s s' \<Longrightarrow> same_past s' s'' \<Longrightarrow> same_past s s''"
  by (simp add: same_past_def)

lemma same_past_dispatch: "same_past s (fst (dispatch_message L E msg s))"
proof (cases "receive_message msg (cl_base s)")
  case (Inl e)
  then show ?thesis by (simp add: dispatch_message_def)
next
  case (Inr br)
  obtain b r where br: "br = (b, r)" by fastforce
  have upd: "same_past s (s\<lparr>cl_base := b\<rparr>)" "same_past s (s\<lparr>cl_base := b, cl_pending := p\<rparr>)"
    "same_past s (s\<lparr>cl_base := b, cl_pending := p, cl_retries := 0, cl_consecutive_auth_errors := 0\<rparr>)" for p
    by (simp_all add: same_past_def)
  show ?thesis
  proof (cases "rr_reconnect_reason r")
    case (Some reason)
    obtain s2 out2 where x: "(if rr_auth_error r then auth_rejected r reason (s\<lparr>cl_base := b\<rparr>, log_events (s\<lparr>cl_base := b\<rparr>) (rr_log_entries r))
        else (s\<lparr>cl_base := b\<rparr>, log_events (s\<lparr>cl_base := b\<rparr>) (rr_log_entries r))) = (s2, out2)"
      by fastforce
    have "same_past s s2"
      using upd(1) x same_past_trans [OF upd(1) same_past_auth [of "s\<lparr>cl_base := b\<rparr>" r reason]]
      by (auto split: if_splits) (metis fst_conv)
    note past = same_past_trans [OF this same_past_disconnect [of s2 E reason out2]]
    have "fst (dispatch_message L E msg s) = deliver (snd (begin_disconnect E reason (s2, out2)))
        (fst (begin_disconnect E reason (s2, out2)))"
      unfolding x [symmetric] by (simp add: dispatch_message_def Inr br Some Let_def case_prod_unfold)
    then show ?thesis using past by simp
  next
    case None
    obtain evs p where c: "complete_pending (rr_completed_requests r) (cl_pending s) = (evs, p)" by fastforce
    define s3 where "s3 = (if rr_state_changed r \<and> has_synced_past_last_restart b
      then s\<lparr>cl_base := b, cl_pending := p, cl_retries := 0, cl_consecutive_auth_errors := 0\<rparr>
      else s\<lparr>cl_base := b, cl_pending := p\<rparr>)"
    have "same_past s (fst (drain_outgoing L s3))" using upd by (simp add: s3_def)
    then show ?thesis
      using c by (cases "drain_outgoing L s3")
        (simp add: dispatch_message_def Inr br None Let_def s3_def [symmetric] split: option.split)
  qed
qed

lemma same_past_ws_message: "same_past s (fst (ws_message L E gen t s))"
proof (cases "cl_stopping s \<or> gen \<noteq> cl_conn_gen s")
  case True
  then show ?thesis by (simp add: ws_message_def)
next
  case False
  then have run: "\<not> cl_stopping s" "gen = cl_conn_gen s" by simp_all
  let ?u = "\<lambda>a. s\<lparr>cl_last_server_msg := ev_now E, cl_chunk_assembler := a\<rparr>"
  have u: "same_past s (?u a)" for a by (simp add: same_past_def)
  show ?thesis
    by (rule ws_message_cases [OF run, of L E t])
       (simp_all add: u same_past_trans [OF u same_past_dispatch] same_past_trans [OF u same_past_disconnect]
         protocol_failure_def case_prod_unfold Let_def)
qed

lemma same_past_attempt_end: "same_past s (fst (attempt_end L E gen out r s))"
proof -
  have u: "same_past s (s\<lparr>cl_worker := W_running\<rparr>)" "same_past s (s\<lparr>cl_worker := W_running, cl_garbage := g\<rparr>)"
    "same_past s (s\<lparr>cl_worker := W_running, cl_conn := c, cl_conn_slot := c, cl_wire := w\<rparr>)"
    "same_past s (s\<lparr>cl_worker := W_running, cl_conn := c, cl_conn_slot := c, cl_wire := w,
      cl_pending_open := False, cl_socket_open := True\<rparr>)"
    "same_past s (s\<lparr>cl_worker := W_running, cl_conn_slot := c\<rparr>)" for g c w
    by (simp_all add: same_past_def)
  show ?thesis
    using u same_past_trans [OF u(5) same_past_disconnect] same_past_trans [OF u(4) same_past_after_open]
    by (simp add: attempt_end_def Let_def case_prod_unfold)
qed

lemma same_past_worker_pass: "same_past s (worker_pass E s)"
proof -
  have u: "same_past s (s\<lparr>cl_garbage := []\<rparr>)" "same_past s (s\<lparr>cl_worker := w\<rparr>)"
    "same_past s (attempt_begin (s\<lparr>cl_reconnect_scheduled := False\<rparr>))" for w
    by (simp_all add: same_past_def attempt_begin_def Let_def)
  show ?thesis using u same_past_disconnect by (simp add: worker_pass_def case_prod_unfold Let_def)
qed

lemma same_past_do_subscribe: "same_past s (fst (do_subscribe L p args c s))"
proof (rule do_subscribe_cases [of L p args s c])
  fix b e assume "do_subscribe L p args c s = (s\<lparr>cl_base := b\<rparr>, Inl e)"
  then show ?thesis by (simp add: same_past_def)
next
  fix b sid s2 x
  assume d: "drain_outgoing L (s\<lparr>cl_base := b, cl_subs := add_entry sid c (cl_subs s)\<rparr>) = (s2, x)"
    and eq: "do_subscribe L p args c s = (case x of
         Some e \<Rightarrow> (s2, Inl e)
       | None \<Rightarrow> (deliver (case latest_result b (si_query sid) of None \<Rightarrow> [] | Some fr \<Rightarrow> [Ev_update c fr]) s2, Inr sid))"
  have "same_past s (fst (drain_outgoing L (s\<lparr>cl_base := b, cl_subs := add_entry sid c (cl_subs s)\<rparr>)))"
    by simp (simp add: same_past_def)
  then show ?thesis unfolding eq d by (cases x) simp_all
qed

text \<open>What has been delivered stays delivered, and a client that stops does not start again.\<close>

lemma step_past:
  "(\<exists>new. cl_delivered (client_step L s op) = cl_delivered s @ new) \<and> (cl_stopping s \<longrightarrow> cl_stopping (client_step L s op))"
proof -
  have past: ?thesis if "same_past s (client_step L s op)" using that by (simp add: same_past_def)
  have handed: "(\<exists>new. cl_delivered (hand_over out (s\<lparr>cl_in_flight := q\<rparr>)) = cl_delivered s @ new)" for out q
    by (simp add: hand_over_def split: delivery.split)
  show ?thesis
  proof (cases op)
    case (Run_delivery n)
    then show ?thesis using handed by (simp add: client_step_def run_delivery_def)
  next
    case (Do_request m p args c)
    have "cl_delivered (fst (drain_outgoing L s')) = cl_delivered s'" "cl_stopping (fst (drain_outgoing L s')) = cl_stopping s'" for s'
      by (simp_all add: drain_events_same)
    then show ?thesis
      by (simp add: Do_request client_step_def do_request_def split: prod.split sum.split)
  next
    case (Ws_open E gen)
    have u: "same_past s (s\<lparr>cl_socket_open := True\<rparr>)" "same_past s (s\<lparr>cl_socket_open := True, cl_pending_open := True\<rparr>)"
      by (simp_all add: same_past_def)
    show ?thesis
      by (rule past) (use u same_past_trans [OF u(1) same_past_after_open, of L E "[]"]
        in \<open>simp add: Ws_open client_step_def ws_open_def Let_def\<close>)
  next
    case (Ws_close E gen reason)
    show ?thesis
      by (rule past) (use same_past_disconnect [of s E reason "[]"] in
        \<open>simp add: Ws_close client_step_def ws_close_def case_prod_unfold Let_def\<close>)
  next
    case (Connect_returns E r)
    show ?thesis
      by (rule past) (simp add: Connect_returns client_step_def connect_returns_def same_past_attempt_end split: worker.split)
  qed (simp_all add: client_step_def do_process_events_def shutdown_begin_def shutdown_end_def worker_wake_def
         on_state_change_def on_auth_failure_def on_log_lines_def do_unsubscribe_def do_set_auth_def drain_events_same
         same_past_ws_message [unfolded same_past_def] same_past_worker_pass [unfolded same_past_def]
         same_past_do_subscribe [unfolded same_past_def])
qed

lemma run_past:
  "(\<exists>new. cl_delivered (run (client_step L) s ops) = cl_delivered s @ new)
    \<and> (cl_stopping s \<longrightarrow> cl_stopping (run (client_step L) s ops))"
proof (induction ops arbitrary: s)
  case (Cons op ops)
  obtain new where "cl_delivered (client_step L s op) = cl_delivered s @ new" using step_past [of L s op] by blast
  then show ?case using Cons [of "client_step L s op"] step_past [of L s op] by auto
qed simp

subsection \<open>A request that is made\<close>

definition made_request :: "bool \<Rightarrow> request_id \<Rightarrow> string \<Rightarrow> string \<Rightarrow> pending_request" where
  "made_request mut rid path args_json =
     \<lparr>pr_typ = (if mut then RK_mutation else RK_action), pr_completed = False, pr_ts = None, pr_result = None,
      pr_original_message = (if mut then CM_mutation else CM_action)
        \<lparr>rq_id = rid, rq_udf_path = canonicalize_udf_path path, rq_args_json = args_json, rq_component_path = None\<rparr>\<rparr>"

lemma do_request_made:
  assumes run: "\<not> cl_stopping s" and inv: "bc_inv (cl_base s)" and pend: "pending_ok s"
    and made: "do_request L mut p args cb s = (s', None)"
  defines "rid \<equiv> bc_next_request_id (cl_base s)"
  shows "\<exists>a b. serialize_args L args = Inr a \<and> s' = fst (drain_outgoing L (s\<lparr>cl_base := b, cl_pending := om_insert rid cb (cl_pending s)\<rparr>))
    \<and> bc_next_request_id b = rid + 1
    \<and> bc_ongoing_requests b = om_insert rid (made_request mut rid p a) (bc_ongoing_requests (cl_base s))"
proof -
  have r: "requests_ok (cl_base s)" using inv by (simp add: bc_inv_def)
  have keys: "fst ` set (cl_pending s) = fst ` set (bc_ongoing_requests (cl_base s))" using pend run by (simp add: pending_ok_def)
  have "rid \<notin> fst ` set (bc_ongoing_requests (cl_base s))"
    using fresh_request_id [OF r] by (simp add: rid_def map_of_eq_None_iff)
  then have fresh: "map_of (cl_pending s) rid = None" by (simp add: map_of_eq_None_iff keys)
  obtain a where a: "serialize_args L args = Inr a"
  proof (cases "serialize_args L args")
    case (Inl e)
    then show thesis
      using made run by (simp add: do_request_def mutation_def action_def enqueue_request_throws split: if_splits)
  qed (use that in simp)
  let ?msg = "pr_original_message (made_request mut rid p a)"
  let ?b = "push_outgoing ?msg (new_request (pr_typ (made_request mut rid p a)) ?msg (cl_base s))"
  have "(if mut then mutation L p args (cl_base s) else action L p args (cl_base s)) = (?b, Inr rid)"
    using enqueue_request_ok [OF r a refl]
    by (simp add: mutation_def action_def made_request_def rid_def)
  then have "do_request L mut p args cb s =
      drain_outgoing L (s\<lparr>cl_base := ?b, cl_pending := om_insert rid cb (cl_pending s)\<rparr>)"
    using run by (simp add: do_request_def om_emplace_fresh [OF fresh])
  then have "s' = fst (drain_outgoing L (s\<lparr>cl_base := ?b, cl_pending := om_insert rid cb (cl_pending s)\<rparr>))"
    using made by (metis fst_conv)
  moreover have "bc_next_request_id ?b = rid + 1"
    "bc_ongoing_requests ?b = om_insert rid (made_request mut rid p a) (bc_ongoing_requests (cl_base s))"
    by (simp_all add: new_request_def rid_def made_request_def)
  ultimately show ?thesis using a by blast
qed

text \<open>It is traced from then on, with no answer yet, when its callback is a new one.\<close>

lemma traced_made:
  assumes run: "\<not> cl_stopping s" and inv: "bc_inv (cl_base s)" and pend: "pending_ok s"
    and made: "do_request L mut p args cb s = (s', None)" and free: "request_id_free (cl_base s)"
    and new: "cb \<notin># results_held s"
  shows "traced (bc_next_request_id (cl_base s)) (if mut then RK_mutation else RK_action) cb {} s' []"
proof -
  define rid where "rid = bc_next_request_id (cl_base s)"
  obtain a b where m: "s' = fst (drain_outgoing L (s\<lparr>cl_base := b, cl_pending := om_insert rid cb (cl_pending s)\<rparr>))"
      "bc_next_request_id b = rid + 1"
      "bc_ongoing_requests b = om_insert rid (made_request mut rid p a) (bc_ongoing_requests (cl_base s))"
    using do_request_made [OF run inv pend made] unfolding rid_def by blast
  have only: "req = made_request mut rid p a" if "(rid, req) \<in> set (bc_ongoing_requests b)" for req
    using that inv set_om_insert [of "bc_ongoing_requests (cl_base s)" rid]
    by (auto simp: m(3) bc_inv_def requests_ok_def)
  have "rid < rid + 1"
    using free less_plus_one [of rid rid] by (simp add: request_id_free_def rid_def)
  moreover have "pr_typ (made_request mut rid p a) = (if mut then RK_mutation else RK_action)"
    "pr_result (made_request mut rid p a) = None" by (simp_all add: made_request_def)
  ultimately have base: "base_from rid (if mut then RK_mutation else RK_action) {} b"
    by (auto simp only: base_from_def m(2) dest!: only)
  have "(i, cb) \<notin> set (cl_pending s)" for i
    using new by (force simp: results_held_def)
  then have pending: "i = rid" if "(i, cb) \<in> set (om_insert rid cb (cl_pending s))" for i
    using that set_om_insert_subset [of rid cb "cl_pending s"] by auto
  have "cb \<notin> set (result_cbs (all_events s))"
    using new by (auto simp: results_held_def all_events_def)
  then have "Ev_result cb r \<notin> set (all_events s)" for r
    by (force simp: result_cbs_def)
  then have "traced rid (if mut then RK_mutation else RK_action) cb {}
      (s\<lparr>cl_base := b, cl_pending := om_insert rid cb (cl_pending s)\<rparr>) []"
    using base pending by (simp add: traced_def all_events_def)
  from traced_drain [OF this, of L] show ?thesis by (simp add: m(1) rid_def)
qed

end
