(* ===== verification/HttpClient.thy ===== *)
theory HttpClient
  imports Protocol Client
begin

section \<open>One-shot calls over HTTP (\<open>http_client.h\<close>, \<open>src/http_client.cpp\<close>, \<open>transport.h\<close>)\<close>

text \<open>
  The transport is an interface of the program (\<open>http_transport::send\<close>) and not modelled: a call
  is the request it hands over, or the exception it throws before that, and the completion is the
  function from the response of the transport to the result the caller gets.
\<close>

record http_request =
  hq_method :: string
  hq_url :: string
  hq_headers :: "(string, string) omap"
  hq_body :: string

record http_response =
  hp_status :: int       \<comment> \<open>an \<open>int\<close>, only compared and printed\<close>
  hp_body :: string
  hp_error :: string

definition transport_ok :: "http_response \<Rightarrow> bool" where
  "transport_ok r \<longleftrightarrow> hp_error r = [] \<and> hp_status r \<noteq> 0"

subsection \<open>Responses\<close>

text \<open>\<open>type_name\<close>, \<open>at\<close> and \<open>value\<close> of the JSON library, on an object, with the exceptions they throw.\<close>

fun json_type_name :: "json \<Rightarrow> string" where
  "json_type_name JNull = ''null''"
| "json_type_name (JBool b) = ''boolean''"
| "json_type_name (JInt i) = ''number''"
| "json_type_name (JUInt i) = ''number''"
| "json_type_name (JFloat d) = ''number''"
| "json_type_name (JString s) = ''string''"
| "json_type_name (JArray js) = ''array''"
| "json_type_name (JObject fs) = ''object''"
| "json_type_name (JBinary bs) = ''binary''"
| "json_type_name JDiscarded = ''discarded''"

definition json_at :: "json \<Rightarrow> string \<Rightarrow> json result" where
  "json_at j field = (case json_find j field of
     Some x \<Rightarrow> Inr x
   | None \<Rightarrow> Inl (Json_exception (''[json.exception.out_of_range.403] key '' @ quoted field @ '' not found'')))"

definition json_string_or :: "json \<Rightarrow> string \<Rightarrow> string \<Rightarrow> string result" where
  "json_string_or j field fallback = (case json_find j field of
     None \<Rightarrow> Inr fallback
   | Some (JString s) \<Rightarrow> Inr s
   | Some x \<Rightarrow> Inl (Json_exception (''[json.exception.type_error.302] type must be string, but is '' @ json_type_name x)))"

definition reply_result :: "json \<Rightarrow> string \<Rightarrow> function_result result" where
  "reply_result body status =
     (if status = ''success''
      then bindr (json_at body ''value'') (\<lambda>x. bindr (json_to_value x) (\<lambda>v. Inr (FR_success v)))
      else bindr (json_string_or body ''errorMessage'' ''unknown Convex error'') (\<lambda>message.
        case json_find body ''errorData'' of
          None \<Rightarrow> Inr (FR_error message)
        | Some d \<Rightarrow>
            if d = JNull then Inr (FR_error message)
            else bindr (json_to_value d) (\<lambda>v. Inr (FR_app_error \<lparr>ce_message = message, ce_data = v\<rparr>))))"

definition parse_function_response :: "json_lib \<Rightarrow> http_response \<Rightarrow> function_result" where
  "parse_function_response L r =
     (if hp_error r \<noteq> [] then FR_error (''convex: transport error: '' @ hp_error r)
      else case jl_parse L (hp_body r) of
        Inl _ \<Rightarrow> FR_error (''convex: HTTP '' @ int_to_string (hp_status r) @ '' with unparsable body'')
      | Inr body \<Rightarrow>
          (case Option.bind (json_find body ''status'') json_string of
             None \<Rightarrow> FR_error (''convex: HTTP '' @ int_to_string (hp_status r) @ '': response has no status field'')
           | Some status \<Rightarrow>
               (case reply_result body status of
                  Inr res \<Rightarrow> res
                | Inl e \<Rightarrow> FR_error (''convex: malformed response: '' @ exn_what e))))"

subsection \<open>The client\<close>

record http_client =
  hc_url :: string
  hc_auth_header :: "string option"

definition new_http_client :: "string \<Rightarrow> bool \<Rightarrow> http_client result" where
  "new_http_client deployment_url has_transport =
     (if \<not> has_transport then Inl (Invalid_argument ''convex: http transport required'')
      else (let url = pop_slashes deployment_url in
        if find_sub url ''://'' = None
        then Inl (Invalid_argument (''convex: deployment URL has no scheme: '' @ url))
        else Inr \<lparr>hc_url = url, hc_auth_header = None\<rparr>))"

definition http_set_auth :: "auth_token \<Rightarrow> http_client \<Rightarrow> http_client" where
  "http_set_auth token c =
     c\<lparr>hc_auth_header := (case at_type token of
         Auth_none \<Rightarrow> None
       | Auth_user \<Rightarrow> Some (''Bearer '' @ at_value token)
       | Auth_admin \<Rightarrow> Some (''Convex '' @ at_value token))\<rparr>"

definition http_call :: "json_lib \<Rightarrow> http_client \<Rightarrow> string \<Rightarrow> string \<Rightarrow> value_object \<Rightarrow> http_request result" where
  "http_call L c endpoint udf_path args =
     bindr (serialize_args L args) (\<lambda>args_json.
     bindr (jl_parse L args_json) (\<lambda>args_doc.
       let headers = om_insert ''Content-Type'' ''application/json'' [];
           headers' = (case hc_auth_header c of None \<Rightarrow> headers | Some h \<Rightarrow> om_insert ''Authorization'' h headers)
       in bindr (jl_dump L (JObject (json_obj [(''path'', JString (canonicalize_udf_path udf_path)),
                    (''format'', JString ''convex_encoded_json''), (''args'', args_doc)])))
            (\<lambda>text. Inr \<lparr>hq_method = ''POST'', hq_url = hc_url c @ endpoint, hq_headers = headers', hq_body = text\<rparr>)))"

definition http_query :: "json_lib \<Rightarrow> http_client \<Rightarrow> string \<Rightarrow> value_object \<Rightarrow> http_request result" where
  "http_query L c path args = http_call L c ''/api/query'' path args"

definition http_mutation :: "json_lib \<Rightarrow> http_client \<Rightarrow> string \<Rightarrow> value_object \<Rightarrow> http_request result" where
  "http_mutation L c path args = http_call L c ''/api/mutation'' path args"

definition http_action :: "json_lib \<Rightarrow> http_client \<Rightarrow> string \<Rightarrow> value_object \<Rightarrow> http_request result" where
  "http_action L c path args = http_call L c ''/api/action'' path args"

subsection \<open>Replies\<close>

text \<open>The documents a deployment replies with, by the documentation of its HTTP API.\<close>

fun reply_document :: "function_result \<Rightarrow> json result" where
  "reply_document (FR_success v) =
     bindr (value_to_json v) (\<lambda>j. Inr (JObject (json_obj [(''status'', JString ''success''), (''value'', j)])))"
| "reply_document (FR_error m) =
     Inr (JObject (json_obj [(''status'', JString ''error''), (''errorMessage'', JString m)]))"
| "reply_document (FR_app_error e) =
     bindr (value_to_json (ce_data e)) (\<lambda>j. Inr (JObject (json_obj [(''status'', JString ''error''),
       (''errorMessage'', JString (ce_message e)), (''errorData'', j)])))"

fun result_wf :: "function_result \<Rightarrow> bool" where
  "result_wf (FR_success v) = value_wf v"
| "result_wf (FR_error m) = True"
| "result_wf (FR_app_error e) = (value_wf (ce_data e) \<and> ce_data e \<noteq> VNull)"

fun result_canon :: "function_result \<Rightarrow> function_result" where
  "result_canon (FR_success v) = FR_success (canon_nan v)"
| "result_canon (FR_error m) = FR_error m"
| "result_canon (FR_app_error e) = FR_app_error (e\<lparr>ce_data := canon_nan (ce_data e)\<rparr>)"

lemma not_null: "value_wf v \<Longrightarrow> value_to_json v = Inr j \<Longrightarrow> v \<noteq> VNull \<Longrightarrow> j \<noteq> JNull"
proof
  assume "value_wf v" "value_to_json v = Inr j" "v \<noteq> VNull" "j = JNull"
  then have "canon_nan v = VNull" using codec_roundtrip_aux(1) [of v j] by simp
  then show False using \<open>v \<noteq> VNull\<close> by (cases v) auto
qed

lemma reply_fields:
  "json_find (JObject (json_obj [(''status'', a), (''value'', b)])) ''status'' = Some a"
  "json_find (JObject (json_obj [(''status'', a), (''value'', b)])) ''value'' = Some b"
  "json_find (JObject (json_obj [(''status'', a), (''errorMessage'', b)])) ''status'' = Some a"
  "json_find (JObject (json_obj [(''status'', a), (''errorMessage'', b)])) ''errorMessage'' = Some b"
  "json_find (JObject (json_obj [(''status'', a), (''errorMessage'', b)])) ''errorData'' = None"
  "json_find (JObject (json_obj [(''status'', a), (''errorMessage'', b), (''errorData'', d)])) ''status'' = Some a"
  "json_find (JObject (json_obj [(''status'', a), (''errorMessage'', b), (''errorData'', d)])) ''errorMessage'' = Some b"
  "json_find (JObject (json_obj [(''status'', a), (''errorMessage'', b), (''errorData'', d)])) ''errorData'' = Some d"
  by (simp_all add: json_find_obj)

lemma json_status: "Option.bind (json_find doc ''status'') json_string = Some st \<longleftrightarrow> json_find doc ''status'' = Some (JString st)"
  by (cases "json_find doc ''status''") (auto simp: json_string_def split: json.splits)

lemma reply_result_document:
  assumes "result_wf r" "reply_document r = Inr j"
  shows "\<exists>st. json_find j ''status'' = Some (JString st) \<and> reply_result j st = Inr (result_canon r)"
proof (cases r)
  case (FR_success v)
  then obtain d where d: "value_to_json v = Inr d"
    "j = JObject (json_obj [(''status'', JString ''success''), (''value'', d)])"
    using assms(2) by (auto simp: bindr_eq_Inr)
  then have "json_to_value d = Inr (canon_nan v)" using codec_roundtrip_aux(1) assms(1) FR_success by simp
  then show ?thesis
    unfolding d(2) reply_fields reply_result_def json_at_def FR_success by simp
next
  case (FR_error m)
  then have "j = JObject (json_obj [(''status'', JString ''error''), (''errorMessage'', JString m)])"
    using assms(2) by simp
  then show ?thesis unfolding FR_error by (simp add: reply_fields reply_result_def json_string_or_def)
next
  case (FR_app_error e)
  then obtain d where d: "value_to_json (ce_data e) = Inr d"
    "j = JObject (json_obj [(''status'', JString ''error''), (''errorMessage'', JString (ce_message e)), (''errorData'', d)])"
    using assms(2) by (auto simp: bindr_eq_Inr)
  then have "json_to_value d = Inr (canon_nan (ce_data e))" "d \<noteq> JNull"
    using codec_roundtrip_aux(1) [OF _ d(1)] not_null [OF _ d(1)] assms(1) FR_app_error by simp_all
  then show ?thesis
    unfolding d(2) FR_app_error by (simp add: reply_fields reply_result_def json_string_or_def)
qed

lemma reply_success:
  "reply_result doc st = Inr (FR_success v) \<longleftrightarrow>
     st = ''success'' \<and> (\<exists>d. json_find doc ''value'' = Some d \<and> json_to_value d = Inr v)"
proof (cases "st = ''success''")
  case True
  then show ?thesis
    by (cases "json_find doc ''value''") (simp_all add: reply_result_def json_at_def bindr_eq_Inr)
next
  case False
  then show ?thesis
    unfolding reply_result_def
    by (cases "json_string_or doc ''errorMessage'' ''unknown Convex error''"; cases "json_find doc ''errorData''")
       (simp_all add: bindr_eq_Inr)
qed

text \<open>
  \<open>C32\<close>: The caller of a one-shot call gets the result the deployment replied with, whatever the
  HTTP status: a success or an application error with its value, up to NaN payloads, an error with
  its message. A success is reported only for a response without transport error whose body is a
  document with status \<open>success\<close> and a value that decodes; everything else is an error result, never
  an exception.
\<close>

theorem http_reply:
  assumes "hp_error resp = []" and "jl_parse L (hp_body resp) = Inr j"
    and "result_wf r" and "reply_document r = Inr j"
  shows "parse_function_response L resp = result_canon r
    \<and> (\<forall>resp' v. parse_function_response L resp' = FR_success v \<longleftrightarrow>
         hp_error resp' = [] \<and> (\<exists>doc d. jl_parse L (hp_body resp') = Inr doc
           \<and> json_find doc ''status'' = Some (JString ''success'') \<and> json_find doc ''value'' = Some d
           \<and> json_to_value d = Inr v))"
proof (intro conjI allI)
  obtain st where "json_find j ''status'' = Some (JString st)" "reply_result j st = Inr (result_canon r)"
    using reply_result_document [OF assms(3,4)] by blast
  then show "parse_function_response L resp = result_canon r"
    unfolding parse_function_response_def by (simp add: assms(1,2) json_string_def)
next
  fix resp' v
  show "parse_function_response L resp' = FR_success v \<longleftrightarrow>
         hp_error resp' = [] \<and> (\<exists>doc d. jl_parse L (hp_body resp') = Inr doc
           \<and> json_find doc ''status'' = Some (JString ''success'') \<and> json_find doc ''value'' = Some d
           \<and> json_to_value d = Inr v)"
  proof (cases "hp_error resp' = [] \<and> (\<exists>doc. jl_parse L (hp_body resp') = Inr doc)")
    case True
    then obtain doc where doc: "hp_error resp' = []" "jl_parse L (hp_body resp') = Inr doc" by blast
    show ?thesis
    proof (cases "Option.bind (json_find doc ''status'') json_string")
      case None
      then have "json_find doc ''status'' \<noteq> Some (JString ''success'')" by (auto simp: json_string_def)
      then show ?thesis using doc None by (simp add: parse_function_response_def)
    next
      case (Some st)
      have "parse_function_response L resp' = FR_success v \<longleftrightarrow> reply_result doc st = Inr (FR_success v)"
        using doc Some by (cases "reply_result doc st") (simp_all add: parse_function_response_def)
      then show ?thesis using doc Some [unfolded json_status] unfolding reply_success by auto
    qed
  next
    case False
    then show ?thesis by (cases "jl_parse L (hp_body resp')") (auto simp: parse_function_response_def)
  qed
qed

text \<open>
  \<open>C33\<close>: A one-shot call sends one well-formed request. From a client made for an address with a
  scheme, with a token set: the URL is the address without trailing slashes and the endpoint, the
  headers carry the content type and the token in the form of its kind, and the body is the document
  of the canonical path, the format and the argument list, from which the arguments are read back.
\<close>

theorem http_request_spec:
  assumes "new_http_client url True = Inr c" and "value_wf (VObject args)"
    and "value_to_json (VObject args) = Inr d" and "jl_dump L d = Inr t"
    and "jl_parse L (''['' @ t @ '']'') = Inr (JArray [d])"
    and "jl_dump L (JObject [(''args'', JArray [d]), (''format'', JString ''convex_encoded_json''),
           (''path'', JString (canonicalize_udf_path path))]) = Inr text"
  shows "\<exists>n. url = hc_url c @ replicate n CHR ''/'' \<and> (hc_url c = [] \<or> last (hc_url c) \<noteq> CHR ''/'')
    \<and> find_sub (hc_url c) ''://'' \<noteq> None
    \<and> (\<forall>endpoint. http_call L (http_set_auth token c) endpoint path args =
         Inr \<lparr>hq_method = ''POST'', hq_url = hc_url c @ endpoint,
           hq_headers = (case at_type token of
               Auth_none \<Rightarrow> []
             | Auth_user \<Rightarrow> [(''Authorization'', ''Bearer '' @ at_value token)]
             | Auth_admin \<Rightarrow> [(''Authorization'', ''Convex '' @ at_value token)]) @ [(''Content-Type'', ''application/json'')],
           hq_body = text\<rparr>)
    \<and> json_to_value d = Inr (canon_nan (VObject args))"
proof -
  have c: "hc_url c = pop_slashes url" "find_sub (hc_url c) ''://'' \<noteq> None"
    using assms(1) by (auto simp: new_http_client_def Let_def split: if_splits)
  obtain n where n: "url = pop_slashes url @ replicate n CHR ''/''" using pop_slashes_spec(1) by blast
  have args: "serialize_args L args = Inr (''['' @ t @ '']'')"
    unfolding serialize_args_def to_wire_json_def assms(3) bindr.simps assms(4) by (rule refl)
  have doc: "json_obj [(''path'', JString p), (''format'', JString f), (''args'', a)]
      = [(''args'', a), (''format'', JString f), (''path'', JString p)]" for p f a
    by (simp add: json_obj_def)
  have "http_call L (http_set_auth token c) endpoint path args =
         Inr \<lparr>hq_method = ''POST'', hq_url = hc_url c @ endpoint,
           hq_headers = (case at_type token of
               Auth_none \<Rightarrow> []
             | Auth_user \<Rightarrow> [(''Authorization'', ''Bearer '' @ at_value token)]
             | Auth_admin \<Rightarrow> [(''Authorization'', ''Convex '' @ at_value token)]) @ [(''Content-Type'', ''application/json'')],
           hq_body = text\<rparr>" for endpoint
    unfolding http_call_def args bindr.simps assms(5) doc assms(6) Let_def
    by (simp add: http_set_auth_def split: auth_kind.split)
  then show ?thesis
    using n c pop_slashes_spec(2) [of url] codec_roundtrip_aux(1) [OF assms(2,3)] by metis
qed

subsection \<open>Instances\<close>

text \<open>A library that knows the texts of one exchange.\<close>

definition http_sample_lib :: json_lib where
  "http_sample_lib = \<lparr>
     jl_dump = (\<lambda>j. if j = JObject [] then Inr ''{}'' else Inr ''{request}''),
     jl_parse = (\<lambda>t. if t = ''[{}]'' then Inr (JArray [JObject []])
       else if t = ''{reply}'' then Inr (JObject [(''errorData'', JObject [(''$integer'', JString ''AQAAAAAAAAA='')]),
              (''errorMessage'', JString ''Oops''), (''status'', JString ''error'')])
       else Inl (Json_exception ''parse error''))\<rparr>"

theorem http_reply_witness:
  "parse_function_response http_sample_lib \<lparr>hp_status = 560, hp_body = ''{reply}'', hp_error = []\<rparr>
     = FR_app_error \<lparr>ce_message = ''Oops'', ce_data = VInt64 1\<rparr>"
proof -
  let ?r = "FR_app_error \<lparr>ce_message = ''Oops'', ce_data = VInt64 1\<rparr>"
  let ?j = "JObject [(''errorData'', JObject [(''$integer'', JString ''AQAAAAAAAAA='')]),
              (''errorMessage'', JString ''Oops''), (''status'', JString ''error'')]"
  have "result_wf ?r" "result_canon ?r = ?r" "reply_document ?r = Inr ?j" by code_simp+
  moreover have "jl_parse http_sample_lib ''{reply}'' = Inr ?j" by (simp add: http_sample_lib_def)
  ultimately show ?thesis
    using http_reply [of "\<lparr>hp_status = 560, hp_body = ''{reply}'', hp_error = []\<rparr>" http_sample_lib ?j ?r] by simp
qed

theorem http_request_spec_witness:
  "http_call http_sample_lib (http_set_auth (auth_token_admin ''key'' None) \<lparr>hc_url = ''https://x'', hc_auth_header = None\<rparr>)
     ''/api/query'' ''m:f'' []
   = Inr \<lparr>hq_method = ''POST'', hq_url = ''https://x/api/query'',
       hq_headers = [(''Authorization'', ''Convex key''), (''Content-Type'', ''application/json'')], hq_body = ''{request}''\<rparr>"
proof -
  have "new_http_client ''https://x//'' True = Inr \<lparr>hc_url = ''https://x'', hc_auth_header = None\<rparr>" by code_simp
  moreover have "value_wf (VObject []) \<and> value_to_json (VObject []) = Inr (JObject [])" by code_simp
  moreover have "jl_dump http_sample_lib (JObject []) = Inr ''{}''"
    "jl_parse http_sample_lib (''['' @ ''{}'' @ '']'') = Inr (JArray [JObject []])"
    "jl_dump http_sample_lib (JObject [(''args'', JArray [JObject []]), (''format'', JString ''convex_encoded_json''),
           (''path'', JString (canonicalize_udf_path ''m:f''))]) = Inr ''{request}''"
    by (simp_all add: http_sample_lib_def)
  ultimately show ?thesis
    using http_request_spec [of "''https://x//''" "\<lparr>hc_url = ''https://x'', hc_auth_header = None\<rparr>" "[]" "JObject []"
        http_sample_lib "''{}''" "''m:f''" "''{request}''" "auth_token_admin ''key'' None"]
    by (simp add: auth_token_admin_def)
qed

end
