(* ===== verification/FileStorage.thy ===== *)
theory FileStorage
  imports HttpClient
begin

section \<open>File storage (\<open>file_storage.h\<close>, \<open>src/file_storage.cpp\<close>)\<close>

text \<open>
  An upload and a download: the request handed to the transport, and what the completion does with
  the response. \<open>on_done\<close> belongs to the caller; \<open>throws\<close> says which results make it throw, with
  the text of the \<open>std::exception\<close>. A completion is the list of the calls of \<open>on_done\<close> and the text
  of the exception that leaves it, if one does.
\<close>

type_synonym completion = "function_result list \<times> string option"

definition call_done :: "(function_result \<Rightarrow> string option) \<Rightarrow> function_result \<Rightarrow> completion" where
  "call_done throws r = ([r], throws r)"

text \<open>\<open>std::string\<close> from bytes and back, byte by byte.\<close>

definition bytes_string :: "u8 list \<Rightarrow> string" where
  "bytes_string bs = map (\<lambda>b. char_of (unat b)) bs"

definition string_bytes :: "string \<Rightarrow> u8 list" where
  "string_bytes s = map (\<lambda>c. of_nat (of_char c)) s"

definition store_request :: "string \<Rightarrow> string \<Rightarrow> u8 list \<Rightarrow> http_request" where
  "store_request upload_url content_type data =
     \<lparr>hq_method = ''POST'', hq_url = upload_url, hq_headers = om_insert ''Content-Type'' content_type [],
      hq_body = bytes_string data\<rparr>"

definition store_done :: "json_lib \<Rightarrow> (function_result \<Rightarrow> string option) \<Rightarrow> http_response \<Rightarrow> completion" where
  "store_done L throws r =
     (if hp_error r \<noteq> [] then call_done throws (FR_error (''convex: upload transport error: '' @ hp_error r))
      else if hp_status r < 200 \<or> hp_status r \<ge> 300
      then call_done throws (FR_error (''convex: upload failed with HTTP '' @ int_to_string (hp_status r) @ '': '' @ hp_body r))
      else (let failed = (\<lambda>what. FR_error (''convex: unparsable upload response: '' @ what)) in
        case bindr (jl_parse L (hp_body r)) json_to_value of
          Inl e \<Rightarrow> call_done throws (failed (exn_what e))
        | Inr v \<Rightarrow>
            (case throws (FR_success v) of
               None \<Rightarrow> ([FR_success v], None)
             | Some what \<Rightarrow> ([FR_success v, failed what], throws (failed what)))))"

definition fetch_request :: "string \<Rightarrow> http_request" where
  "fetch_request url = \<lparr>hq_method = ''GET'', hq_url = url, hq_headers = [], hq_body = []\<rparr>"

definition fetch_done :: "(function_result \<Rightarrow> string option) \<Rightarrow> http_response \<Rightarrow> completion" where
  "fetch_done throws r =
     (if hp_error r \<noteq> [] then call_done throws (FR_error (''convex: download transport error: '' @ hp_error r))
      else if hp_status r < 200 \<or> hp_status r \<ge> 300
      then call_done throws (FR_error (''convex: download failed with HTTP '' @ int_to_string (hp_status r)))
      else call_done throws (FR_success (VBytes (string_bytes (hp_body r)))))"

lemma string_bytes_string [simp]: "string_bytes (bytes_string bs) = bs"
proof -
  have "(of_nat (of_char (char_of (unat b) :: char)) :: u8) = b" for b :: u8
  proof -
    have "unat b < 256" using unat_less_exp [of b] by simp
    then have "of_char (char_of (unat b) :: char) = unat b" by (simp add: of_char_of)
    then show ?thesis by simp
  qed
  then show ?thesis by (simp add: string_bytes_def bytes_string_def comp_def)
qed

definition http_success :: "http_response \<Rightarrow> bool" where
  "http_success r \<longleftrightarrow> hp_error r = [] \<and> 200 \<le> hp_status r \<and> hp_status r < 300"



end
