(* ===== verification/Futures.thy ===== *)
theory Futures
  imports ClientFacade ClientAnswers FileStorage
begin

section \<open>Futures, and the destruction of a client (\<open>client.cpp\<close>, \<open>http_client.cpp\<close>, \<open>file_storage.cpp\<close>)\<close>

text \<open>
  The overloads that return a \<open>std::future\<close> pass a callback that sets a shared promise. A promise
  is unset until \<open>set_value\<close>; a second \<open>set_value\<close> throws \<open>std::future_error\<close> and changes nothing.
  For the realtime client the promises are cells beside its state, each captured by one closure,
  and the closures run as their events are delivered.

  The second part is about ownership. The closure a one-shot query subscribes with owns the handle
  of its own subscription, so destroying the closure unsubscribes, which takes the lock.
\<close>

subsection \<open>Promises\<close>

datatype promise = P_unset | P_set function_result

text \<open>The promise after \<open>set_value\<close>, and whether it threw.\<close>

fun set_value :: "function_result \<Rightarrow> promise \<Rightarrow> promise \<times> bool" where
  "set_value r P_unset = (P_set r, False)"
| "set_value r (P_set r') = (P_set r', True)"

text \<open>Several calls, and how many of them threw.\<close>

fun set_values :: "function_result list \<Rightarrow> promise \<times> nat \<Rightarrow> promise \<times> nat" where
  "set_values [] (p, n) = (p, n)"
| "set_values (r # rs) (p, n) =
     (case set_value r p of (p', threw) \<Rightarrow> set_values rs (p', if threw then n + 1 else n))"

lemma set_values_set: "set_values rs (P_set r, n) = (P_set r, n + length rs)"
  by (induction rs arbitrary: n) simp_all

lemma set_values_spec:
  "set_values rs (P_unset, 0) =
     (case rs of [] \<Rightarrow> P_unset | r # _ \<Rightarrow> P_set r, length rs - 1)"
  by (cases rs) (simp_all add: set_values_set)

subsection \<open>HTTP calls and files\<close>

text \<open>\<open>as_future\<close>: the request that is sent, and the promise its completion sets.\<close>

definition as_future ::
  "(string \<Rightarrow> value_object \<Rightarrow> http_request result) \<Rightarrow> string \<Rightarrow> value_object \<Rightarrow> (http_request \<times> promise) result"
where
  "as_future call path args = bindr (call path args) (\<lambda>request. Inr (request, P_unset))"

definition http_query_future :: "json_lib \<Rightarrow> http_client \<Rightarrow> string \<Rightarrow> value_object \<Rightarrow> (http_request \<times> promise) result" where
  "http_query_future L c path args = as_future (http_query L c) path args"

definition http_mutation_future :: "json_lib \<Rightarrow> http_client \<Rightarrow> string \<Rightarrow> value_object \<Rightarrow> (http_request \<times> promise) result" where
  "http_mutation_future L c path args = as_future (http_mutation L c) path args"

definition http_action_future :: "json_lib \<Rightarrow> http_client \<Rightarrow> string \<Rightarrow> value_object \<Rightarrow> (http_request \<times> promise) result" where
  "http_action_future L c path args = as_future (http_action L c) path args"

definition http_future_done :: "json_lib \<Rightarrow> http_response \<Rightarrow> promise \<Rightarrow> promise \<times> bool" where
  "http_future_done L resp p = set_value (parse_function_response L resp) p"

text \<open>
  The completions of \<open>file_storage.cpp\<close> are given the callback that sets the promise; \<open>what\<close> is
  the text of the \<open>future_error\<close>.
\<close>

definition promise_throws :: "string \<Rightarrow> promise \<Rightarrow> function_result \<Rightarrow> string option" where
  "promise_throws what p r = (if snd (set_value r p) then Some what else None)"

definition store_future_done :: "json_lib \<Rightarrow> string \<Rightarrow> http_response \<Rightarrow> promise \<Rightarrow> promise \<times> string option" where
  "store_future_done L what resp p =
     (case store_done L (promise_throws what p) resp of
        (rs, e) \<Rightarrow> (fst (set_values rs (p, 0)), e))"

definition fetch_future_done :: "string \<Rightarrow> http_response \<Rightarrow> promise \<Rightarrow> promise \<times> string option" where
  "fetch_future_done what resp p =
     (case fetch_done (promise_throws what p) resp of
        (rs, e) \<Rightarrow> (fst (set_values rs (p, 0)), e))"

lemma promise_throws_unset: "promise_throws what P_unset = (\<lambda>_. None)"
  by (simp add: promise_throws_def fun_eq_iff)

text \<open>A transport that completes once settles each of these futures, and nothing throws.\<close>

lemma http_future_settled:
  "http_future_done L resp P_unset = (P_set (parse_function_response L resp), False)"
  by (simp add: http_future_done_def)

lemma file_future_settled:
  "\<exists>r. fetch_future_done what resp P_unset = (P_set r, None) \<and> (fr_ok r \<longleftrightarrow> http_success resp)"
  "\<exists>r. store_future_done L what resp P_unset = (P_set r, None)"
  by (auto simp: fetch_future_done_def fetch_done_def store_future_done_def store_done_def
      call_done_def promise_throws_unset http_success_def fr_ok_def Let_def split: sum.split)

subsection \<open>Mutations and actions of the realtime client\<close>

text \<open>
  The promises are cells, by address; a shared pointer is an address. A closure \<open>[promise]\<close> is an
  object with a name, as every callback, and with the address it has captured. When a
  section has delivered events, the closures among their callbacks run.
\<close>

record future_client =
  fc_client :: client_state
  fc_promises :: "promise list"
  fc_closures :: "(callback \<times> nat) list"
  fc_future_errors :: nat                \<comment> \<open>how often \<open>set_value\<close> has thrown\<close>

text \<open>\<open>promise->set_value(std::move(r))\<close>, the body of the closure.\<close>

fun run_closure :: "event \<Rightarrow> future_client \<Rightarrow> future_client" where
  "run_closure (Ev_result cb r) s =
     (case map_of (fc_closures s) cb of
        None \<Rightarrow> s
      | Some p \<Rightarrow>
          (case set_value r (fc_promises s ! p) of
             (pr, threw) \<Rightarrow>
               s\<lparr>fc_promises := (fc_promises s)[p := pr],
                 fc_future_errors := (if threw then fc_future_errors s + 1 else fc_future_errors s)\<rparr>))"
| "run_closure _ s = s"

definition after_section :: "client_state \<Rightarrow> future_client \<Rightarrow> future_client" where
  "after_section c s =
     fold run_closure (drop (length (cl_delivered (fc_client s))) (cl_delivered c)) (s\<lparr>fc_client := c\<rparr>)"

definition mutation_future ::
  "json_lib \<Rightarrow> string \<Rightarrow> value_object \<Rightarrow> callback \<Rightarrow> future_client \<Rightarrow> future_client \<times> nat result"
where
  "mutation_future L path args closure s =
     (let promise = length (fc_promises s);
          s1 = s\<lparr>fc_promises := fc_promises s @ [P_unset], fc_closures := (closure, promise) # fc_closures s\<rparr>
      in case do_request L True path args closure (fc_client s1) of
           (c, Some e) \<Rightarrow> (after_section c s1, Inl e)
         | (c, None) \<Rightarrow> (after_section c s1, Inr promise))"

definition action_future ::
  "json_lib \<Rightarrow> string \<Rightarrow> value_object \<Rightarrow> callback \<Rightarrow> future_client \<Rightarrow> future_client \<times> nat result"
where
  "action_future L path args closure s =
     (let promise = length (fc_promises s);
          s1 = s\<lparr>fc_promises := fc_promises s @ [P_unset], fc_closures := (closure, promise) # fc_closures s\<rparr>
      in case do_request L False path args closure (fc_client s1) of
           (c, Some e) \<Rightarrow> (after_section c s1, Inl e)
         | (c, None) \<Rightarrow> (after_section c s1, Inr promise))"

text \<open>Runs of a client whose application uses futures, among everything else.\<close>

datatype future_op =
    Client_does client_op
  | Mutation_future string value_object callback
  | Action_future string value_object callback

fun future_step :: "json_lib \<Rightarrow> future_client \<Rightarrow> future_op \<Rightarrow> future_client" where
  "future_step L s (Client_does op) = after_section (client_step L (fc_client s) op) s"
| "future_step L s (Mutation_future path args cb) = fst (mutation_future L path args cb s)"
| "future_step L s (Action_future path args cb) = fst (action_future L path args cb s)"

fun client_op_of :: "future_op \<Rightarrow> client_op" where
  "client_op_of (Client_does op) = op"
| "client_op_of (Mutation_future path args cb) = Do_request True path args cb"
| "client_op_of (Action_future path args cb) = Do_request False path args cb"

fun closure_of :: "future_op \<Rightarrow> callback list" where
  "closure_of (Client_does op) = []"
| "closure_of (Mutation_future path args cb) = [cb]"
| "closure_of (Action_future path args cb) = [cb]"

definition callbacks_used :: "future_op list \<Rightarrow> callback list" where
  "callbacks_used ops = concat (map (\<lambda>op. request_cbs (client_op_of op)) ops)"

text \<open>A closure is a new object: no other request of the run has it.\<close>

definition own_closures :: "future_op list \<Rightarrow> bool" where
  "own_closures ops \<longleftrightarrow> list_all (\<lambda>cb. count_list (callbacks_used ops) cb = 1) (concat (map closure_of ops))"

definition future_runs :: "json_lib \<Rightarrow> client_options \<Rightarrow> string \<Rightarrow> time \<Rightarrow> future_op list \<Rightarrow> bool" where
  "future_runs L opts sid now ops \<longleftrightarrow> client_runs L opts sid now (map client_op_of ops) \<and> own_closures ops"

definition new_futures :: "client_state \<Rightarrow> future_client" where
  "new_futures c = \<lparr>fc_client = c, fc_promises = [], fc_closures = [], fc_future_errors = 0\<rparr>"

definition future_run :: "json_lib \<Rightarrow> client_options \<Rightarrow> string \<Rightarrow> time \<Rightarrow> future_op list \<Rightarrow> future_client" where
  "future_run L opts sid now ops =
     (case new_client opts sid now of Inl e \<Rightarrow> undefined | Inr c \<Rightarrow> run (future_step L) (new_futures c) ops)"

subsubsection \<open>The client below\<close>

lemma run_closure_fields [simp]:
  "fc_client (run_closure e s) = fc_client s" "fc_closures (run_closure e s) = fc_closures s"
  "length (fc_promises (run_closure e s)) = length (fc_promises s)"
  by (cases e; simp split: option.split prod.split)+

lemma run_closures_fields [simp]:
  "fc_client (fold run_closure evs s) = fc_client s" "fc_closures (fold run_closure evs s) = fc_closures s"
  by (induction evs arbitrary: s) simp_all

lemma after_section_fields [simp]:
  "fc_client (after_section c s) = c" "fc_closures (after_section c s) = fc_closures s"
  by (simp_all add: after_section_def)

lemma future_step_client [simp]: "fc_client (future_step L s op) = client_step L (fc_client s) (client_op_of op)"
  by (cases op) (simp_all add: mutation_future_def action_future_def client_step_def Let_def
      split: prod.split option.split)

lemma future_steps_client: "fc_client (run (future_step L) s ops) = run (client_step L) (fc_client s) (map client_op_of ops)"
  by (induction ops arbitrary: s) simp_all

lemma future_run_client:
  "future_runs L opts sid now ops \<Longrightarrow> fc_client (future_run L opts sid now ops) = client_run L opts sid now (map client_op_of ops)"
  by (auto simp: future_runs_def client_runs_def future_run_def client_run_def future_steps_client new_futures_def
      split: sum.splits)

lemma future_run_append:
  "future_runs L opts sid now ops \<Longrightarrow> future_run L opts sid now (ops @ ops') = run (future_step L) (future_run L opts sid now ops) ops'"
  by (auto simp: future_runs_def client_runs_def future_run_def run_append split: sum.splits)

lemma callbacks_used_simps [simp]:
  "callbacks_used [] = []" "callbacks_used (op # ops) = request_cbs (client_op_of op) @ callbacks_used ops"
  "callbacks_used (ops @ ops') = callbacks_used ops @ callbacks_used ops'"
  by (simp_all add: callbacks_used_def)

lemma closures_used: "set (concat (map closure_of ops)) \<subseteq> set (callbacks_used ops)"
proof (induction ops)
  case (Cons op ops)
  then show ?case by (cases op) auto
qed simp

lemma future_runs_prefix:
  assumes "future_runs L opts sid now (ops @ ops')"
  shows "future_runs L opts sid now ops"
proof -
  have "count_list (callbacks_used ops) cb = 1" if cb: "cb \<in> set (concat (map closure_of ops))" for cb
  proof -
    have "count_list (callbacks_used (ops @ ops')) cb = 1"
      using assms cb by (auto simp: future_runs_def own_closures_def list_all_iff)
    moreover have "count_list (callbacks_used ops) cb \<noteq> 0"
      using cb closures_used [of ops] by (auto simp: count_list_0_iff)
    ultimately show ?thesis by simp
  qed
  then show ?thesis
    using assms by (auto simp: future_runs_def own_closures_def list_all_iff client_runs_def ok_run_append split: sum.splits)
qed

subsubsection \<open>The cells\<close>

text \<open>The results a callback got, and what its promise is after them.\<close>

definition results_of :: "callback \<Rightarrow> event list \<Rightarrow> function_result list" where
  "results_of cb evs =
     concat (map (\<lambda>e. case e of Ev_result cb' r \<Rightarrow> (if cb' = cb then [r] else []) | _ \<Rightarrow> []) evs)"

lemma results_of_simps [simp]:
  "results_of cb [] = []" "results_of cb (xs @ ys) = results_of cb xs @ results_of cb ys"
  by (simp_all add: results_of_def)

lemma results_of_count: "length (results_of cb evs) = count (mset (result_cbs evs)) cb"
proof (induction evs)
  case (Cons e evs)
  then show ?case by (cases e) (simp_all add: results_of_def)
qed simp

lemma results_of_member: "r \<in> set (results_of cb evs) \<longleftrightarrow> Ev_result cb r \<in> set evs"
  by (force simp: results_of_def split: event.splits)

definition promise_after :: "function_result list \<Rightarrow> promise" where
  "promise_after rs = (case rs of [] \<Rightarrow> P_unset | r # _ \<Rightarrow> P_set r)"

lemma promise_after_simps [simp]: "promise_after [] = P_unset" "promise_after (r # rs) = P_set r"
  by (simp_all add: promise_after_def)

text \<open>Every closure has its own cell, and the cell holds what the closure got.\<close>

definition cells_hold :: "event list \<Rightarrow> future_client \<Rightarrow> bool" where
  "cells_hold D s \<longleftrightarrow> distinct (map fst (fc_closures s)) \<and> distinct (map snd (fc_closures s))
     \<and> (\<forall>(cb, p) \<in> set (fc_closures s).
          p < length (fc_promises s) \<and> fc_promises s ! p = promise_after (results_of cb D))"

lemma cells_hold_closure:
  assumes "cells_hold D s" and once: "\<forall>cb \<in> fst ` set (fc_closures s). length (results_of cb (D @ [e])) \<le> 1"
  shows "cells_hold (D @ [e]) (run_closure e s) \<and> fc_future_errors (run_closure e s) = fc_future_errors s"
proof (cases "\<exists>cb r p. e = Ev_result cb r \<and> map_of (fc_closures s) cb = Some p")
  case True
  then obtain cb r p where e: "e = Ev_result cb r" and p: "map_of (fc_closures s) cb = Some p" by blast
  have dist: "distinct (map fst (fc_closures s))" "distinct (map snd (fc_closures s))"
    and cells: "\<And>c q. (c, q) \<in> set (fc_closures s) \<Longrightarrow>
      q < length (fc_promises s) \<and> fc_promises s ! q = promise_after (results_of c D)"
    using assms(1) by (auto simp: cells_hold_def)
  have mem: "(cb, p) \<in> set (fc_closures s)" using p by (rule map_of_SomeD)
  have "length (results_of cb (D @ [e])) \<le> 1" using once mem by force
  then have none: "results_of cb D = []" by (simp add: e results_of_def)
  have run: "run_closure e s = s\<lparr>fc_promises := (fc_promises s)[p := P_set r]\<rparr>"
    using cells [OF mem] by (simp add: e p none)
  have res: "results_of cb [e] = [r]" "c \<noteq> cb \<Longrightarrow> results_of c [e] = []" for c by (simp_all add: e results_of_def)
  have "(fc_promises s)[p := P_set r] ! q = promise_after (results_of c (D @ [e]))" if c: "(c, q) \<in> set (fc_closures s)" for c q
  proof (cases "q = p")
    case True
    then have "c = cb" using dist(2) c mem by (fastforce simp: distinct_map inj_on_def)
    then show ?thesis using True cells [OF mem] by (simp add: none res)
  next
    case False
    then have "c \<noteq> cb" using dist(1) c mem by (fastforce simp: distinct_map inj_on_def)
    then show ?thesis using False cells [OF c] by (simp add: res)
  qed
  then show ?thesis using dist cells by (simp add: cells_hold_def run) blast
next
  case False
  have "run_closure e s = s"
    using False by (cases e) (auto split: option.split)
  moreover have "results_of cb [e] = []" if "cb \<in> fst ` set (fc_closures s)" for cb
  proof -
    have "map_of (fc_closures s) cb \<noteq> None" using that by (simp add: map_of_eq_None_iff)
    then show ?thesis using False by (cases e) (auto simp: results_of_def)
  qed
  ultimately show ?thesis using assms(1) by (force simp: cells_hold_def)
qed

lemma cells_hold_closures:
  "\<lbrakk>cells_hold D s; \<forall>cb \<in> fst ` set (fc_closures s). length (results_of cb (D @ evs)) \<le> 1\<rbrakk>
   \<Longrightarrow> cells_hold (D @ evs) (fold run_closure evs s) \<and> fc_future_errors (fold run_closure evs s) = fc_future_errors s"
proof (induction evs arbitrary: D s)
  case (Cons e evs)
  have "\<forall>cb \<in> fst ` set (fc_closures s). length (results_of cb (D @ [e])) \<le> 1"
    using Cons.prems(2) by (auto simp: results_of_def)
  note one = cells_hold_closure [OF Cons.prems(1) this]
  have "cells_hold ((D @ [e]) @ evs) (fold run_closure evs (run_closure e s))
      \<and> fc_future_errors (fold run_closure evs (run_closure e s)) = fc_future_errors (run_closure e s)"
    by (rule Cons.IH) (use one Cons.prems(2) in simp_all)
  then show ?case using one by simp
qed simp

text \<open>How often a callback is called, over a run.\<close>

lemma registered_used: "count (mset (registered L s (map client_op_of ops))) cb \<le> count_list (callbacks_used ops) cb"
proof (induction ops arbitrary: s)
  case (Cons op ops)
  have "count (mset (registers L s (client_op_of op))) cb \<le> count_list (request_cbs (client_op_of op)) cb"
    by (cases "client_op_of op") simp_all
  then show ?case
    using Cons [of "client_step L s (client_op_of op)"] by simp
qed simp

lemma held_used:
  assumes "client_runs L opts sid now (map client_op_of ops)"
  shows "count (results_held (client_run L opts sid now (map client_op_of ops))) cb \<le> count_list (callbacks_used ops) cb"
    "length (results_of cb (cl_delivered (client_run L opts sid now (map client_op_of ops)))) \<le> count_list (callbacks_used ops) cb"
proof -
  let ?s = "client_run L opts sid now (map client_op_of ops)"
  show held: "count (results_held ?s) cb \<le> count_list (callbacks_used ops) cb"
    using registered_used unfolding client_run_results [OF assms] by (simp add: requests_made_def split: sum.split)
  have "length (results_of cb (cl_delivered ?s)) \<le> count (results_held ?s) cb"
    by (simp add: results_of_count results_held_def)
  with held show "length (results_of cb (cl_delivered ?s)) \<le> count_list (callbacks_used ops) cb" by linarith
qed

lemma client_step_delivers:
  obtains new where "cl_delivered (client_step L s op) = cl_delivered s @ new"
  using step_past [of L s op] by blast

text \<open>The state before the sections of a call: the new cell and the closure that has captured it.\<close>

fun with_closure :: "future_op \<Rightarrow> future_client \<Rightarrow> future_client" where
  "with_closure (Client_does op) s = s"
| "with_closure (Mutation_future path args cb) s =
     s\<lparr>fc_promises := fc_promises s @ [P_unset], fc_closures := (cb, length (fc_promises s)) # fc_closures s\<rparr>"
| "with_closure (Action_future path args cb) s =
     s\<lparr>fc_promises := fc_promises s @ [P_unset], fc_closures := (cb, length (fc_promises s)) # fc_closures s\<rparr>"

lemma future_step_eq:
  "future_step L s op = after_section (client_step L (fc_client s) (client_op_of op)) (with_closure op s)"
  by (cases op) (simp_all add: mutation_future_def action_future_def client_step_def Let_def split: prod.split option.split)

lemma with_closure_fields [simp]:
  "fc_client (with_closure op s) = fc_client s" "fc_future_errors (with_closure op s) = fc_future_errors s"
  "map fst (fc_closures (with_closure op s)) = closure_of op @ map fst (fc_closures s)"
  by (cases op; simp)+

lemma with_closure_cells:
  assumes "cells_hold D s" and "\<And>cb. cb \<in> set (closure_of op) \<Longrightarrow> cb \<notin> fst ` set (fc_closures s) \<and> results_of cb D = []"
  shows "cells_hold D (with_closure op s)"
proof -
  have ne: "p \<noteq> length (fc_promises s)" if "(cb, p) \<in> set (fc_closures s)" for cb p
    using assms(1) that by (auto simp: cells_hold_def)
  have "length (fc_promises s) \<notin> snd ` set (fc_closures s)" using ne by (metis imageE prod.collapse)
  then show ?thesis using assms by (cases op) (auto simp: cells_hold_def nth_append)
qed

lemma future_run_cells:
  "future_runs L opts sid now ops \<Longrightarrow>
     cells_hold (cl_delivered (fc_client (future_run L opts sid now ops))) (future_run L opts sid now ops)
     \<and> fst ` set (fc_closures (future_run L opts sid now ops)) = set (concat (map closure_of ops))
     \<and> fc_future_errors (future_run L opts sid now ops) = 0"
proof (induction ops rule: rev_induct)
  case Nil
  then obtain c where "new_client opts sid now = Inr c" by (auto simp: future_runs_def client_runs_def split: sum.splits)
  then show ?case by (simp add: future_run_def new_futures_def cells_hold_def)
next
  case (snoc op ops)
  let ?s = "future_run L opts sid now ops" and ?s' = "future_run L opts sid now (ops @ [op])"
  have runs: "future_runs L opts sid now ops" using snoc.prems by (rule future_runs_prefix)
  note IH = snoc.IH [OF runs]
  have client: "fc_client ?s = client_run L opts sid now (map client_op_of ops)"
    "fc_client ?s' = client_run L opts sid now (map client_op_of (ops @ [op]))"
    using future_run_client [OF runs] future_run_client [OF snoc.prems] by simp_all
  have once: "count_list (callbacks_used (ops @ [op])) cb = 1" if "cb \<in> set (concat (map closure_of (ops @ [op])))" for cb
    using snoc.prems that by (auto simp: future_runs_def own_closures_def list_all_iff)
  have fresh: "cb \<notin> fst ` set (fc_closures ?s) \<and> results_of cb (cl_delivered (fc_client ?s)) = []"
    if cb: "cb \<in> set (closure_of op)" for cb
  proof -
    have "count_list (request_cbs (client_op_of op)) cb = 1" using cb by (cases op) simp_all
    then have none: "count_list (callbacks_used ops) cb = 0" using once [of cb] cb by simp
    then have "cb \<notin> set (concat (map closure_of ops))" using closures_used [of ops] by (auto simp: count_list_0_iff)
    moreover have "results_of cb (cl_delivered (fc_client ?s)) = []"
      using held_used(2) [of L opts sid now ops cb] runs none by (simp add: future_runs_def client)
    ultimately show ?thesis using IH by simp
  qed
  have cells: "cells_hold (cl_delivered (fc_client ?s)) (with_closure op ?s)"
    using with_closure_cells [OF _ fresh] IH by blast
  let ?c = "client_step L (fc_client ?s) (client_op_of op)"
  obtain new where new: "cl_delivered ?c = cl_delivered (fc_client ?s) @ new" by (rule client_step_delivers)
  have s': "?s' = after_section ?c (with_closure op ?s)"
    using future_run_append [OF runs, of "[op]"] by (simp add: future_step_eq)
  have names: "fst ` set (fc_closures (with_closure op ?s)) = set (concat (map closure_of (ops @ [op])))"
    unfolding set_map [symmetric] with_closure_fields(3) by (use IH in \<open>auto simp: image_Un\<close>)
  have "cl_delivered (client_run L opts sid now (map client_op_of (ops @ [op]))) = cl_delivered (fc_client ?s) @ new"
    unfolding client(2) [symmetric] s' by (simp add: new)
  then have "length (results_of cb (cl_delivered (fc_client ?s) @ new)) \<le> 1"
    if "cb \<in> fst ` set (fc_closures (with_closure op ?s))" for cb
    using held_used(2) [of L opts sid now "ops @ [op]" cb] once [of cb] that snoc.prems
    unfolding names by (simp add: future_runs_def)
  then have "cells_hold (cl_delivered ?c) (fold run_closure new ((with_closure op ?s)\<lparr>fc_client := ?c\<rparr>))
      \<and> fc_future_errors (fold run_closure new ((with_closure op ?s)\<lparr>fc_client := ?c\<rparr>)) = fc_future_errors ?s"
    using cells_hold_closures [of "cl_delivered (fc_client ?s)" "(with_closure op ?s)\<lparr>fc_client := ?c\<rparr>" new] cells
    by (simp add: new cells_hold_def)
  then show ?case using IH names unfolding s' by (simp add: after_section_def new)
qed

text \<open>A closure keeps its cell.\<close>

lemma closures_stay: "set (fc_closures s) \<subseteq> set (fc_closures (run (future_step L) s ops))"
proof (induction ops arbitrary: s)
  case (Cons op ops)
  have "set (fc_closures s) \<subseteq> set (fc_closures (future_step L s op))"
    by (cases op) (auto simp: future_step_eq)
  then show ?case using Cons [of "future_step L s op"] by auto
qed simp

subsubsection \<open>A future from its call on\<close>

text \<open>Where the callback of a request can be before it runs.\<close>

definition request_waits :: "client_state \<Rightarrow> callback list" where
  "request_waits s = map snd (cl_pending s) @ cl_orphaned s
     @ result_cbs (concat (cl_in_flight s) @ cl_event_queue s @ worker_events (cl_worker s))"

lemma results_held_waits:
  "results_held s = mset (request_waits s) + mset (result_cbs (cl_delivered s))"
  by (simp add: results_held_def request_waits_def ac_simps)

definition future_call :: "bool \<Rightarrow> string \<Rightarrow> value_object \<Rightarrow> callback \<Rightarrow> future_op" where
  "future_call mut path args cb = (if mut then Mutation_future path args cb else Action_future path args cb)"

lemma future_call_simps [simp]:
  "client_op_of (future_call mut path args cb) = Do_request mut path args cb" "closure_of (future_call mut path args cb) = [cb]"
  by (simp_all add: future_call_def)

lemma future_call_returns:
  assumes "(if mut then mutation_future else action_future) L path args cb s = (s1, Inr fut)"
  shows "s1 = future_step L s (future_call mut path args cb)"
    "do_request L mut path args cb (fc_client s) = (fc_client s1, None)" "(cb, fut) \<in> set (fc_closures s1)"
proof -
  show s1: "s1 = future_step L s (future_call mut path args cb)" using assms by (cases mut) (simp_all add: future_call_def)
  have "snd (do_request L mut path args cb (fc_client s)) = None" "fut = length (fc_promises s)"
    using assms by (cases mut; auto simp: mutation_future_def action_future_def Let_def split: prod.splits option.splits)+
  then show "do_request L mut path args cb (fc_client s) = (fc_client s1, None)" "(cb, fut) \<in> set (fc_closures s1)"
    unfolding s1 by (simp_all add: client_step_def prod_eq_iff, simp add: future_step_eq, simp add: future_call_def)
qed

lemma future_cell:
  assumes "future_runs L opts sid now ops" and "(cb, fut) \<in> set (fc_closures (future_run L opts sid now ops))"
  shows "fc_promises (future_run L opts sid now ops) ! fut =
    promise_after (results_of cb (cl_delivered (fc_client (future_run L opts sid now ops))))"
  using future_run_cells [OF assms(1)] assms(2) by (auto simp: cells_hold_def)

lemma registered_append:
  "registered L s (ops @ ops') = registered L s ops @ registered L (run (client_step L) s ops) ops'"
  by (induction ops arbitrary: s) simp_all

text \<open>The call in its run: the client at it, that its callback is new, and that it is registered once.\<close>

lemma future_call_run:
  assumes runs: "future_runs L opts sid now (pre @ future_call mut path args cb # post)"
    and call: "do_request L mut path args cb (client_run L opts sid now (map client_op_of pre)) = (c1, None)"
  defines "c0 \<equiv> client_run L opts sid now (map client_op_of pre)"
    and "c \<equiv> client_run L opts sid now (map client_op_of (pre @ future_call mut path args cb # post))"
  shows "client_inv L c0" "client_ok L c0 (Do_request mut path args cb)" "client_inv L c1"
    "ok_run (client_step L) (client_ok L) c1 (map client_op_of post)" "c = run (client_step L) c1 (map client_op_of post)"
    "cb \<notin># results_held c0" "cb \<notin> set (concat (map request_cbs (map client_op_of post)))"
    "count (results_held c) cb = 1"
proof -
  let ?op = "future_call mut path args cb" and ?ops = "pre @ future_call mut path args cb # post"
  obtain s where s: "new_client opts sid now = Inr s" "ok_run (client_step L) (client_ok L) s (map client_op_of ?ops)"
    using runs by (auto simp: future_runs_def client_runs_def split: sum.splits)
  have c0: "c0 = run (client_step L) s (map client_op_of pre)" by (simp add: c0_def client_run_def s(1))
  have c1: "c1 = client_step L c0 (Do_request mut path args cb)" using call by (simp add: client_step_def c0_def)
  show "client_ok L c0 (Do_request mut path args cb)" "ok_run (client_step L) (client_ok L) c1 (map client_op_of post)"
    using s(2) by (simp_all add: ok_run_append c0 c1)
  show "c = run (client_step L) c1 (map client_op_of post)" by (simp add: c_def client_run_def s(1) run_append c0 c1)
  have pre: "future_runs L opts sid now pre" by (rule future_runs_prefix [OF runs])
  have "client_runs L opts sid now (map client_op_of pre)" using pre by (simp add: future_runs_def)
  from client_run_inv [OF this] show inv: "client_inv L c0" by (simp add: c0_def)
  show "client_inv L c1"
    unfolding c1 by (rule cl.step_keeps [OF inv]) fact
  have once: "count_list (callbacks_used ?ops) cb = 1"
    using runs by (auto simp: future_runs_def own_closures_def list_all_iff)
  then have none: "count_list (callbacks_used pre) cb = 0" "count_list (callbacks_used post) cb = 0" by simp_all
  show "cb \<notin># results_held c0"
    using held_used(1) [of L opts sid now pre cb] none(1) pre by (simp add: future_runs_def c0_def not_in_iff)
  show "cb \<notin> set (concat (map request_cbs (map client_op_of post)))"
    using none(2) by (simp add: count_list_0_iff callbacks_used_def)
  have "registers L c0 (Do_request mut path args cb) = [cb]"
  proof (cases "cl_stopping c0")
    case False
    have "is_ok (serialize_args L args)"
      using do_request_made [OF False client_invD(4,3) [OF inv] call [folded c0_def]] by auto
    then show ?thesis by simp
  qed simp
  then have "count (mset (requests_made L opts sid now (map client_op_of ?ops))) cb \<ge> 1"
    by (simp add: requests_made_def s(1) registered_append c0)
  moreover have "count (results_held c) cb \<le> 1"
    using held_used(1) [of L opts sid now ?ops cb] runs once by (simp add: future_runs_def c_def)
  moreover have "results_held c = mset (requests_made L opts sid now (map client_op_of ?ops))"
    unfolding c_def by (rule client_run_results) (use runs in \<open>simp add: future_runs_def\<close>)
  ultimately show "count (results_held c) cb = 1" by (metis le_antisym)
qed

text \<open>What the call does, and where the results the callback gets later come from.\<close>

lemma request_call:
  assumes call: "do_request L mut path args cb c0 = (c1, None)" and inv: "client_inv L c0" and new: "cb \<notin># results_held c0"
  defines "rid \<equiv> bc_next_request_id (cl_base c0)"
  shows "if cl_stopping c0 then cl_stopping c1 \<and> results_of cb (cl_delivered c1) = [shut_down_error]
    else results_of cb (cl_delivered c1) = [] \<and> map_of (cl_pending c1) rid = Some cb
      \<and> (\<exists>args_json. serialize_args L args = Inr args_json
           \<and> map_of (bc_ongoing_requests (cl_base c1)) rid = Some (made_request mut rid path args_json))"
proof -
  have "length (results_of cb (cl_delivered c0)) = 0"
    unfolding results_of_count using new by (simp add: results_held_waits)
  then have none: "results_of cb (cl_delivered c0) = []" by simp
  show ?thesis
  proof (cases "cl_stopping c0")
    case True
    then show ?thesis using call none by (auto simp: do_request_def results_of_def)
  next
    case False
    from do_request_made [OF False client_invD(4,3) [OF inv] call] obtain a b where
      "serialize_args L args = Inr a"
      "c1 = fst (drain_outgoing L (c0\<lparr>cl_base := b, cl_pending := om_insert rid cb (cl_pending c0)\<rparr>))"
      "bc_ongoing_requests b = om_insert rid (made_request mut rid path a) (bc_ongoing_requests (cl_base c0))"
      unfolding rid_def by blast
    then show ?thesis using False none by (simp add: drain_requests_same drain_events_same)
  qed
qed

lemma request_origin:
  assumes call: "do_request L mut path args cb c0 = (c1, None)" and inv: "client_inv L c0" "client_inv L c1"
    and ok: "client_ok L c0 (Do_request mut path args cb)" and new: "cb \<notin># results_held c0" and run: "\<not> cl_stopping c0"
    and rest: "ok_run (client_step L) (client_ok L) c1 ops" "cb \<notin> set (concat (map request_cbs ops))"
    and got: "Ev_result cb r \<in> set (cl_delivered (run (client_step L) c1 ops))"
  shows "r \<in> set (answers L (bc_next_request_id (cl_base c0)) c1 ops) \<or> r = connection_lost \<and> \<not> mut
    \<or> r = shut_down_error \<and> cl_stopping (run (client_step L) c1 ops)"
proof -
  have free: "request_id_free (cl_base c0)" using ok by (simp add: client_ok_def)
  from traced_run [OF traced_made [OF run client_invD(4,3) [OF inv(1)] call free new] inv(2) rest]
  show ?thesis using got by (auto simp: traced_def may_get_def all_events_def split: if_splits)
qed

text \<open>
  \<open>C6\<close>: The future of a mutation or an action, in any run of the client. The call makes a request of
  its kind, with the canonical path and the arguments, unless the client has been shut down, when the
  future is failed at once. From then on, whatever happens, \<open>set_value\<close> never throws and the future is
  unset exactly while the request waits. Once it is set, it holds a result that the server sent for
  this request, on a connection the client was on; or the loss of the connection, for an action
  only; or the error of a client that is shut down. When \<open>shutdown\<close> has returned and the
  deliveries have run it is set: it is never broken.
\<close>

theorem request_future_settled:
  assumes runs: "future_runs L opts sid now (pre @ future_call mut path args cb # post)"
  defines "s0 \<equiv> future_run L opts sid now pre"
    and "s \<equiv> future_run L opts sid now (pre @ future_call mut path args cb # post)"
  assumes call: "(if mut then mutation_future else action_future) L path args cb s0 = (s1, Inr fut)"
  defines "c0 \<equiv> fc_client s0" and "c1 \<equiv> fc_client s1" and "c \<equiv> fc_client s"
  defines "rid \<equiv> bc_next_request_id (cl_base c0)"
  shows "(if cl_stopping c0 then fc_promises s1 ! fut = P_set shut_down_error
       else fc_promises s1 ! fut = P_unset \<and> map_of (cl_pending c1) rid = Some cb
         \<and> (\<exists>args_json. serialize_args L args = Inr args_json
              \<and> map_of (bc_ongoing_requests (cl_base c1)) rid = Some (made_request mut rid path args_json)))
    \<and> fc_future_errors s = 0
    \<and> (fc_promises s ! fut = P_unset \<longleftrightarrow> cb \<in> set (request_waits c))
    \<and> (\<forall>r. fc_promises s ! fut = P_set r \<longrightarrow>
          r \<in> set (answers L rid c1 (map client_op_of post))
          \<or> r = connection_lost \<and> \<not> mut
          \<or> r = shut_down_error \<and> cl_stopping c)
    \<and> (cl_stopping c \<and> cl_orphaned c = [] \<and> cl_worker c = W_done \<and> cl_event_queue c = [] \<and> cl_in_flight c = []
        \<longrightarrow> (\<exists>r. fc_promises s ! fut = P_set r))"
proof -
  let ?call = "future_call mut path args cb"
  have pre: "future_runs L opts sid now pre" and upto: "future_runs L opts sid now (pre @ [?call])"
    using future_runs_prefix [of L opts sid now "pre @ [?call]" post] future_runs_prefix [OF runs] runs by simp_all
  note ret = future_call_returns [OF call]
  have s1: "s1 = future_run L opts sid now (pre @ [?call])" and s: "s = run (future_step L) s1 post"
    using future_run_append [OF pre, of "[?call]"] future_run_append [OF upto, of post] ret(1)
    by (simp_all add: s0_def s_def)
  have clients: "c0 = client_run L opts sid now (map client_op_of pre)"
      "c = client_run L opts sid now (map client_op_of (pre @ ?call # post))"
    unfolding c0_def c_def s0_def s_def by (rule future_run_client [OF pre], rule future_run_client [OF runs])
  have made: "do_request L mut path args cb c0 = (c1, None)" using ret(2) by (simp add: c0_def c1_def)
  note R = future_call_run [OF runs made [unfolded clients(1)], folded clients]
  have cell: "fc_promises s1 ! fut = promise_after (results_of cb (cl_delivered c1))"
      "fc_promises s ! fut = promise_after (results_of cb (cl_delivered c))"
    using future_cell [OF upto, of cb fut] future_cell [OF runs, of cb fut] ret(3) closures_stay [of s1 L post]
    unfolding s1 [symmetric] s_def [symmetric] c1_def c_def s by auto
  obtain new where new: "cl_delivered c = cl_delivered c1 @ new" "cl_stopping c1 \<longrightarrow> cl_stopping c"
    using run_past [of L c1 "map client_op_of post"] unfolding R(5) by blast
  have one: "count (mset (request_waits c)) cb + length (results_of cb (cl_delivered c)) = 1"
    using R(8) by (simp add: results_held_waits results_of_count)
  note at_call = request_call [OF made R(1,6)]
  have over: "cb \<notin> set (request_waits c)"
    if "cl_stopping c" "cl_orphaned c = []" "cl_worker c = W_done" "cl_event_queue c = []" "cl_in_flight c = []"
    using that client_invD(3) [OF client_run_inv, of L opts sid now "map client_op_of (pre @ ?call # post)", folded clients(2)] runs
    by (simp add: request_waits_def pending_ok_def future_runs_def)
  have origin: "r \<in> set (answers L rid c1 (map client_op_of post)) \<or> r = connection_lost \<and> \<not> mut
      \<or> r = shut_down_error \<and> cl_stopping c" if r: "results_of cb (cl_delivered c) = r # rs" for r rs
  proof (cases "cl_stopping c0")
    case True
    then show ?thesis using at_call new r by simp
  next
    case False
    have "Ev_result cb r \<in> set (cl_delivered c)" using r results_of_member [of r cb "cl_delivered c"] by simp
    then show ?thesis
      using request_origin [OF made R(1,3,2,6) False R(4,7)] unfolding R(5) [symmetric] rid_def by blast
  qed
  have waits: "cb \<in> set (request_waits c) \<longleftrightarrow> results_of cb (cl_delivered c) = []"
    using one count_eq_zero_iff [of "mset (request_waits c)" cb] by (cases "results_of cb (cl_delivered c)") auto
  have "fc_future_errors s = 0" using future_run_cells [OF runs] by (simp add: s_def)
  then show ?thesis
    using at_call waits over origin unfolding cell rid_def
    by (cases "results_of cb (cl_delivered c)") (auto split: if_splits)
qed

text \<open>A mutation that is sent, answered, and released by the transition that reaches it.\<close>

definition sample_answered :: "future_op list" where
  "sample_answered = map Client_does [Worker_pass (at_time 0), Connect_returns (at_time 1) Conn_made, Ws_open (at_time 2) 1,
     Ws_message (at_time 3) 1 ''mutated'', Ws_message (at_time 4) 1 ''moved'', Run_delivery 0, Process_events]"

lemma request_future_settled_witness:
  "fc_promises (future_run sample_lib sample_opts ''s'' 0
      ([Client_does (Do_subscribe ''messages:list'' [] 1)] @ future_call True ''messages:send'' [] 7 # sample_answered)) ! 0
   = P_set (FR_success VNull)"
proof -
  let ?pre = "[Client_does (Do_subscribe ''messages:list'' [] 1)]"
  let ?ops = "?pre @ future_call True ''messages:send'' [] 7 # sample_answered"
  let ?before = "future_run sample_lib sample_opts ''s'' 0 ?pre" and ?final = "future_run sample_lib sample_opts ''s'' 0 ?ops"
  let ?called = "fst (mutation_future sample_lib ''messages:send'' [] 7 ?before)"
  have runs: "future_runs sample_lib sample_opts ''s'' 0 ?ops"
    and ret: "snd (mutation_future sample_lib ''messages:send'' [] 7 ?before) = Inr 0"
    and answers: "answers sample_lib (bc_next_request_id (cl_base (fc_client ?before))) (fc_client ?called) (map client_op_of sample_answered) =
      [FR_success VNull]"
    and waits: "\<not> List.member (request_waits (fc_client ?final)) 7" "\<not> cl_stopping (fc_client ?final)"
    by code_simp+
  have call: "(if True then mutation_future else action_future) sample_lib ''messages:send'' [] 7 ?before = (?called, Inr 0)"
    using ret by (simp add: prod_eq_iff)
  note settled = request_future_settled [OF runs call, unfolded answers]
  have "fc_promises ?final ! 0 \<noteq> P_unset" using settled waits(1) by (simp add: List.member_iff)
  then obtain r where r: "fc_promises ?final ! 0 = P_set r" by (cases "fc_promises ?final ! 0") simp_all
  then have "r = FR_success VNull" using settled waits(2) by simp
  then show ?thesis using r by simp
qed

subsection \<open>One-shot queries and the destruction of the client\<close>

text \<open>
  \<open>client::query\<close> as it runs in pumped mode, where the first result comes after the handle has
  been assigned; the future of the query holds what its callback got.
\<close>

definition client_query ::
  "json_lib \<Rightarrow> string \<Rightarrow> value_object \<Rightarrow> callback \<Rightarrow> client_state \<Rightarrow> one_shot \<times> client_state \<times> exn option"
where
  "client_query L path args cb s =
     (case client_subscribe L path args cb s of
        (s', Inl e) \<Rightarrow> (one_shot_new, s', Some e)
      | (s', Inr None) \<Rightarrow> (one_shot_new, s', None)
      | (s', Inr (Some sid)) \<Rightarrow>
          (case one_shot_do L (one_shot_new, s') (Os_assign sid) of (q, s'') \<Rightarrow> (q, s'', None)))"

definition query_future :: "one_shot \<Rightarrow> promise \<times> nat" where
  "query_future q = set_values (os_results q) (P_unset, 0)"

text \<open>
  The closures in the table of subscribers, and the copies of closures elsewhere: an update on its
  way holds one.
\<close>

definition subscribed_closures :: "client_state \<Rightarrow> callback list" where
  "subscribed_closures s = concat (map (\<lambda>(_, entries). map se_cb entries) (cl_subs s))"

fun update_cb :: "event \<Rightarrow> callback list" where
  "update_cb (Ev_update cb r) = [cb]"
| "update_cb _ = []"

definition copied_closures :: "client_state \<Rightarrow> callback list" where
  "copied_closures s =
     concat (map update_cb (concat (cl_in_flight s) @ cl_event_queue s @ worker_events (cl_worker s)))"

text \<open>
  The first section of \<open>shutdown\<close> clears the table while it holds \<open>mu\<close>. A closure without
  another copy is destroyed there, with what it owns: for a handle that is not empty that is
  \<open>unsubscribe\<close>, whose \<open>do_unsubscribe\<close> locks \<open>mu\<close> again on the same thread. \<open>std::mutex\<close> is not
  recursive: the result \<open>None\<close>. \<open>owned\<close> gives the handle a closure owns.
\<close>

definition destroyed_by_clear :: "client_state \<Rightarrow> callback list" where
  "destroyed_by_clear s = filter (\<lambda>cb. cb \<notin> set (copied_closures s)) (subscribed_closures s)"

definition shutdown_section :: "(callback \<Rightarrow> sub_handle) \<Rightarrow> client_state \<Rightarrow> client_state option" where
  "shutdown_section owned s =
     (if cl_stopping s then Some s
      else if list_ex (\<lambda>cb. owned cb \<noteq> None) (destroyed_by_clear s) then None
      else Some (shutdown_begin s))"

lemma subscribed_lookup:
  "map_of (cl_subs s) k = Some entries \<Longrightarrow> e \<in> set entries \<Longrightarrow> se_cb e \<in> set (subscribed_closures s)"
  by (force simp: subscribed_closures_def dest: map_of_SomeD)

lemma subscribed_added: "cl_subs s' = add_entry sid cb m \<Longrightarrow> cb \<in> set (subscribed_closures s')"
  using subscribed_lookup [of s' "si_query sid" _ "\<lparr>se_index = si_index sid, se_cb = cb\<rparr>"]
  by (simp add: add_entry_def)

lemma do_subscribe_closures:
  assumes "do_subscribe L path args cb s = (s', Inr sid)"
    and "latest_result (cl_base s') (si_query sid) = None"
  shows "cb \<in> set (subscribed_closures s') \<and> copied_closures s' = copied_closures s
    \<and> cl_stopping s' = cl_stopping s"
proof (rule do_subscribe_cases [of L path args s cb])
  fix b sid' s2 x
  assume d: "drain_outgoing L (s\<lparr>cl_base := b, cl_subs := add_entry sid' cb (cl_subs s)\<rparr>) = (s2, x)"
    and eq: "do_subscribe L path args cb s = (case x of
         Some e \<Rightarrow> (s2, Inl e)
       | None \<Rightarrow> (deliver (case latest_result b (si_query sid') of None \<Rightarrow> [] | Some fr \<Rightarrow> [Ev_update cb fr]) s2, Inr sid'))"
  let ?s1 = "s\<lparr>cl_base := b, cl_subs := add_entry sid' cb (cl_subs s)\<rparr>"
  obtain b' w where s2: "s2 = ?s1\<lparr>cl_base := b', cl_wire := w\<rparr>"
    using drain_outgoing_frame [of L ?s1] d by auto
  have sid: "sid' = sid" and s': "s' = deliver (case latest_result b (si_query sid) of None \<Rightarrow> [] | Some fr \<Rightarrow> [Ev_update cb fr]) s2"
    using assms(1) eq by (cases x; simp)+
  have "latest_result (cl_base s2) (si_query sid) = latest_result b (si_query sid)"
    using drain_results [OF d] by (simp add: latest_result_def)
  then have "latest_result b (si_query sid) = None" using assms(2) by (simp add: s')
  then have s'2: "s' = s2" by (simp add: s' deliver_def)
  have "cb \<in> set (subscribed_closures s')" by (rule subscribed_added) (simp add: s'2 s2)
  then show ?thesis by (simp add: s'2 s2 copied_closures_def)
qed (use assms(1) in simp_all)

lemma client_query_subscribes:
  assumes "client_query L path args cb s = (q, s', None)" and "os_holder q = Some sid"
  shows "do_subscribe L path args cb s = (s', Inr sid)" "os_fired q = False" "os_results q = []"
  using assms by (auto simp: client_query_def client_subscribe_def one_shot_new_def handle_move_assign_def
      handle_unsubscribe_def split: prod.splits sum.splits)

text \<open>
  \<open>C18\<close>: A query whose result has not come blocks the destruction of the client. On a client that
  runs, \<open>query\<close> with a new callback, whose result is not known yet, leaves its future unset and
  its closure in the table as the only copy, with a handle: \<open>shutdown\<close>, which the destructor
  calls, locks its mutex a second time and does not return, so this future is never satisfied. Once
  the first result has been delivered and the subscription released, the future holds that result and
  the query no longer stands in the way: \<open>shutdown\<close> goes through if no other closure owns a handle.
\<close>

theorem query_blocks_shutdown:
  assumes "client_query L path args cb s = (q, s', None)" and "os_holder q = Some sid"
    and "\<not> cl_stopping s" and "latest_result (cl_base s') (si_query sid) = None"
    and "cb \<notin> set (copied_closures s)"
  shows "query_future q = (P_unset, 0) \<and> shutdown_section (owned(cb := os_holder q)) s' = None
    \<and> (\<forall>r rs s''. do_unsubscribe L sid s' = (s'', None) \<longrightarrow>
         (\<exists>q'. run (one_shot_do L) (q, s') (map Os_result (r # rs)) = (q', s'')
           \<and> query_future q' = (P_set r, 0) \<and> os_holder q' = None
           \<and> ((\<forall>c. c \<noteq> cb \<longrightarrow> owned c = None)
                \<longrightarrow> shutdown_section (owned(cb := os_holder q')) s'' = Some (shutdown_begin s''))))"
proof (intro conjI allI impI)
  note q = client_query_subscribes [OF assms(1,2)]
  have t: "cb \<in> set (subscribed_closures s')" "copied_closures s' = copied_closures s" "cl_stopping s' = cl_stopping s"
    using do_subscribe_closures [OF q(1) assms(4)] by simp_all
  show "query_future q = (P_unset, 0)" by (simp add: query_future_def q(3))
  have "cb \<in> set (destroyed_by_clear s')" using t(1,2) assms(5) by (simp add: destroyed_by_clear_def)
  then show "shutdown_section (owned(cb := os_holder q)) s' = None"
    using t(3) assms(2,3) by (auto simp: shutdown_section_def list_ex_iff)
  fix r rs s''
  assume un: "do_unsubscribe L sid s' = (s'', None)"
  let ?q = "q\<lparr>os_fired := True, os_results := [r], os_holder := None\<rparr>"
  have "one_shot_do L (q, s') (Os_result r) = (?q, s'')"
    using un q assms(2) by (simp add: handle_unsubscribe_def)
  then have "run (one_shot_do L) (q, s') (map Os_result (r # rs)) = (?q, s'')"
    by (simp add: fired_ignores)
  moreover have "shutdown_section (owned(cb := os_holder ?q)) s'' = Some (shutdown_begin s'')"
    if "\<forall>c. c \<noteq> cb \<longrightarrow> owned c = None"
    using that by (auto simp: shutdown_section_def shutdown_begin_def list_ex_iff)
  ultimately show "\<exists>q'. run (one_shot_do L) (q, s') (map Os_result (r # rs)) = (q', s'')
           \<and> query_future q' = (P_set r, 0) \<and> os_holder q' = None
           \<and> ((\<forall>c. c \<noteq> cb \<longrightarrow> owned c = None)
                \<longrightarrow> shutdown_section (owned(cb := os_holder q')) s'' = Some (shutdown_begin s''))"
    by (intro exI [of _ ?q]) (simp add: query_future_def)
qed

text \<open>A client just made, asked for a counter and destroyed.\<close>

lemma query_blocks_shutdown_witness:
  "let s = client_run sample_lib sample_opts ''s'' 0 [];
       (q, s', e) = client_query sample_lib ''counters:get'' [] 5 s
   in e = None \<and> shutdown_section ((\<lambda>_. None)(5 := os_holder q)) s' = None"
proof -
  let ?s = "client_run sample_lib sample_opts ''s'' 0 []"
  obtain q s' e where asked: "client_query sample_lib ''counters:get'' [] 5 ?s = (q, s', e)"
    by (cases "client_query sample_lib ''counters:get'' [] 5 ?s")
  have "let (q, s', e) = client_query sample_lib ''counters:get'' [] 5 ?s
    in e = None \<and> os_holder q = Some (Subscriber_id 0 0) \<and> latest_result (cl_base s') 0 = None
       \<and> \<not> cl_stopping ?s \<and> List.null (copied_closures ?s)"
    by code_simp
  then have facts: "e = None" "os_holder q = Some (Subscriber_id 0 0)" "latest_result (cl_base s') 0 = None"
      "\<not> cl_stopping ?s" "copied_closures ?s = []"
    by (simp_all add: asked List.null_iff)
  have "latest_result (cl_base s') (si_query (Subscriber_id 0 0)) = None" "5 \<notin> set (copied_closures ?s)"
    using facts by simp_all
  then show ?thesis
    using query_blocks_shutdown [OF asked [unfolded facts(1)] facts(2,4)] facts(1) by (simp add: asked)
qed

text \<open>
  In immediate mode a query whose result is known runs its callback inside \<open>subscribe\<close>, before the
  handle is assigned (\<open>one_shot_query\<close>). Its future is set, but the closure keeps the handle, and so
  it blocks \<open>shutdown\<close> although it has been answered.
\<close>

lemma known_query_blocks_shutdown:
  assumes sub: "do_subscribe L path args cb s = (s', Inr sid)"
    and known: "latest_result (cl_base s') (si_query sid) = Some r"
    and run: "\<not> cl_stopping s" "co_delivery_mode (cl_opts s) = Immediate" "cb \<notin> set (copied_closures s)"
  defines "t \<equiv> run_delivery (length (cl_in_flight s)) s'"
  defines "q \<equiv> fst (run (one_shot_do L) (one_shot_new, t) [Os_result r, Os_assign sid])"
  shows "query_future q = (P_set r, 0) \<and> cl_delivered t = cl_delivered s @ [Ev_update cb r]
    \<and> shutdown_section (owned(cb := os_holder q)) t = None"
proof (rule do_subscribe_cases [of L path args s cb])
  fix b sid' s2 x
  assume d: "drain_outgoing L (s\<lparr>cl_base := b, cl_subs := add_entry sid' cb (cl_subs s)\<rparr>) = (s2, x)"
    and eq: "do_subscribe L path args cb s = (case x of
         Some e \<Rightarrow> (s2, Inl e)
       | None \<Rightarrow> (deliver (case latest_result b (si_query sid') of None \<Rightarrow> [] | Some fr \<Rightarrow> [Ev_update cb fr]) s2, Inr sid'))"
  let ?s1 = "s\<lparr>cl_base := b, cl_subs := add_entry sid' cb (cl_subs s)\<rparr>"
  obtain b' w where s2: "s2 = ?s1\<lparr>cl_base := b', cl_wire := w\<rparr>"
    using drain_outgoing_frame [of L ?s1] d by auto
  have s': "s' = deliver (case latest_result b (si_query sid) of None \<Rightarrow> [] | Some fr \<Rightarrow> [Ev_update cb fr]) s2"
    using sub eq by (cases x; simp)+
  have "latest_result (cl_base s2) (si_query sid) = latest_result b (si_query sid)"
    using drain_results [OF d] by (simp add: latest_result_def)
  then have "latest_result b (si_query sid) = Some r" using known by (simp add: s')
  then have s'2: "s' = s2\<lparr>cl_in_flight := cl_in_flight s @ [[Ev_update cb r]]\<rparr>"
    by (simp add: s' deliver_def s2)
  have t: "t = s2\<lparr>cl_in_flight := cl_in_flight s, cl_delivered := cl_delivered s @ [Ev_update cb r]\<rparr>"
    using run(2) by (simp add: t_def run_delivery_def hand_over_def s'2 s2 drop_nth_def)
  have q: "q = \<lparr>os_holder = Some sid, os_fired = True, os_results = [r]\<rparr>"
    by (simp add: q_def one_shot_new_def handle_move_assign_def handle_unsubscribe_def)
  have "cb \<in> set (subscribed_closures t)" by (rule subscribed_added) (simp add: t s2)
  moreover have "copied_closures t = copied_closures s" by (simp add: t s2 copied_closures_def)
  ultimately have "cb \<in> set (destroyed_by_clear t)" using run(3) by (simp add: destroyed_by_clear_def)
  then have "shutdown_section (owned(cb := os_holder q)) t = None"
    using run(1) by (auto simp: shutdown_section_def list_ex_iff q t s2)
  then show ?thesis by (simp add: q query_future_def) (simp add: t)
qed (use sub in simp_all)

end
