(* ===== verification/Paginated.thy ===== *)
theory Paginated
  imports Messages
begin

section \<open>Paginated queries (\<open>paginated.h\<close>, \<open>src/paginated.cpp\<close>)\<close>

text \<open>
  \<open>paginated_impl\<close> keeps a growing list of pages, each a live subscription of the realtime client,
  and the splits in flight. What makes it hard is re-entrancy: \<open>client::subscribe\<close> may deliver a
  result that is already known before it returns, and the callback of the user may call the
  helper again. The mutex is recursive, so both run in the middle of an operation. Every
  operation that can trigger a callback therefore has a parameter \<open>k\<close>, which runs the callback
  on the state it finds; \<open>callback\<close> ties the knot, with fuel for the depth of the nesting.

  The realtime client is seen through what the helper relies on: \<open>cached\<close> is the result it
  delivers at once for given arguments, if any (never in pumped mode), and \<open>pn_live\<close> are its live
  subscriptions. Destroying a \<open>client::subscription\<close> unsubscribes it, so each destructor the code
  runs is a \<open>drop_subs\<close>. The user's callback is \<open>react\<close>: what it calls for a snapshot.
  The counters are natural numbers: each numbers subscriptions or resets, and 64 bits are more
  than a program makes. \<open>subscribe\<close> throws when the arguments cannot be serialized; the constructor
  and \<open>set_args\<close> serialize the user's arguments first, so the later calls, whose other arguments
  are cursors out of JSON text, do not throw. A call of \<open>set_args\<close> that throws changes nothing.
\<close>

subsection \<open>Results of a paginated query\<close>

record page_fields =
  pf_items :: "convex_value list"
  pf_is_done :: bool
  pf_continue_cursor :: string
  pf_split_cursor :: "string option"
  pf_split_required :: bool
  pf_split_recommended :: bool

definition parse_page :: "convex_value \<Rightarrow> page_fields option" where
  "parse_page v = (case v of
     VObject ob \<Rightarrow>
       (case map_of ob ''page'' of
          Some (VArray items) \<Rightarrow>
            (case map_of ob ''isDone'' of
               Some (VBool fin) \<Rightarrow>
                 (case map_of ob ''continueCursor'' of
                    Some (VString cursor) \<Rightarrow>
                      (let status = (case map_of ob ''pageStatus'' of Some (VString st) \<Rightarrow> Some st | _ \<Rightarrow> None)
                       in Some \<lparr>pf_items = items, pf_is_done = fin, pf_continue_cursor = cursor,
                            pf_split_cursor = (case map_of ob ''splitCursor'' of
                               Some (VString sc) \<Rightarrow> Some sc | _ \<Rightarrow> None),
                            pf_split_required = (status = Some ''SplitRequired''),
                            pf_split_recommended = (status = Some ''SplitRecommended'')\<rparr>)
                  | _ \<Rightarrow> None)
             | _ \<Rightarrow> None)
        | _ \<Rightarrow> None)
   | _ \<Rightarrow> None)"

definition is_invalid_cursor :: "function_result \<Rightarrow> bool" where
  "is_invalid_cursor r = (case r of
     FR_success _ \<Rightarrow> False
   | FR_error m \<Rightarrow> find_sub m ''InvalidCursor'' \<noteq> None
   | FR_app_error e \<Rightarrow> find_sub (ce_message e) ''InvalidCursor'' \<noteq> None
       \<or> (case ce_data e of
            VObject data \<Rightarrow>
              (case (map_of data ''isConvexSystemError'', map_of data ''paginationError'') of
                 (Some sys, Some kind) \<Rightarrow> value_eq sys (VBool True) \<and> value_eq kind (VString ''InvalidCursor'')
               | _ \<Rightarrow> False)
          | _ \<Rightarrow> False))"

datatype pagination_status = Loading_first_page | Can_load_more | Loading_more | Exhausted | Failed

fun pagination_status_name :: "pagination_status \<Rightarrow> string" where
  "pagination_status_name Loading_first_page = ''LoadingFirstPage''"
| "pagination_status_name Can_load_more = ''CanLoadMore''"
| "pagination_status_name Loading_more = ''LoadingMore''"
| "pagination_status_name Exhausted = ''Exhausted''"
| "pagination_status_name Failed = ''Error''"

record paginated_snapshot =
  sn_results :: "convex_value list"
  sn_status :: pagination_status
  sn_error :: "function_result option"

definition is_loading :: "paginated_snapshot \<Rightarrow> bool" where
  "is_loading sn \<longleftrightarrow> sn_status sn = Loading_first_page \<or> sn_status sn = Loading_more"

subsection \<open>State\<close>

type_synonym page_key = nat

record page =
  pg_key :: page_key
  pg_sub :: "nat option"                 \<comment> \<open>the subscription it owns\<close>
  pg_result :: "function_result option"
  pg_cursor :: "string option"
  pg_end_cursor :: "string option"

record pending_split =
  sp_original :: page_key
  sp_first :: page
  sp_second :: page

record paginated =
  pn_udf_path :: string
  pn_initial_num_items :: "64 word"
  pn_user_args :: value_object
  pn_on_update :: bool                   \<comment> \<open>a callback is set\<close>
  pn_pagination_id :: nat
  pn_generation :: nat
  pn_stopped :: bool
  pn_pages :: "page list"
  pn_splits :: "pending_split list"
  pn_next_key :: page_key
  pn_counter :: nat                      \<comment> \<open>of \<open>next_pagination_id\<close>, shared by the process\<close>
  pn_next_sub :: nat                     \<comment> \<open>subscriptions made so far\<close>
  pn_live :: "(nat \<times> value_object) list"  \<comment> \<open>the live ones, with their arguments\<close>
  pn_seen :: "paginated_snapshot list"   \<comment> \<open>what the user's callback got\<close>

text \<open>What may re-enter an operation, and how the operations call it.\<close>

datatype callback_event =
    Page_result nat page_key function_result
  | Update paginated_snapshot

type_synonym reenter = "callback_event \<Rightarrow> paginated \<Rightarrow> paginated option"
type_synonym cache = "value_object \<Rightarrow> function_result option"

text \<open>\<open>find_page\<close> looks at the pages, then at the halves of the splits. The keys are distinct, so
  the page found is the only one an update by key touches.\<close>

definition all_pages :: "paginated \<Rightarrow> page list" where
  "all_pages s = pn_pages s @ concat (map (\<lambda>sp. [sp_first sp, sp_second sp]) (pn_splits s))"

definition find_page :: "page_key \<Rightarrow> paginated \<Rightarrow> page option" where
  "find_page key s = List.find (\<lambda>p. pg_key p = key) (all_pages s)"

definition on_key :: "page_key \<Rightarrow> (page \<Rightarrow> page) \<Rightarrow> page \<Rightarrow> page" where
  "on_key key f p = (if pg_key p = key then f p else p)"

definition update_page :: "page_key \<Rightarrow> (page \<Rightarrow> page) \<Rightarrow> paginated \<Rightarrow> paginated" where
  "update_page key f s =
     s\<lparr>pn_pages := map (on_key key f) (pn_pages s),
       pn_splits := map (\<lambda>sp. sp\<lparr>sp_first := on_key key f (sp_first sp),
                                sp_second := on_key key f (sp_second sp)\<rparr>) (pn_splits s)\<rparr>"

definition split_of_half :: "page_key \<Rightarrow> paginated \<Rightarrow> nat option" where
  "split_of_half key s =
     List.find (\<lambda>i. pg_key (sp_first (pn_splits s ! i)) = key \<or> pg_key (sp_second (pn_splits s ! i)) = key)
       [0..<length (pn_splits s)]"

definition is_splitting :: "page_key \<Rightarrow> paginated \<Rightarrow> bool" where
  "is_splitting key s \<longleftrightarrow> list_ex (\<lambda>sp. sp_original sp = key) (pn_splits s)"

text \<open>The destructors of the subscriptions that some pages own.\<close>

definition subs_of :: "page list \<Rightarrow> nat list" where
  "subs_of ps = List.map_filter pg_sub ps"

definition drop_subs :: "nat list \<Rightarrow> paginated \<Rightarrow> paginated" where
  "drop_subs hs s = s\<lparr>pn_live := filter (\<lambda>(h, args). h \<notin> set hs) (pn_live s)\<rparr>"

definition new_page :: "page_key \<Rightarrow> string option \<Rightarrow> string option \<Rightarrow> page" where
  "new_page key cursor end_cursor =
     \<lparr>pg_key = key, pg_sub = None, pg_result = None, pg_cursor = cursor, pg_end_cursor = end_cursor\<rparr>"

subsection \<open>Snapshots\<close>

definition not_a_page :: "string \<Rightarrow> function_result" where
  "not_a_page udf_path = FR_error (''convex: paginated query '' @ [CHR 0x22] @ udf_path @ [CHR 0x22]
     @ '' returned a value that is not a PaginationResult'')"

definition still_loading :: "convex_value list \<Rightarrow> paginated_snapshot" where
  "still_loading results = \<lparr>sn_results = results,
     sn_status = (if results = [] then Loading_first_page else Loading_more), sn_error = None\<rparr>"

fun snapshot_loop :: "string \<Rightarrow> page list \<Rightarrow> convex_value list \<Rightarrow> bool \<Rightarrow> paginated_snapshot" where
  "snapshot_loop udf [] results last_is_done =
     \<lparr>sn_results = results, sn_status = (if last_is_done then Exhausted else Can_load_more), sn_error = None\<rparr>"
| "snapshot_loop udf (p # ps) results last_is_done =
     (case pg_result p of
        None \<Rightarrow> still_loading results
      | Some (FR_success v) \<Rightarrow>
          (case parse_page v of
             None \<Rightarrow> \<lparr>sn_results = results, sn_status = Failed, sn_error = Some (not_a_page udf)\<rparr>
           | Some f \<Rightarrow>
               if pf_split_required f then still_loading results
               else snapshot_loop udf ps (results @ pf_items f) (pf_is_done f))
      | Some r \<Rightarrow> \<lparr>sn_results = results, sn_status = Failed, sn_error = Some r\<rparr>)"

definition compute_snapshot :: "paginated \<Rightarrow> paginated_snapshot" where
  "compute_snapshot s = snapshot_loop (pn_udf_path s) (pn_pages s) [] False"

definition notify :: "reenter \<Rightarrow> paginated \<Rightarrow> paginated option" where
  "notify k s = (if pn_on_update s then k (Update (compute_snapshot s)) s else Some s)"

subsection \<open>Pages\<close>

definition page_args :: "paginated \<Rightarrow> page \<Rightarrow> 64 word \<Rightarrow> value_object" where
  "page_args s p num_items =
     om_insert ''paginationOpts''
       (VObject (om_emplace ''id'' (VFloat64 (int_to_f64 (int (pn_pagination_id s))))
         ((case pg_end_cursor p of None \<Rightarrow> (\<lambda>m. m) | Some e \<Rightarrow> om_emplace ''endCursor'' (VString e))
         (om_emplace ''cursor'' (case pg_cursor p of Some c \<Rightarrow> VString c | None \<Rightarrow> VNull)
         (om_emplace ''numItems'' (VFloat64 (int_to_f64 (uint num_items))) [])))))
       (pn_user_args s)"

text \<open>
  \<open>subscribe_page\<close>: the handle is attached to the page when the page is still there after a result
  delivered at once; otherwise the local handle is dropped.
\<close>

definition attach_sub :: "page_key \<Rightarrow> nat \<Rightarrow> paginated \<Rightarrow> paginated" where
  "attach_sub key h s =
     (case find_page key s of
        None \<Rightarrow> drop_subs [h] s
      | Some current \<Rightarrow>
          update_page key (\<lambda>p. p\<lparr>pg_sub := Some h\<rparr>) (drop_subs (subs_of [current]) s))"

definition subscribe_page :: "reenter \<Rightarrow> cache \<Rightarrow> page_key \<Rightarrow> 64 word \<Rightarrow> paginated \<Rightarrow> paginated option" where
  "subscribe_page k cached key num_items s =
     (case find_page key s of
        None \<Rightarrow> Some s
      | Some p \<Rightarrow>
          (let gen = pn_generation s; args = page_args s p num_items; h = pn_next_sub s;
               s1 = s\<lparr>pn_next_sub := h + 1, pn_live := pn_live s @ [(h, args)]\<rparr>
           in Option.bind (case cached args of None \<Rightarrow> Some s1 | Some r \<Rightarrow> k (Page_result gen key r) s1)
                (\<lambda>s2. Some (if pn_generation s2 \<noteq> gen then drop_subs [h] s2 else attach_sub key h s2))))"

definition add_page :: "reenter \<Rightarrow> cache \<Rightarrow> 64 word \<Rightarrow> string option \<Rightarrow> paginated \<Rightarrow> paginated option" where
  "add_page k cached num_items cursor s =
     (let key = pn_next_key s + 1
      in subscribe_page k cached key num_items
           (s\<lparr>pn_pages := pn_pages s @ [new_page key cursor None], pn_next_key := key\<rparr>))"

definition clear_pages :: "paginated \<Rightarrow> paginated" where
  "clear_pages s = (drop_subs (subs_of (all_pages s)) s)\<lparr>pn_splits := [], pn_pages := []\<rparr>"

definition do_reset :: "reenter \<Rightarrow> cache \<Rightarrow> paginated \<Rightarrow> paginated option" where
  "do_reset k cached s =
     add_page k cached (pn_initial_num_items s) None
       (clear_pages (s\<lparr>pn_generation := pn_generation s + 1, pn_pagination_id := pn_counter s + 1,
                      pn_counter := pn_counter s + 1\<rparr>))"

subsection \<open>Splits\<close>

definition start_split ::
  "reenter \<Rightarrow> cache \<Rightarrow> page_key \<Rightarrow> string \<Rightarrow> string \<Rightarrow> paginated \<Rightarrow> paginated option"
where
  "start_split k cached original split_cursor continue_cursor s =
     (case find_page original s of
        None \<Rightarrow> Some s
      | Some orig \<Rightarrow>
          (let first_key = pn_next_key s + 1; second_key = pn_next_key s + 2;
               sp = \<lparr>sp_original = original,
                     sp_first = new_page first_key (pg_cursor orig) (Some split_cursor),
                     sp_second = new_page second_key (Some split_cursor) (Some continue_cursor)\<rparr>
           in Option.bind
                (subscribe_page k cached first_key (pn_initial_num_items s)
                   (s\<lparr>pn_splits := pn_splits s @ [sp], pn_next_key := second_key\<rparr>))
                (subscribe_page k cached second_key (pn_initial_num_items s))))"

definition consider_split :: "reenter \<Rightarrow> cache \<Rightarrow> page_key \<Rightarrow> paginated \<Rightarrow> paginated option" where
  "consider_split k cached key s =
     (case Option.bind (find_page key s) pg_result of
        Some (FR_success v) \<Rightarrow>
          (if is_splitting key s then Some s
           else case parse_page v of
             None \<Rightarrow> Some s
           | Some f \<Rightarrow>
               (case pf_split_cursor f of
                  None \<Rightarrow> Some s
                | Some sc \<Rightarrow>
                    if pf_split_required f \<or> pf_split_recommended f
                       \<or> of_nat (length (pf_items f)) > pn_initial_num_items s * 2
                    then start_split k cached key sc (pf_continue_cursor f) s
                    else Some s))
      | _ \<Rightarrow> Some s)"

definition failed_half :: "page \<Rightarrow> bool" where
  "failed_half p \<longleftrightarrow> (case pg_result p of Some r \<Rightarrow> \<not> fr_ok r | None \<Rightarrow> False)"

text \<open>The original is replaced by the two halves, in place.\<close>

definition swap_in :: "pending_split \<Rightarrow> page list \<Rightarrow> page list" where
  "swap_in sp ps =
     concat (map (\<lambda>p. if pg_key p = sp_original sp then [sp_first sp, sp_second sp] else [p]) ps)"

definition advance_split :: "reenter \<Rightarrow> cache \<Rightarrow> nat \<Rightarrow> paginated \<Rightarrow> paginated option" where
  "advance_split k cached index s =
     (let sp = pn_splits s ! index; s1 = s\<lparr>pn_splits := drop_nth index (pn_splits s)\<rparr> in
      if failed_half (sp_first sp) \<or> failed_half (sp_second sp)
      then Some (drop_subs (subs_of [sp_first sp, sp_second sp]) s1)
      else if pg_result (sp_first sp) = None \<or> pg_result (sp_second sp) = None then Some s
      else (case List.find (\<lambda>p. pg_key p = sp_original sp) (pn_pages s1) of
              None \<Rightarrow> Some (drop_subs (subs_of [sp_first sp, sp_second sp]) s1)
            | Some old \<Rightarrow>
                Option.bind
                  (consider_split k cached (pg_key (sp_first sp))
                     ((drop_subs (subs_of [old]) s1)\<lparr>pn_pages := swap_in sp (pn_pages s1)\<rparr>))
                  (consider_split k cached (pg_key (sp_second sp)))))"

subsection \<open>Entry points\<close>

definition on_page_result ::
  "reenter \<Rightarrow> cache \<Rightarrow> nat \<Rightarrow> page_key \<Rightarrow> function_result \<Rightarrow> paginated \<Rightarrow> paginated option"
where
  "on_page_result k cached gen key r s =
     (if pn_stopped s \<or> gen \<noteq> pn_generation s then Some s
      else case find_page key s of
        None \<Rightarrow> Some s
      | Some _ \<Rightarrow>
          (let s1 = update_page key (\<lambda>p. p\<lparr>pg_result := Some r\<rparr>) s
           in Option.bind
                (if is_invalid_cursor r then do_reset k cached s1
                 else case split_of_half key s1 of
                   Some index \<Rightarrow> advance_split k cached index s1
                 | None \<Rightarrow> consider_split k cached key s1)
                (notify k)))"

datatype user_op = Load_more "64 word" | Set_args value_object | Reset | Stop

text \<open>\<open>load_more\<close> and \<open>set_args\<close> also say whether they did something.\<close>

definition load_more :: "reenter \<Rightarrow> cache \<Rightarrow> 64 word \<Rightarrow> paginated \<Rightarrow> (bool \<times> paginated) option" where
  "load_more k cached num_items s =
     (if num_items = 0 \<or> pn_stopped s \<or> sn_status (compute_snapshot s) \<noteq> Can_load_more then Some (False, s)
      else case pg_result (last (pn_pages s)) of
        Some (FR_success v) \<Rightarrow>
          (case parse_page v of
             Some f \<Rightarrow> map_option (Pair True)
               (Option.bind (add_page k cached num_items (Some (pf_continue_cursor f)) s) (notify k))
           | None \<Rightarrow> Some (False, s))
      | _ \<Rightarrow> Some (False, s))"

definition set_args :: "json_lib \<Rightarrow> reenter \<Rightarrow> cache \<Rightarrow> value_object \<Rightarrow> paginated \<Rightarrow> (bool \<times> paginated) option" where
  "set_args L k cached args s =
     (if pn_stopped s then Some (False, s)
      else case (serialize_args L args, serialize_args L (pn_user_args s)) of
        (Inr new_json, Inr old_json) \<Rightarrow>
          (if new_json = old_json then Some (False, s)
           else map_option (Pair True) (Option.bind (do_reset k cached (s\<lparr>pn_user_args := args\<rparr>)) (notify k)))
      | _ \<Rightarrow> Some (False, s))"

definition reset :: "reenter \<Rightarrow> cache \<Rightarrow> paginated \<Rightarrow> paginated option" where
  "reset k cached s = (if pn_stopped s then Some s else Option.bind (do_reset k cached s) (notify k))"

definition stop :: "paginated \<Rightarrow> paginated" where
  "stop s = clear_pages (s\<lparr>pn_stopped := True, pn_on_update := False\<rparr>)"

fun user_call :: "json_lib \<Rightarrow> reenter \<Rightarrow> cache \<Rightarrow> user_op \<Rightarrow> paginated \<Rightarrow> paginated option" where
  "user_call L k cached (Load_more n) s = map_option snd (load_more k cached n s)"
| "user_call L k cached (Set_args args) s = map_option snd (set_args L k cached args s)"
| "user_call L k cached Reset s = reset k cached s"
| "user_call L k cached Stop s = Some (stop s)"

fun user_calls :: "json_lib \<Rightarrow> reenter \<Rightarrow> cache \<Rightarrow> user_op list \<Rightarrow> paginated \<Rightarrow> paginated option" where
  "user_calls L k cached [] s = Some s"
| "user_calls L k cached (c # cs) s = Option.bind (user_call L k cached c s) (user_calls L k cached cs)"

text \<open>Callbacks, nested to a depth the fuel bounds; \<open>None\<close> is a nesting deeper than that.\<close>

primrec callback :: "json_lib \<Rightarrow> cache \<Rightarrow> (paginated_snapshot \<Rightarrow> user_op list) \<Rightarrow> nat \<Rightarrow> reenter" where
  "callback L cached react 0 = (\<lambda>ev s. None)"
| "callback L cached react (Suc n) = (\<lambda>ev s. case ev of
     Page_result gen key r \<Rightarrow> on_page_result (callback L cached react n) cached gen key r s
   | Update sn \<Rightarrow> user_calls L (callback L cached react n) cached (react sn)
       (s\<lparr>pn_seen := pn_seen s @ [sn]\<rparr>))"

text \<open>The constructor.\<close>

definition fresh_paginated :: "string \<Rightarrow> value_object \<Rightarrow> 64 word \<Rightarrow> bool \<Rightarrow> nat \<Rightarrow> paginated" where
  "fresh_paginated udf_path args num_items has_callback counter =
     \<lparr>pn_udf_path = udf_path, pn_initial_num_items = num_items, pn_user_args = args,
      pn_on_update = has_callback, pn_pagination_id = counter + 1, pn_generation = 0,
      pn_stopped = False, pn_pages = [], pn_splits = [], pn_next_key = 0, pn_counter = counter + 1,
      pn_next_sub = 0, pn_live = [], pn_seen = []\<rparr>"

definition new_paginated ::
  "json_lib \<Rightarrow> reenter \<Rightarrow> cache \<Rightarrow> string \<Rightarrow> value_object \<Rightarrow> 64 word \<Rightarrow> bool \<Rightarrow> nat \<Rightarrow> paginated option result"
where
  "new_paginated L k cached udf_path args num_items has_callback counter =
     (if udf_path = [] then Inl (Invalid_argument ''convex: paginated_query requires a udf_path'')
      else if num_items = 0
      then Inl (Invalid_argument ''convex: paginated_query initial_num_items must be > 0'')
      else (let s = fresh_paginated udf_path args num_items has_callback counter
            in bindr (serialize_args L (page_args s (new_page 1 None None) num_items))
                 (\<lambda>_. Inr (add_page k cached num_items None s))))"

end
