(* ===== verification/PaginatedInv.thy ===== *)
theory PaginatedInv
  imports Paginated
begin

section \<open>The invariants of a paginated query\<close>

text \<open>
  Structure: keys are distinct, a split names a page, a subscription is owned by one page and is
  live. Seams: whatever tells where a page ends agrees. That can be its result, its fixed end
  cursor, the cursor of the page after it, or the end of the split that will replace it; the
  server keeps these equal, because it records the end of every page in the journal of its query.
  \<open>evolves\<close> is what an operation may do to the state another one is in the middle of.
\<close>

subsection \<open>Pages of a state\<close>

lemma update_page_simps [simp]:
  "pn_generation (update_page key f s) = pn_generation s" "pn_next_key (update_page key f s) = pn_next_key s"
  "pn_next_sub (update_page key f s) = pn_next_sub s" "pn_live (update_page key f s) = pn_live s"
  "pn_stopped (update_page key f s) = pn_stopped s" "pn_on_update (update_page key f s) = pn_on_update s"
  "pn_pages (update_page key f s) = map (on_key key f) (pn_pages s)"
  "all_pages (update_page key f s) = map (on_key key f) (all_pages s)"
  by (simp_all add: update_page_def all_pages_def comp_def map_concat)

lemma drop_subs_simps [simp]:
  "pn_generation (drop_subs hs s) = pn_generation s" "pn_next_key (drop_subs hs s) = pn_next_key s"
  "pn_next_sub (drop_subs hs s) = pn_next_sub s" "pn_pages (drop_subs hs s) = pn_pages s"
  "pn_splits (drop_subs hs s) = pn_splits s" "all_pages (drop_subs hs s) = all_pages s"
  "pn_stopped (drop_subs hs s) = pn_stopped s" "pn_on_update (drop_subs hs s) = pn_on_update s"
  "pn_live (drop_subs hs s) = filter (\<lambda>(h, args). h \<notin> set hs) (pn_live s)"
  "find_page key (drop_subs hs s) = find_page key s"
  by (simp_all add: drop_subs_def all_pages_def find_page_def)

lemma all_pages_cong:
  "pn_pages s' = pn_pages s \<Longrightarrow> pn_splits s' = pn_splits s \<Longrightarrow> all_pages s' = all_pages s"
  by (simp add: all_pages_def)

lemma set_all_pages:
  "set (all_pages s) = set (pn_pages s) \<union> sp_first ` set (pn_splits s) \<union> sp_second ` set (pn_splits s)"
  by (auto simp: all_pages_def)

lemma find_page_SomeD:
  "find_page key s = Some p \<Longrightarrow> p \<in> set (all_pages s) \<and> pg_key p = key"
  by (auto simp: find_page_def find_Some_iff)

lemma find_page_None: "find_page key s = None \<longleftrightarrow> (\<forall>p \<in> set (all_pages s). pg_key p \<noteq> key)"
  by (auto simp: find_page_def find_None_iff)

lemma on_key_key [simp]: "(\<And>p. pg_key (f p) = pg_key p) \<Longrightarrow> pg_key (on_key key f p) = pg_key p"
  by (simp add: on_key_def)

definition handles :: "paginated \<Rightarrow> nat set" where
  "handles s = {h. \<exists>p \<in> set (all_pages s). pg_sub p = Some h}"

definition live_handles :: "paginated \<Rightarrow> nat set" where
  "live_handles s = fst ` set (pn_live s)"

definition loose :: "paginated \<Rightarrow> nat set" where
  "loose s = live_handles s - handles s"

definition bare :: "paginated \<Rightarrow> page_key set" where
  "bare s = {pg_key p |p. p \<in> set (all_pages s) \<and> pg_sub p = None}"

text \<open>No subscription has two owners.\<close>

definition own_once :: "page set \<Rightarrow> bool" where
  "own_once A \<longleftrightarrow> (\<forall>p \<in> A. \<forall>q \<in> A. \<forall>h. pg_sub p = Some h \<longrightarrow> pg_sub q = Some h \<longrightarrow> pg_key p = pg_key q)"

definition struct_ok :: "paginated \<Rightarrow> bool" where
  "struct_ok s \<longleftrightarrow> distinct (map pg_key (all_pages s)) \<and> (\<forall>p \<in> set (all_pages s). pg_key p \<le> pn_next_key s)
     \<and> distinct (map sp_original (pn_splits s)) \<and> sp_original ` set (pn_splits s) \<subseteq> pg_key ` set (pn_pages s)
     \<and> own_once (set (all_pages s))
     \<and> handles s \<subseteq> live_handles s \<and> (\<forall>h \<in> live_handles s. h < pn_next_sub s)
     \<and> (pn_stopped s \<longrightarrow> pn_pages s = [] \<and> pn_splits s = [] \<and> \<not> pn_on_update s)"

subsection \<open>Seams\<close>

definition result_fields :: "function_result \<Rightarrow> page_fields option" where
  "result_fields r = (case r of FR_success v \<Rightarrow> parse_page v | _ \<Rightarrow> None)"

definition fields :: "page \<Rightarrow> page_fields option" where
  "fields p = Option.bind (pg_result p) result_fields"

text \<open>Which cursor follows which page, and where the split of which page ends.\<close>

fun links :: "page list \<Rightarrow> (page_key \<times> string option) list" where
  "links (p # q # ps) = (pg_key p, pg_cursor q) # links (q # ps)"
| "links _ = []"

definition split_ends :: "pending_split list \<Rightarrow> (page_key \<times> string option) set" where
  "split_ends sps = (\<lambda>sp. (sp_original sp, pg_end_cursor (sp_second sp))) ` set sps"

definition known_end :: "page list \<Rightarrow> pending_split list \<Rightarrow> page \<Rightarrow> string \<Rightarrow> bool" where
  "known_end ps sps p e \<longleftrightarrow>
     map_option pf_continue_cursor (fields p) = Some e \<or> pg_end_cursor p = Some e
     \<or> (pg_key p, Some e) \<in> set (links ps) \<or> (pg_key p, Some e) \<in> split_ends sps"

definition one_end :: "page list \<Rightarrow> pending_split list \<Rightarrow> page \<Rightarrow> bool" where
  "one_end ps sps p \<longleftrightarrow> (\<forall>a b. known_end ps sps p a \<longrightarrow> known_end ps sps p b \<longrightarrow> a = b)"

lemma one_endD: "one_end ps sps p \<Longrightarrow> known_end ps sps p a \<Longrightarrow> known_end ps sps p b \<Longrightarrow> a = b"
  unfolding one_end_def by blast

lemma one_end_mono: "one_end ps sps p \<Longrightarrow> (\<And>e. known_end ps' sps' p' e \<Longrightarrow> known_end ps sps p e) \<Longrightarrow> one_end ps' sps' p'"
  unfolding one_end_def by blast

definition split_ok :: "page list \<Rightarrow> pending_split \<Rightarrow> bool" where
  "split_ok ps sp \<longleftrightarrow> (\<forall>p \<in> set ps. pg_key p = sp_original sp \<longrightarrow> pg_cursor (sp_first sp) = pg_cursor p)
     \<and> pg_end_cursor (sp_first sp) \<noteq> None \<and> pg_cursor (sp_second sp) = pg_end_cursor (sp_first sp)
     \<and> pg_end_cursor (sp_second sp) \<noteq> None"

definition seam_ok :: "paginated \<Rightarrow> bool" where
  "seam_ok s \<longleftrightarrow>
     (\<forall>p \<in> set (all_pages s). one_end (pn_pages s) (pn_splits s) p)
     \<and> (\<forall>p ps. pn_pages s = p # ps \<longrightarrow> pg_cursor p = None \<and> (\<forall>q \<in> set ps. pg_cursor q \<noteq> None))
     \<and> (\<forall>sp \<in> set (pn_splits s). split_ok (pn_pages s) sp)"

text \<open>
  With \<open>chk\<close> the seams are part of the invariant, and results must respect them. Unless it was
  stopped, a query has a page whenever a callback may run (\<open>load_more\<close> reads the last one).
\<close>

definition pn_ok :: "bool \<Rightarrow> paginated \<Rightarrow> bool" where
  "pn_ok chk s \<longleftrightarrow> struct_ok s \<and> (pn_stopped s \<or> pn_pages s \<noteq> []) \<and> (chk \<longrightarrow> seam_ok s)"

fun event_ok :: "paginated \<Rightarrow> callback_event \<Rightarrow> bool" where
  "event_ok s (Update sn) = True"
| "event_ok s (Page_result gen key r) \<longleftrightarrow> (gen = pn_generation s \<longrightarrow>
     (\<forall>p f e. find_page key s = Some p \<longrightarrow> result_fields r = Some f \<longrightarrow>
        known_end (pn_pages s) (pn_splits s) p e \<longrightarrow> pf_continue_cursor f = e))"

definition args_end :: "value_object \<Rightarrow> string option" where
  "args_end args = (case map_of args ''paginationOpts'' of
     Some (VObject opts) \<Rightarrow> (case map_of opts ''endCursor'' of Some (VString e) \<Rightarrow> Some e | _ \<Rightarrow> None)
   | _ \<Rightarrow> None)"

definition cache_ok :: "cache \<Rightarrow> bool" where
  "cache_ok cached \<longleftrightarrow> (\<forall>args r f e. cached args = Some r \<longrightarrow> result_fields r = Some f \<longrightarrow>
     args_end args = Some e \<longrightarrow> pf_continue_cursor f = e)"

lemma args_end_page [simp]: "args_end (page_args s p n) = pg_end_cursor p"
  by (simp add: args_end_def page_args_def split: option.split)

subsection \<open>What an operation may change\<close>

definition same_range :: "page \<Rightarrow> page \<Rightarrow> bool" where
  "same_range p q \<longleftrightarrow> pg_key p = pg_key q \<and> pg_cursor p = pg_cursor q \<and> pg_end_cursor p = pg_end_cursor q"

definition half_keys :: "paginated \<Rightarrow> page_key set" where
  "half_keys s = pg_key ` (sp_first ` set (pn_splits s) \<union> sp_second ` set (pn_splits s))"

definition evolves :: "paginated \<Rightarrow> paginated \<Rightarrow> bool" where
  "evolves s s' \<longleftrightarrow> pn_generation s \<le> pn_generation s' \<and> pn_next_key s \<le> pn_next_key s'
     \<and> pn_next_sub s \<le> pn_next_sub s' \<and> loose s' = loose s \<and> bare s' \<subseteq> bare s
     \<and> (\<forall>key \<in> half_keys s'. key \<le> pn_next_key s \<longrightarrow> key \<in> half_keys s)
     \<and> (\<forall>p \<in> set (all_pages s'). pg_key p \<le> pn_next_key s \<longrightarrow>
          pn_generation s' = pn_generation s \<and> (\<exists>q \<in> set (all_pages s). same_range p q))"

lemma evolves_refl [simp]: "evolves s s"
  by (auto simp: evolves_def same_range_def)

lemma evolves_trans: "evolves s t \<Longrightarrow> evolves t u \<Longrightarrow> evolves s u"
proof -
  assume a: "evolves s t" and b: "evolves t u"
  have "pn_generation u = pn_generation s \<and> (\<exists>q \<in> set (all_pages s). same_range p q)"
    if p: "p \<in> set (all_pages u)" "pg_key p \<le> pn_next_key s" for p
  proof -
    have "pn_next_key s \<le> pn_next_key t" using a by (simp add: evolves_def)
    then obtain q where q: "q \<in> set (all_pages t)" "same_range p q" "pn_generation u = pn_generation t"
      using b p unfolding evolves_def by (meson order.trans)
    then have "pg_key q \<le> pn_next_key s" using p by (simp add: same_range_def)
    then show ?thesis using a q unfolding evolves_def by (auto simp: same_range_def)
  qed
  moreover have "key \<in> half_keys s" if "key \<in> half_keys u" "key \<le> pn_next_key s" for key
    using that a b unfolding evolves_def by (meson order.trans)
  ultimately show ?thesis using a b unfolding evolves_def by (auto intro: order.trans)
qed

text \<open>States that differ in nothing the invariants look at.\<close>

lemma ok_cong:
  assumes "pn_pages s' = pn_pages s" "pn_splits s' = pn_splits s" "pn_live s' = pn_live s"
    "pn_next_key s' = pn_next_key s" "pn_next_sub s' = pn_next_sub s" "pn_stopped s' = pn_stopped s"
    "pn_on_update s' = pn_on_update s"
  shows "pn_ok chk s' = pn_ok chk s"
    and "pn_generation s' = pn_generation s \<Longrightarrow> evolves s s'"
  using assms all_pages_cong [OF assms(1,2)]
  by (simp_all add: pn_ok_def struct_ok_def seam_ok_def handles_def live_handles_def)
     (auto simp: evolves_def loose_def bare_def handles_def live_handles_def same_range_def half_keys_def)

subsection \<open>Pages found by their key\<close>

lemma struct_okD:
  assumes "struct_ok s"
  shows "distinct (map pg_key (all_pages s))" "p \<in> set (all_pages s) \<Longrightarrow> pg_key p \<le> pn_next_key s"
    "p \<in> set (all_pages s) \<Longrightarrow> q \<in> set (all_pages s) \<Longrightarrow> pg_sub p = Some h \<Longrightarrow> pg_sub q = Some h \<Longrightarrow> pg_key p = pg_key q"
    "handles s \<subseteq> live_handles s" "h \<in> live_handles s \<Longrightarrow> h < pn_next_sub s"
    "distinct (map sp_original (pn_splits s))" "sp_original ` set (pn_splits s) \<subseteq> pg_key ` set (pn_pages s)"
    "pn_stopped s \<Longrightarrow> pn_pages s = [] \<and> pn_splits s = [] \<and> \<not> pn_on_update s"
    "own_once (set (all_pages s))"
  using assms unfolding struct_ok_def own_once_def by blast+

lemma same_key:
  assumes "struct_ok s" "p \<in> set (all_pages s)" "q \<in> set (all_pages s)" "pg_key p = pg_key q"
  shows "p = q"
  using struct_okD(1) [OF assms(1)] assms(2-4) by (auto simp: distinct_map inj_on_def)

lemma find_page_iff:
  "struct_ok s \<Longrightarrow> find_page key s = Some p \<longleftrightarrow> p \<in> set (all_pages s) \<and> pg_key p = key"
  using find_page_SomeD [of key s] find_page_None [of key s] same_key [of s]
  by (cases "find_page key s") fastforce+

lemma subs_set: "set (subs_of ps) = {h. \<exists>p \<in> set ps. pg_sub p = Some h}"
  by (force simp: subs_of_def List.map_filter_def)

lemma live_drop: "live_handles (drop_subs hs s) = live_handles s - set hs"
  by (force simp: live_handles_def)

lemma handles_drop [simp]: "handles (drop_subs hs s) = handles s" "bare (drop_subs hs s) = bare s"
  by (simp_all add: handles_def bare_def)

text \<open>Updating a page without touching its key and its range.\<close>

lemma links_map: "(\<And>p. pg_key (f p) = pg_key p) \<Longrightarrow> (\<And>p. pg_cursor (f p) = pg_cursor p) \<Longrightarrow>
    links (map f ps) = links ps"
  by (induction ps rule: links.induct) simp_all

lemma links_append: "links (xs @ y # ys) = links (xs @ [y]) @ links (y # ys)"
  by (induction xs rule: links.induct) simp_all

locale page_update =
  fixes f :: "page \<Rightarrow> page" and key :: page_key
  assumes keeps [simp]: "pg_key (f p) = pg_key p" "pg_cursor (f p) = pg_cursor p"
    "pg_end_cursor (f p) = pg_end_cursor p"
begin

lemma on_key_simps [simp]:
  "pg_key (on_key key f p) = pg_key p" "pg_cursor (on_key key f p) = pg_cursor p"
  "pg_end_cursor (on_key key f p) = pg_end_cursor p"
  by (simp_all add: on_key_def)

lemma splits_update:
  "map sp_original (pn_splits (update_page key f s)) = map sp_original (pn_splits s)"
  "split_ends (pn_splits (update_page key f s)) = split_ends (pn_splits s)"
  "set (pn_splits (update_page key f s)) = (\<lambda>sp. sp\<lparr>sp_first := on_key key f (sp_first sp),
     sp_second := on_key key f (sp_second sp)\<rparr>) ` set (pn_splits s)"
  by (auto simp: update_page_def comp_def split_ends_def image_image)

lemma keys_update:
  "map pg_key (map (on_key key f) ps) = map pg_key ps"
  by simp

lemma links_update: "links (map (on_key key f) ps) = links ps"
  by (rule links_map) simp_all

lemma split_ok_update:
  "split_ok ps sp \<Longrightarrow> split_ok (map (on_key key f) ps)
     (sp\<lparr>sp_first := on_key key f (sp_first sp), sp_second := on_key key f (sp_second sp)\<rparr>)"
  by (auto simp: split_ok_def)

lemma range_update: "same_range (on_key key f p) p"
  by (simp add: same_range_def)

text \<open>The seams survive when what the new results say of the end agrees with what is known.\<close>

lemma seam_update:
  assumes seam: "seam_ok s"
    and new: "\<And>p e e'. p \<in> set (all_pages s) \<Longrightarrow> pg_key p = key \<Longrightarrow>
      map_option pf_continue_cursor (fields (f p)) = Some e \<Longrightarrow>
      known_end (pn_pages s) (pn_splits s) p e' \<Longrightarrow> e' = e"
  shows "seam_ok (update_page key f s)"
proof -
  let ?s = "update_page key f s"
  have uniq: "a = b" if p: "p \<in> set (all_pages s)" and ab:
    "known_end (pn_pages ?s) (pn_splits ?s) (on_key key f p) a"
    "known_end (pn_pages ?s) (pn_splits ?s) (on_key key f p) b" for p a b
  proof -
    have old: "x = y" if "known_end (pn_pages s) (pn_splits s) p x" "known_end (pn_pages s) (pn_splits s) p y" for x y
      using seam p one_endD [OF _ that] unfolding seam_ok_def by blast
    have eq: "known_end (pn_pages ?s) (pn_splits ?s) (on_key key f p) e \<longleftrightarrow>
        map_option pf_continue_cursor (fields (on_key key f p)) = Some e \<or> pg_end_cursor p = Some e
        \<or> (pg_key p, Some e) \<in> set (links (pn_pages s)) \<or> (pg_key p, Some e) \<in> split_ends (pn_splits s)" for e
      by (simp add: known_end_def links_update splits_update)
    show ?thesis
    proof (cases "pg_key p = key")
      case False
      then have "on_key key f p = p" by (simp add: on_key_def)
      then show ?thesis using ab old unfolding eq by (simp add: known_end_def)
    next
      case True
      then have on: "on_key key f p = f p" by (simp add: on_key_def)
      have cases: "map_option pf_continue_cursor (fields (f p)) = Some e \<or> known_end (pn_pages s) (pn_splits s) p e"
        if "known_end (pn_pages ?s) (pn_splits ?s) (on_key key f p) e" for e
        using that unfolding eq by (auto simp: on known_end_def)
      from cases [OF ab(1)] cases [OF ab(2)] show ?thesis
        by (elim disjE; metis old new [OF p True] option.inject)
    qed
  qed
  have "split_ok (pn_pages ?s) sp" if "sp \<in> set (pn_splits ?s)" for sp
    using that seam split_ok_update by (auto simp: splits_update seam_ok_def)
  moreover have "\<forall>p ps. pn_pages ?s = p # ps \<longrightarrow> pg_cursor p = None \<and> (\<forall>q \<in> set ps. pg_cursor q \<noteq> None)"
    using seam by (auto simp: seam_ok_def map_eq_Cons_conv)
  moreover have "\<forall>p \<in> set (all_pages ?s). one_end (pn_pages ?s) (pn_splits ?s) p"
    unfolding one_end_def using uniq by simp
  ultimately show ?thesis unfolding seam_ok_def by blast
qed

lemma struct_update:
  assumes ok: "struct_ok s"
    and own: "\<And>p h. p \<in> set (all_pages s) \<Longrightarrow> pg_key p = key \<Longrightarrow> pg_sub (f p) = Some h \<Longrightarrow>
      pg_sub p = Some h \<or> h \<in> live_handles s - handles s"
  shows "struct_ok (update_page key f s)"
proof -
  have sub: "pg_key p = pg_key q"
    if pq: "p \<in> set (all_pages s)" "q \<in> set (all_pages s)"
      "pg_sub (on_key key f p) = Some h" "pg_sub (on_key key f q) = Some h" for p q h
  proof (cases "pg_key p = key \<longleftrightarrow> pg_key q = key")
    case True
    then show ?thesis using pq struct_okD(3) [OF ok pq(1,2)] by (cases "pg_key p = key") (auto simp: on_key_def)
  next
    case False
    then show ?thesis
      using pq own [of p h] own [of q h] struct_okD(3) [OF ok pq(1,2), of h]
      by (cases "pg_key p = key") (auto simp: on_key_def handles_def)
  qed
  have owned: "handles (update_page key f s) \<subseteq> live_handles s"
  proof
    fix h assume "h \<in> handles (update_page key f s)"
    then obtain p where p: "p \<in> set (all_pages s)" "pg_sub (on_key key f p) = Some h"
      by (auto simp: handles_def)
    show "h \<in> live_handles s"
    proof (cases "pg_sub p = Some h")
      case True
      then show ?thesis using p(1) struct_okD(4) [OF ok] by (auto simp: handles_def)
    next
      case False
      then show ?thesis using p own [of p h] by (auto simp: on_key_def split: if_splits)
    qed
  qed
  have "sp_original ` set (pn_splits (update_page key f s)) = sp_original ` set (pn_splits s)"
    using splits_update(1) [of s] by (metis set_map)
  moreover have "pn_splits (update_page key f s) = [] \<longleftrightarrow> pn_splits s = []" by (simp add: update_page_def)
  moreover have "live_handles (update_page key f s) = live_handles s" by (simp add: live_handles_def)
  ultimately show ?thesis
    unfolding struct_ok_def
  proof (intro conjI)
    show "own_once (set (all_pages (update_page key f s)))"
      unfolding own_once_def by clarsimp (erule (3) sub)
    have "map pg_key (all_pages (update_page key f s)) = map pg_key (all_pages s)" by simp
    then show "distinct (map pg_key (all_pages (update_page key f s)))" using struct_okD(1) [OF ok] by metis
  qed (use owned struct_okD(2,5,6,7,8) [OF ok] splits_update(1) [of s] in \<open>auto simp: image_image\<close>)
qed

end

interpretation sub: page_update "\<lambda>p. p\<lparr>pg_sub := h\<rparr>" key for h key
  by unfold_locales simp_all

interpretation res: page_update "\<lambda>p. p\<lparr>pg_result := Some r\<rparr>" key for r key
  by unfold_locales simp_all

subsection \<open>Attaching and dropping subscriptions\<close>

lemma seam_cong:
  "pn_pages s' = pn_pages s \<Longrightarrow> pn_splits s' = pn_splits s \<Longrightarrow> seam_ok s' = seam_ok s"
  using all_pages_cong [of s' s] by (simp add: seam_ok_def)

lemma drop_ok:
  assumes "pn_ok chk s" "set hs \<inter> handles s = {}"
  shows "pn_ok chk (drop_subs hs s)" "loose (drop_subs hs s) = loose s - set hs"
proof -
  have "struct_ok (drop_subs hs s)"
    using assms unfolding pn_ok_def struct_ok_def live_drop by auto
  then show "pn_ok chk (drop_subs hs s)"
    using assms(1) seam_cong [of "drop_subs hs s" s] by (simp add: pn_ok_def)
  show "loose (drop_subs hs s) = loose s - set hs"
    by (auto simp: loose_def live_drop)
qed

lemma attach_ok:
  fixes key :: page_key
  assumes ok: "pn_ok chk s" and h: "h \<in> loose s"
  defines "s' \<equiv> attach_sub key h s"
  shows "pn_ok chk s'" "loose s' = loose s - {h}" "bare s' \<subseteq> bare s - {key}"
    "p \<in> set (all_pages s') \<Longrightarrow> \<exists>q \<in> set (all_pages s). same_range p q"
    "pn_generation s' = pn_generation s" "pn_next_key s' = pn_next_key s" "pn_next_sub s' = pn_next_sub s"
    "half_keys s' = half_keys s"
proof -
  show "half_keys s' = half_keys s"
    by (simp add: s'_def attach_sub_def half_keys_def update_page_def image_image image_Un split: option.split)
  show "pn_generation s' = pn_generation s" "pn_next_key s' = pn_next_key s" "pn_next_sub s' = pn_next_sub s"
    by (simp_all add: s'_def attach_sub_def split: option.split)
  have st: "struct_ok s" using ok by (simp add: pn_ok_def)
  have hn: "h \<notin> handles s" "h \<in> live_handles s" using h by (simp_all add: loose_def)
  have "pn_ok chk s' \<and> loose s' = loose s - {h} \<and> bare s' \<subseteq> bare s - {key}
    \<and> (\<forall>p \<in> set (all_pages s'). \<exists>q \<in> set (all_pages s). same_range p q)"
  proof (cases "find_page key s")
    case None
    then have "s' = drop_subs [h] s" by (simp add: s'_def attach_sub_def)
    moreover have "key \<notin> bare s" using None by (auto simp: bare_def find_page_None)
    ultimately show ?thesis using drop_ok [OF ok, of "[h]"] hn by (auto simp: same_range_def)
  next
    case (Some cur)
    define t where "t = drop_subs (subs_of [cur]) s"
    let ?old = "{g. pg_sub cur = Some g}"
    have cur: "cur \<in> set (all_pages s)" "pg_key cur = key" using find_page_SomeD [OF Some] by simp_all
    have s': "s' = update_page key (\<lambda>p. p\<lparr>pg_sub := Some h\<rparr>) t"
      by (simp add: s'_def attach_sub_def Some t_def)
    have only: "p = cur" if "p \<in> set (all_pages s)" "pg_key p = key" for p
      using same_key [OF st that(1) cur(1)] that(2) cur(2) by simp
    have pages: "set (all_pages s') = insert (cur\<lparr>pg_sub := Some h\<rparr>) (set (all_pages s) - {cur})"
    proof -
      have "on_key key (\<lambda>p. p\<lparr>pg_sub := Some h\<rparr>) p = (if p = cur then cur\<lparr>pg_sub := Some h\<rparr> else p)"
        if "p \<in> set (all_pages s)" for p
        using cur(2) only [OF that] unfolding on_key_def by metis
      then have "set (all_pages s') = (\<lambda>p. if p = cur then cur\<lparr>pg_sub := Some h\<rparr> else p) ` set (all_pages s)"
        by (simp add: s' t_def cong: image_cong)
      then show ?thesis using cur(1) by auto
    qed
    have hs: "handles s' = insert h (handles s - ?old)"
    proof -
      have once: "pg_sub p \<noteq> Some g" if "p \<in> set (all_pages s)" "p \<noteq> cur" "pg_sub cur = Some g" for p g
        using struct_okD(3) [OF st that(1) cur(1) _ that(3)] only [OF that(1)] that(2) cur(2) by metis
      have "g \<in> handles s' \<longleftrightarrow> g = h \<or> (\<exists>p \<in> set (all_pages s) - {cur}. pg_sub p = Some g)" for g
        unfolding handles_def pages by auto
      moreover have "(\<exists>p \<in> set (all_pages s) - {cur}. pg_sub p = Some g) \<longleftrightarrow> g \<in> handles s \<and> pg_sub cur \<noteq> Some g" for g
        using once cur(1) unfolding handles_def by blast
      ultimately show ?thesis by blast
    qed
    have live: "live_handles s' = live_handles s - ?old"
    proof -
      have "live_handles s' = live_handles t" by (simp add: s' live_handles_def)
      then show ?thesis by (simp add: t_def live_drop subs_set)
    qed
    have "struct_ok s'"
    proof -
      have key: "\<exists>q \<in> set (all_pages s). pg_key p = pg_key q \<and> (pg_sub p = pg_sub q \<or> pg_sub p = Some h)"
        if "p \<in> set (all_pages s')" for p using that cur unfolding pages by auto
      have "map pg_key (all_pages s') = map pg_key (all_pages s)" by (simp add: s' t_def)
      then have "distinct (map pg_key (all_pages s'))" using struct_okD(1) [OF st] by metis
      moreover have "own_once (set (all_pages s'))"
        unfolding own_once_def pages
      proof (intro ballI allI impI)
        fix p q g assume pq: "p \<in> insert (cur\<lparr>pg_sub := Some h\<rparr>) (set (all_pages s) - {cur})"
          "q \<in> insert (cur\<lparr>pg_sub := Some h\<rparr>) (set (all_pages s) - {cur})"
          "pg_sub p = Some g" "pg_sub q = Some g"
        show "pg_key p = pg_key q"
        proof (cases "g = h")
          case True
          then have "p = cur\<lparr>pg_sub := Some h\<rparr>" "q = cur\<lparr>pg_sub := Some h\<rparr>"
            using pq hn(1) unfolding handles_def by blast+
          then show ?thesis by simp
        next
          case False
          then have "p \<in> set (all_pages s)" "q \<in> set (all_pages s)" using pq by auto
          then show ?thesis using struct_okD(3) [OF st] pq(3,4) by blast
        qed
      qed
      moreover have "pg_sub cur \<noteq> Some h" using hn(1) cur(1) unfolding handles_def by blast
      then have "handles s' \<subseteq> live_handles s'" using hs live struct_okD(4) [OF st] hn by auto
      moreover have "sp_original ` set (pn_splits s') = sp_original ` set (pn_splits s)"
        "map sp_original (pn_splits s') = map sp_original (pn_splits s)" "pn_splits s' = [] \<longleftrightarrow> pn_splits s = []"
        "pg_key ` set (pn_pages s') = pg_key ` set (pn_pages s)"
        using sub.splits_update(1) [of key "Some h" t] by (simp_all add: s' t_def image_image) (metis set_map, simp add: update_page_def)
      ultimately show ?thesis
        using struct_okD(2,5,6,7,8) [OF st] live key unfolding struct_ok_def by (auto simp: s' t_def)
    qed
    moreover have "seam_ok s'" if "seam_ok s"
    proof -
      have seam: "seam_ok t" using that seam_cong [of t s] by (simp add: t_def)
      show ?thesis
        unfolding s'
      proof (rule sub.seam_update [OF seam])
        fix p e e' assume p: "p \<in> set (all_pages t)" and e': "known_end (pn_pages t) (pn_splits t) p e'"
          and "map_option pf_continue_cursor (fields (p\<lparr>pg_sub := Some h\<rparr>)) = Some e"
        then have "known_end (pn_pages t) (pn_splits t) p e" by (simp add: known_end_def fields_def)
        then show "e' = e" using seam p e' one_endD unfolding seam_ok_def by blast
      qed
    qed
    ultimately have "pn_ok chk s'" using ok by (simp add: pn_ok_def s' t_def)
    moreover have "loose s' = loose s - {h}" using hs live struct_okD(4) [OF st] cur(1)
      by (auto simp: loose_def handles_def)
    moreover have "bare s' \<subseteq> bare s - {key}" unfolding bare_def pages using only by auto
    moreover have "\<forall>p \<in> set (all_pages s'). \<exists>q \<in> set (all_pages s). same_range p q"
      unfolding pages using cur by (auto simp: same_range_def)
    ultimately show ?thesis by blast
  qed
  then show "pn_ok chk s'" "loose s' = loose s - {h}" "bare s' \<subseteq> bare s - {key}"
    "p \<in> set (all_pages s') \<Longrightarrow> \<exists>q \<in> set (all_pages s). same_range p q" by blast+
qed

end
