(* ===== verification/PaginatedSeams.thy ===== *)
theory PaginatedSeams
  imports PaginatedInv "HOL-Library.Multiset"
begin

section \<open>Pages that come and go\<close>

text \<open>
  What the invariants need when pages are removed with their subscriptions, when fresh pages are
  added, and when the two halves of a split take the place of the page they cover.
\<close>

subsection \<open>Keys and subscriptions\<close>

lemma remove_ok:
  assumes ok: "struct_ok s"
    and ms: "mset (all_pages s) = mset (all_pages s') + mset gone"
    and fl: "pn_live s' = pn_live (drop_subs (subs_of gone) s)" "pn_next_key s' = pn_next_key s"
      "pn_next_sub s' = pn_next_sub s"
    and orig: "distinct (map sp_original (pn_splits s'))"
      "sp_original ` set (pn_splits s') \<subseteq> pg_key ` set (pn_pages s')"
    and stop: "pn_stopped s' \<Longrightarrow> pn_pages s' = [] \<and> pn_splits s' = [] \<and> \<not> pn_on_update s'"
  shows "struct_ok s'" "loose s' = loose s" "bare s' \<subseteq> bare s" "set (all_pages s') \<subseteq> set (all_pages s)"
proof -
  have set: "set (all_pages s) = set (all_pages s') \<union> set gone"
    using arg_cong [OF ms, of set_mset] by simp
  show sub: "set (all_pages s') \<subseteq> set (all_pages s)" using set by simp
  have "mset (map pg_key (all_pages s)) = mset (map pg_key (all_pages s')) + mset (map pg_key gone)"
    using arg_cong [OF ms, of "image_mset pg_key"] by simp
  then have "distinct (map pg_key (all_pages s') @ map pg_key gone)"
    using struct_okD(1) [OF ok] mset_eq_imp_distinct_iff by (metis mset_append)
  then have dis: "distinct (map pg_key (all_pages s'))" "pg_key ` set (all_pages s') \<inter> pg_key ` set gone = {}"
    by auto
  have live: "live_handles s' = live_handles s - set (subs_of gone)"
    using live_drop [of "subs_of gone" s] fl(1) by (simp add: live_handles_def)
  have apart: "pg_sub p \<noteq> Some h" if "p \<in> set (all_pages s')" "h \<in> set (subs_of gone)" for p h
    using that set struct_okD(3) [OF ok, of p _ h] dis(2) unfolding subs_set by blast
  have hs: "handles s = handles s' \<union> set (subs_of gone)"
    unfolding handles_def set subs_set by auto
  have "handles s' \<subseteq> live_handles s'"
    using apart struct_okD(4) [OF ok] unfolding hs live by (auto simp: handles_def)
  moreover have "own_once (set (all_pages s'))"
    using struct_okD(9) [OF ok] sub unfolding own_once_def by blast
  ultimately show "struct_ok s'"
    using dis(1) orig stop struct_okD(2,5) [OF ok] sub live fl(2,3) unfolding struct_ok_def by auto
  show "loose s' = loose s" unfolding loose_def hs live by blast
  show "bare s' \<subseteq> bare s" using sub unfolding bare_def by auto
qed

lemma evolves_remove:
  assumes "loose s' = loose s" "bare s' \<subseteq> bare s" "set (all_pages s') \<subseteq> set (all_pages s)"
    "half_keys s' \<subseteq> half_keys s" "pn_next_key s' = pn_next_key s" "pn_next_sub s' = pn_next_sub s"
    "pn_generation s' = pn_generation s \<or> pn_generation s \<le> pn_generation s' \<and> all_pages s' = []"
  shows "evolves s s'"
  using assms unfolding evolves_def same_range_def by auto

text \<open>Fresh pages, which have no subscription yet.\<close>

definition grows :: "paginated \<Rightarrow> paginated \<Rightarrow> page list \<Rightarrow> bool" where
  "grows s s' new \<longleftrightarrow> mset (all_pages s') = mset (all_pages s) + mset new
     \<and> (\<forall>p \<in> set new. pn_next_key s < pg_key p \<and> pg_key p \<le> pn_next_key s' \<and> pg_sub p = None)
     \<and> distinct (map pg_key new) \<and> pn_next_key s \<le> pn_next_key s'
     \<and> pn_live s' = pn_live s \<and> pn_next_sub s' = pn_next_sub s \<and> pn_generation s' = pn_generation s
     \<and> pn_stopped s' = pn_stopped s \<and> half_keys s' \<subseteq> half_keys s \<union> pg_key ` set new"

lemma grows_set: "grows s s' new \<Longrightarrow> set (all_pages s') = set (all_pages s) \<union> set new"
proof -
  assume "grows s s' new"
  then have "mset (all_pages s') = mset (all_pages s @ new)" by (simp add: grows_def)
  from mset_eq_setD [OF this] show ?thesis by simp
qed

lemma grow_ok:
  assumes ok: "struct_ok s" and g: "grows s s' new" and run: "\<not> pn_stopped s"
    and orig: "distinct (map sp_original (pn_splits s'))"
      "sp_original ` set (pn_splits s') \<subseteq> pg_key ` set (pn_pages s')"
  shows "struct_ok s'" "loose s' = loose s" "bare s' = bare s \<union> pg_key ` set new"
proof -
  have set: "set (all_pages s') = set (all_pages s) \<union> set new"
    using grows_set [OF g] .
  have fresh: "pg_key p \<notin> pg_key ` set new" if "p \<in> set (all_pages s)" for p
  proof
    assume "pg_key p \<in> pg_key ` set new"
    then have "pn_next_key s < pg_key p" using g unfolding grows_def by auto
    then show False using struct_okD(2) [OF ok that] by simp
  qed
  have none: "pg_sub p = None" if "p \<in> set new" for p using g that unfolding grows_def by blast
  have eqs: "pn_live s' = pn_live s" "pn_next_sub s' = pn_next_sub s" "pn_stopped s' = pn_stopped s"
    using g unfolding grows_def by simp_all
  have "distinct (map pg_key (all_pages s) @ map pg_key new)"
    using struct_okD(1) [OF ok] g fresh unfolding grows_def by auto
  moreover have "mset (map pg_key (all_pages s')) = mset (map pg_key (all_pages s) @ map pg_key new)"
    using g unfolding grows_def by simp
  ultimately have "distinct (map pg_key (all_pages s'))" using mset_eq_imp_distinct_iff by blast
  moreover have hs: "handles s' = handles s" unfolding handles_def set using none by (metis (lifting) Un_iff option.distinct(1))
  moreover have live: "live_handles s' = live_handles s" by (simp add: live_handles_def eqs)
  moreover have "own_once (set (all_pages s'))"
    unfolding set own_once_def
  proof (intro ballI allI impI)
    fix p q h assume "p \<in> set (all_pages s) \<union> set new" "q \<in> set (all_pages s) \<union> set new"
      "pg_sub p = Some h" "pg_sub q = Some h"
    then have "p \<in> set (all_pages s)" "q \<in> set (all_pages s)" using none by fastforce+
    with \<open>pg_sub p = Some h\<close> \<open>pg_sub q = Some h\<close> show "pg_key p = pg_key q" using struct_okD(3) [OF ok] by blast
  qed
  moreover have "pg_key p \<le> pn_next_key s'" if "p \<in> set (all_pages s')" for p
    using that
  proof (unfold set, elim UnE)
    assume "p \<in> set (all_pages s)"
    then have "pg_key p \<le> pn_next_key s" by (rule struct_okD(2) [OF ok])
    then show ?thesis using g unfolding grows_def by simp
  qed (use g in \<open>simp add: grows_def\<close>)
  ultimately show "struct_ok s'"
    using struct_okD(4,5) [OF ok] orig run unfolding struct_ok_def by (simp add: eqs)
  show "loose s' = loose s" by (simp add: loose_def hs live)
  show "bare s' = bare s \<union> pg_key ` set new" unfolding bare_def set using none by auto
qed

lemma evolves_grow:
  assumes g: "grows s s' new" and l: "loose s' = loose s" "bare s' = bare s \<union> pg_key ` set new"
    and e: "evolves s' t" and b: "bare t \<inter> pg_key ` set new = {}"
  shows "evolves s t"
proof -
  have set: "set (all_pages s') = set (all_pages s) \<union> set new"
    using grows_set [OF g] .
  have big: "\<not> key \<le> pn_next_key s" if "key \<in> pg_key ` set new" for key
    using that g unfolding grows_def by auto
  have le: "pn_next_key s \<le> pn_next_key s'" "pn_generation s' = pn_generation s" "pn_next_sub s' = pn_next_sub s"
    "half_keys s' \<subseteq> half_keys s \<union> pg_key ` set new"
    using g unfolding grows_def by auto
  have "pn_generation t = pn_generation s \<and> (\<exists>q \<in> set (all_pages s). same_range p q)"
    if p: "p \<in> set (all_pages t)" "pg_key p \<le> pn_next_key s" for p
  proof -
    obtain q where q: "q \<in> set (all_pages s')" "same_range p q" "pn_generation t = pn_generation s'"
      using e p le(1) unfolding evolves_def by (meson order.trans)
    then have "q \<notin> set new" using big [of "pg_key q"] p(2) unfolding same_range_def by auto
    then show ?thesis using q le(2) set by auto
  qed
  moreover have "key \<in> half_keys s" if "key \<in> half_keys t" "key \<le> pn_next_key s" for key
    using e that le(1,4) big unfolding evolves_def by (meson Un_iff order.trans subsetD)
  ultimately show ?thesis
    using e le l b unfolding evolves_def by auto
qed

subsection \<open>Seams of the pages that come\<close>

lemma links_snoc:
  "links (ps @ [n]) = links ps @ (if ps = [] then [] else [(pg_key (last ps), pg_cursor n)])"
  by (induction ps rule: links.induct) auto

lemma links_keys: "(key, c) \<in> set (links ps) \<Longrightarrow> key \<in> pg_key ` set ps"
  by (induction ps rule: links.induct) auto

lemma unlinked:
  assumes "struct_ok s" "pn_next_key s < key"
  shows "(key, c) \<notin> set (links (pn_pages s))" "(key, c) \<notin> split_ends (pn_splits s)"
proof -
  have "pg_key p \<noteq> key" if "p \<in> set (pn_pages s)" for p
    using struct_okD(2) [OF assms(1), of p] that assms(2) by (auto simp: set_all_pages)
  then have none: "key \<notin> pg_key ` set (pn_pages s)" by blast
  then show "(key, c) \<notin> set (links (pn_pages s))" using links_keys by blast
  have "key \<notin> sp_original ` set (pn_splits s)" using none struct_okD(7) [OF assms(1)] by blast
  then show "(key, c) \<notin> split_ends (pn_splits s)" by (auto simp: split_ends_def)
qed

lemma page_in_all: "p \<in> set (pn_pages s) \<Longrightarrow> p \<in> set (all_pages s)"
  by (simp add: set_all_pages)

lemma seam_okD:
  assumes "seam_ok s"
  shows "p \<in> set (all_pages s) \<Longrightarrow> one_end (pn_pages s) (pn_splits s) p"
    "pn_pages s = p # ps \<Longrightarrow> pg_cursor p = None" "pn_pages s = p # ps \<Longrightarrow> q \<in> set ps \<Longrightarrow> pg_cursor q \<noteq> None"
    "sp \<in> set (pn_splits s) \<Longrightarrow> split_ok (pn_pages s) sp"
  using assms unfolding seam_ok_def by blast+

lemma seam_append:
  assumes st: "struct_ok s" and seam: "seam_ok s" and key: "pn_next_key s < key"
    and s': "pn_pages s' = pn_pages s @ [new_page key c None]" "pn_splits s' = pn_splits s"
    and c: "pn_pages s = [] \<Longrightarrow> c = None"
      "pn_pages s \<noteq> [] \<Longrightarrow> \<exists>e. c = Some e \<and> known_end (pn_pages s) (pn_splits s) (last (pn_pages s)) e"
  shows "seam_ok s'" "\<not> known_end (pn_pages s') (pn_splits s') (new_page key c None) e"
proof -
  let ?n = "new_page key c None"
  have all: "set (all_pages s') = insert ?n (set (all_pages s))" by (auto simp: set_all_pages s')
  have last: "last (pn_pages s) \<in> set (all_pages s)" if "pn_pages s \<noteq> []" using that by (simp add: page_in_all)
  have links: "set (links (pn_pages s')) = set (links (pn_pages s)) \<union>
      (if pn_pages s = [] then {} else {(pg_key (last (pn_pages s)), c)})"
    by (simp add: s' links_snoc new_page_def)
  have new: "\<not> known_end (pn_pages s') (pn_splits s') ?n e" for e
    using unlinked [OF st key] struct_okD(2) [OF st last] key
    unfolding known_end_def links s'(2) by (auto simp: new_page_def fields_def)
  then show "\<not> known_end (pn_pages s') (pn_splits s') ?n e" .
  have old: "known_end (pn_pages s) (pn_splits s) p e"
    if p: "p \<in> set (all_pages s)" and e: "known_end (pn_pages s') (pn_splits s') p e" for p e
  proof (cases "pn_pages s \<noteq> [] \<and> p = last (pn_pages s) \<and> c = Some e")
    case True
    then show ?thesis using c(2) by auto
  next
    case False
    have "p = last (pn_pages s)" if "pn_pages s \<noteq> []" "pg_key p = pg_key (last (pn_pages s))"
      using same_key [OF st p last] that by blast
    then show ?thesis using e False unfolding known_end_def links s'(2) by (auto split: if_splits)
  qed
  have "one_end (pn_pages s') (pn_splits s') p" if "p \<in> set (all_pages s')" for p
    using that new old seam_okD(1) [OF seam] unfolding all one_end_def by blast
  moreover have "split_ok (pn_pages s') sp" if "sp \<in> set (pn_splits s')" for sp
  proof -
    have "sp_original sp \<noteq> key"
      using that struct_okD(7) [OF st] struct_okD(2) [OF st page_in_all] key unfolding s' by fastforce
    then show ?thesis using that seam_okD(4) [OF seam, of sp] by (auto simp: s' split_ok_def new_page_def)
  qed
  moreover have "pg_cursor p = None \<and> (\<forall>q \<in> set ps. pg_cursor q \<noteq> None)" if "pn_pages s' = p # ps" for p ps
  proof (cases "pn_pages s")
    case Nil
    then show ?thesis using that c(1) by (auto simp: s' new_page_def)
  next
    case (Cons a as)
    then show ?thesis using that c(2) seam_okD(2,3) [OF seam Cons] by (auto simp: s' new_page_def)
  qed
  ultimately show "seam_ok s'" unfolding seam_ok_def by blast
qed

lemma seam_split:
  assumes st: "struct_ok s" and seam: "seam_ok s"
    and orig: "orig \<in> set (pn_pages s)" "known_end (pn_pages s) (pn_splits s) orig cc"
    and keys: "pn_next_key s < k1" "pn_next_key s < k2"
    and s': "pn_pages s' = pn_pages s"
      "pn_splits s' = pn_splits s @ [\<lparr>sp_original = pg_key orig,
         sp_first = new_page k1 (pg_cursor orig) (Some sc), sp_second = new_page k2 (Some sc) (Some cc)\<rparr>]"
  shows "seam_ok s'"
proof -
  let ?a = "new_page k1 (pg_cursor orig) (Some sc)" and ?b = "new_page k2 (Some sc) (Some cc)"
  have all: "set (all_pages s') = set (all_pages s) \<union> {?a, ?b}" by (auto simp: set_all_pages s')
  have ends: "split_ends (pn_splits s') = insert (pg_key orig, Some cc) (split_ends (pn_splits s))"
    by (simp add: split_ends_def s' new_page_def)
  have small: "pg_key orig \<le> pn_next_key s" by (rule struct_okD(2) [OF st page_in_all [OF orig(1)]])
  have new: "pg_end_cursor p = Some e" if "p \<in> {?a, ?b}" "known_end (pn_pages s') (pn_splits s') p e" for p e
    using that small unlinked [OF st keys(1)] unlinked [OF st keys(2)] keys
    unfolding known_end_def ends s'(1) by (auto simp: new_page_def fields_def)
  have old: "known_end (pn_pages s) (pn_splits s) p e"
    if p: "p \<in> set (all_pages s)" and e: "known_end (pn_pages s') (pn_splits s') p e" for p e
  proof (cases "pg_key p = pg_key orig \<and> e = cc")
    case True
    then have "p = orig" using same_key [OF st p page_in_all [OF orig(1)]] by blast
    then show ?thesis using True orig(2) by blast
  next
    case False
    then show ?thesis using e unfolding known_end_def ends s'(1) by auto
  qed
  have "one_end (pn_pages s') (pn_splits s') p" if "p \<in> set (all_pages s')" for p
  proof (cases "p \<in> set (all_pages s)")
    case True
    then show ?thesis using old seam_okD(1) [OF seam] unfolding one_end_def by blast
  next
    case False
    then have "p \<in> {?a, ?b}" using that unfolding all by blast
    then show ?thesis using new unfolding one_end_def by (metis option.inject)
  qed
  moreover have "split_ok (pn_pages s') sp" if "sp \<in> set (pn_splits s')" for sp
  proof -
    have "pg_cursor p = pg_cursor orig" if "p \<in> set (pn_pages s)" "pg_key p = pg_key orig" for p
      using same_key [OF st page_in_all [OF that(1)] page_in_all [OF orig(1)] that(2)] by simp
    then show ?thesis using that seam_okD(4) [OF seam, of sp] unfolding s'
      by (auto simp: split_ok_def new_page_def)
  qed
  ultimately show ?thesis using seam_okD(2,3) [OF seam] s'(1) unfolding seam_ok_def by simp
qed

text \<open>The pages after a split: the two halves stand where the page they replace stood.\<close>

lemma swap_in_split:
  assumes "distinct (map pg_key (xs @ old # ys))" "pg_key old = sp_original sp"
  shows "swap_in sp (xs @ old # ys) = xs @ sp_first sp # sp_second sp # ys"
proof -
  have "swap_in sp zs = zs" if "\<forall>p \<in> set zs. pg_key p \<noteq> sp_original sp" for zs
    using that by (induction zs) (auto simp: swap_in_def)
  moreover have "swap_in sp (xs @ old # ys) = swap_in sp xs @ swap_in sp [old] @ swap_in sp ys"
    by (simp add: swap_in_def)
  moreover have "swap_in sp [old] = [sp_first sp, sp_second sp]" using assms(2) by (simp add: swap_in_def)
  moreover have "\<forall>p \<in> set xs. pg_key p \<noteq> sp_original sp" "\<forall>p \<in> set ys. pg_key p \<noteq> sp_original sp"
    using assms by (auto simp: image_iff)
  ultimately show ?thesis by simp
qed

lemma drop_nth_split:
  assumes "n < length xs"
  obtains us vs where "xs = us @ xs ! n # vs" "drop_nth n xs = us @ vs"
  using id_take_nth_drop [OF assms] unfolding drop_nth_def by blast

lemma mset_concat_drop_nth:
  assumes "n < length xs"
  shows "mset (concat (map f xs)) = mset (f (xs ! n)) + mset (concat (map f (drop_nth n xs)))"
proof -
  obtain us vs where xs: "xs = us @ xs ! n # vs" "drop_nth n xs = us @ vs" by (rule drop_nth_split [OF assms])
  have "mset (concat (map f (us @ x # vs))) = mset (f x) + mset (concat (map f (us @ vs)))" for x by simp
  then show ?thesis using xs by metis
qed

lemma set_drop_nth: "n < length xs \<Longrightarrow> set xs = insert (xs ! n) (set (drop_nth n xs))"
  by (rule drop_nth_split [of n xs]) (assumption, metis Un_insert_right list.simps(15) set_append)

lemma distinct_drop_nth:
  assumes "n < length xs" "distinct (map f xs)"
  shows "distinct (map f (drop_nth n xs))" "f (xs ! n) \<notin> f ` set (drop_nth n xs)"
proof -
  obtain us vs where xs: "xs = us @ xs ! n # vs" "drop_nth n xs = us @ vs" by (rule drop_nth_split [OF assms(1)])
  have "distinct (map f (us @ xs ! n # vs))" using assms(2) xs(1) by metis
  then show "distinct (map f (drop_nth n xs))" "f (xs ! n) \<notin> f ` set (drop_nth n xs)" unfolding xs(2) by auto
qed

lemma links_head: "links (xs @ [a]) = links (xs @ [b])" if "pg_cursor a = pg_cursor b"
  using that by (simp add: links_snoc)

lemma seam_swap:
  assumes st: "struct_ok s" and seam: "seam_ok s" and i: "i < length (pn_splits s)" "sp = pn_splits s ! i"
    and pages: "pn_pages s = xs @ old # ys" "pg_key old = sp_original sp"
    and s': "pn_pages s' = xs @ sp_first sp # sp_second sp # ys" "pn_splits s' = drop_nth i (pn_splits s)"
  shows "seam_ok s'"
proof -
  let ?a = "sp_first sp" and ?b = "sp_second sp"
  have sp: "sp \<in> set (pn_splits s)" using i by simp
  have all: "set (all_pages s') \<subseteq> set (all_pages s)" "?a \<in> set (all_pages s)" "?b \<in> set (all_pages s)"
    "old \<in> set (all_pages s)"
    using set_drop_nth [OF i(1)] sp by (auto simp: set_all_pages s' pages(1))
  obtain x y where ok: "pg_cursor ?a = pg_cursor old" "pg_end_cursor ?a = Some x" "pg_cursor ?b = Some x"
    "pg_end_cursor ?b = Some y"
    using seam_okD(4) [OF seam sp] pages unfolding split_ok_def by auto
  have "distinct (map pg_key (xs @ old # ys @ [?a, ?b]))"
  proof -
    have "mset (map pg_key (all_pages s)) = mset (map pg_key (xs @ old # ys @ [?a, ?b]
        @ concat (map (\<lambda>sp. [sp_first sp, sp_second sp]) (drop_nth i (pn_splits s)))))"
      unfolding all_pages_def map_append mset_append mset_map
      using mset_concat_drop_nth [OF i(1), of "\<lambda>sp. [sp_first sp, sp_second sp]"] i(2) by (simp add: pages(1))
    from mset_eq_imp_distinct_iff [OF this]
    have "distinct (map pg_key ((xs @ old # ys @ [?a, ?b])
        @ concat (map (\<lambda>sp. [sp_first sp, sp_second sp]) (drop_nth i (pn_splits s)))))"
      using struct_okD(1) [OF st] by simp
    then show ?thesis unfolding map_append distinct_append by blast
  qed
  then have keys: "pg_key ?a \<noteq> pg_key ?b" "\<forall>p \<in> set (pn_pages s). pg_key p \<noteq> pg_key ?a \<and> pg_key p \<noteq> pg_key ?b"
    by (auto simp: pages(1) image_iff)
  have ends: "split_ends (pn_splits s) = insert (pg_key old, Some y) (split_ends (pn_splits s'))"
    unfolding split_ends_def s' using set_drop_nth [OF i(1)] i(2) pages(2) ok(4) by simp
  have links: "(key, c) \<in> set (links (pn_pages s)) \<or> (key = pg_key ?a \<and> c = Some x)
      \<or> (key = pg_key ?b \<and> (pg_key old, c) \<in> set (links (pn_pages s)))"
    if "(key, c) \<in> set (links (pn_pages s'))" for key c
    using that links_append [of xs ?a "?b # ys"] links_append [of xs old ys] links_head [OF ok(1), of xs] ok(3)
    unfolding s' pages(1) by (cases ys) auto
  have known: "known_end (pn_pages s) (pn_splits s) p e"
    if p: "p \<in> set (all_pages s)" and e: "known_end (pn_pages s') (pn_splits s') p e" for p e
  proof -
    have "(pg_key p, Some e) \<in> set (links (pn_pages s)) \<or> pg_end_cursor p = Some e"
      if l: "(pg_key p, Some e) \<in> set (links (pn_pages s'))"
      using links [OF l]
    proof (elim disjE conjE)
      assume "pg_key p = pg_key ?a" "Some e = Some x"
      then show ?thesis using same_key [OF st p all(2)] ok(2) by simp
    next
      assume b: "pg_key p = pg_key ?b" and "(pg_key old, Some e) \<in> set (links (pn_pages s))"
      then have "known_end (pn_pages s) (pn_splits s) old e" "known_end (pn_pages s) (pn_splits s) old y"
        using ends unfolding known_end_def by blast+
      then have "e = y" by (rule one_endD [OF seam_okD(1) [OF seam all(4)]])
      then show ?thesis using same_key [OF st p all(3) b] ok(4) by simp
    qed simp
    then show ?thesis using e ends unfolding known_end_def by blast
  qed
  have "one_end (pn_pages s') (pn_splits s') p" if "p \<in> set (all_pages s')" for p
    using known seam_okD(1) [OF seam] all(1) that unfolding one_end_def by blast
  moreover have "split_ok (pn_pages s') sq" if sq: "sq \<in> set (pn_splits s')" for sq
  proof -
    have "sq \<in> set (pn_splits s)" using sq set_drop_nth [OF i(1)] unfolding s' by blast
    moreover from this have "sp_original sq \<in> pg_key ` set (pn_pages s)" using struct_okD(7) [OF st] by blast
    then have "sp_original sq \<noteq> pg_key ?a" "sp_original sq \<noteq> pg_key ?b" using keys(2) by force+
    ultimately show ?thesis using seam_okD(4) [OF seam, of sq] unfolding s' pages(1) by (auto simp: split_ok_def)
  qed
  moreover have "pg_cursor p = None \<and> (\<forall>q \<in> set ps. pg_cursor q \<noteq> None)" if "pn_pages s' = p # ps" for p ps
  proof (cases xs)
    case Nil
    then show ?thesis using that ok(1,3) seam_okD(2,3) [OF seam, of old ys] pages(1) by (auto simp: s')
  next
    case (Cons z zs)
    then show ?thesis
      using that ok(1,3) seam_okD(2,3) [OF seam, of z "zs @ old # ys"] pages(1) by (auto simp: s')
  qed
  ultimately show ?thesis unfolding seam_ok_def by blast
qed

end
