(* ===== verification/PaginatedSteps.thy ===== *)
theory PaginatedSteps
  imports PaginatedSeams
begin

section \<open>Every operation of a paginated query keeps its invariants\<close>

text \<open>
  One lemma per operation, all inside the locale of what may re-enter: a callback that is run in
  the middle of an operation keeps the invariants and only lets the state evolve. The callbacks of
  the model have this property, by induction on the depth of their nesting.
\<close>

definition keeps :: "bool \<Rightarrow> paginated \<Rightarrow> paginated \<Rightarrow> bool" where
  "keeps chk s s' \<longleftrightarrow> pn_ok chk s' \<and> evolves s s'"

lemma keeps_refl: "pn_ok chk s \<Longrightarrow> keeps chk s s"
  by (simp add: keeps_def)

lemma keeps_trans: "keeps chk s t \<Longrightarrow> keeps chk t u \<Longrightarrow> keeps chk s u"
  unfolding keeps_def using evolves_trans by blast

lemma keeps_ok: "keeps chk s t \<Longrightarrow> pn_ok chk t"
  by (simp add: keeps_def)

subsection \<open>A subscription that is being made\<close>

definition with_sub :: "value_object \<Rightarrow> paginated \<Rightarrow> paginated" where
  "with_sub args s = s\<lparr>pn_next_sub := pn_next_sub s + 1, pn_live := pn_live s @ [(pn_next_sub s, args)]\<rparr>"

lemma with_sub_simps [simp]:
  "pn_pages (with_sub args s) = pn_pages s" "pn_splits (with_sub args s) = pn_splits s"
  "all_pages (with_sub args s) = all_pages s" "pn_next_key (with_sub args s) = pn_next_key s"
  "pn_generation (with_sub args s) = pn_generation s" "pn_stopped (with_sub args s) = pn_stopped s"
  "pn_on_update (with_sub args s) = pn_on_update s" "handles (with_sub args s) = handles s"
  "bare (with_sub args s) = bare s" "half_keys (with_sub args s) = half_keys s"
  "pn_next_sub (with_sub args s) = Suc (pn_next_sub s)" "find_page key (with_sub args s) = find_page key s"
  "live_handles (with_sub args s) = insert (pn_next_sub s) (live_handles s)"
  by (auto simp: with_sub_def all_pages_def handles_def bare_def half_keys_def live_handles_def find_page_def)

lemma with_sub_ok:
  assumes "pn_ok chk s"
  shows "pn_ok chk (with_sub args s)" "loose (with_sub args s) = insert (pn_next_sub s) (loose s)"
    "pn_next_sub s \<notin> loose s"
proof -
  have st: "struct_ok s" using assms by (simp add: pn_ok_def)
  have new: "pn_next_sub s \<notin> live_handles s" using struct_okD(5) [OF st] by blast
  then show "pn_next_sub s \<notin> loose s" by (simp add: loose_def)
  have "struct_ok (with_sub args s)"
    using st struct_okD(4,5) [OF st] unfolding struct_ok_def by (auto intro: less_SucI)
  moreover have "seam_ok (with_sub args s) = seam_ok s" by (rule seam_cong) simp_all
  ultimately show "pn_ok chk (with_sub args s)" using assms by (simp add: pn_ok_def)
  show "loose (with_sub args s) = insert (pn_next_sub s) (loose s)"
    using new struct_okD(4) [OF st] by (auto simp: loose_def)
qed

lemma evolves_with_sub:
  assumes ok: "pn_ok chk s" and e: "evolves (with_sub args s) t" and l: "loose t' = loose t - {pn_next_sub s}"
    and t': "bare t' \<subseteq> bare t" "half_keys t' = half_keys t" "pn_generation t' = pn_generation t"
      "pn_next_key t' = pn_next_key t" "pn_next_sub t' = pn_next_sub t"
      "\<And>p. p \<in> set (all_pages t') \<Longrightarrow> \<exists>q \<in> set (all_pages t). same_range p q"
  shows "evolves s t'"
proof -
  have "loose t' = loose s" using e l with_sub_ok(2,3) [OF ok] unfolding evolves_def by auto
  moreover have "pn_generation t' = pn_generation s \<and> (\<exists>q \<in> set (all_pages s). same_range p q)"
    if p: "p \<in> set (all_pages t')" "pg_key p \<le> pn_next_key s" for p
  proof -
    obtain q where q: "q \<in> set (all_pages t)" "same_range p q" using t'(6) [OF p(1)] by blast
    then obtain r where "r \<in> set (all_pages s)" "same_range q r" "pn_generation t = pn_generation s"
      using e p(2) unfolding evolves_def same_range_def by auto
    then show ?thesis using q(2) t'(3) unfolding same_range_def by metis
  qed
  ultimately show ?thesis using e t' unfolding evolves_def by auto
qed

subsection \<open>The operations\<close>

locale reentrant =
  fixes k :: reenter and cached :: cache and chk :: bool
  assumes k_keeps: "pn_ok chk s \<Longrightarrow> (chk \<Longrightarrow> event_ok s ev) \<Longrightarrow> k ev s = Some s' \<Longrightarrow> keeps chk s s'"
    and cache_keeps: "chk \<Longrightarrow> cache_ok cached"
begin

lemma subscribe_ok:
  assumes ok: "pn_ok chk s"
    and new: "\<And>p e. chk \<Longrightarrow> find_page key s = Some p \<Longrightarrow> pg_end_cursor p = None \<Longrightarrow>
      \<not> known_end (pn_pages s) (pn_splits s) p e"
    and r: "subscribe_page k cached key n s = Some s'"
  shows "keeps chk s s'" "key \<notin> bare s'"
proof -
  have "keeps chk s s' \<and> key \<notin> bare s'"
  proof (cases "find_page key s")
    case None
    then have "s' = s" using r by (simp add: subscribe_page_def)
    then show ?thesis using None keeps_refl [OF ok] by (auto simp: bare_def find_page_None)
  next
    case (Some p)
    define args where "args = page_args s p n"
    define h where "h = pn_next_sub s"
    define s1 where "s1 = with_sub args s"
    have ok1: "pn_ok chk s1" unfolding s1_def by (rule with_sub_ok(1) [OF ok])
    obtain s2 where s2: "(case cached args of None \<Rightarrow> Some s1 | Some r \<Rightarrow> k (Page_result (pn_generation s) key r) s1) = Some s2"
      and s': "s' = (if pn_generation s2 \<noteq> pn_generation s then drop_subs [h] s2 else attach_sub key h s2)"
      using r unfolding subscribe_page_def Some option.case Let_def s1_def with_sub_def args_def h_def
      by (auto simp: bind_eq_Some_conv)
    have "keeps chk s1 s2"
    proof (cases "cached args")
      case None
      then show ?thesis using s2 keeps_refl [OF ok1] by simp
    next
      case (Some res)
      have "event_ok s1 (Page_result (pn_generation s) key res)" if c: chk
      proof -
        have "pf_continue_cursor f = e" if f: "result_fields res = Some f"
          and e: "known_end (pn_pages s) (pn_splits s) p e" for f e
        proof (cases "pg_end_cursor p")
          case None
          then show ?thesis using new [OF c \<open>find_page key s = Some p\<close> None] e by blast
        next
          case (Some x)
          have "p \<in> set (all_pages s)" using find_page_SomeD [OF \<open>find_page key s = Some p\<close>] by simp
          then have one: "one_end (pn_pages s) (pn_splits s) p" using ok c by (auto simp: pn_ok_def seam_ok_def)
          have "known_end (pn_pages s) (pn_splits s) p x" using Some by (simp add: known_end_def)
          then have "x = e" using one_endD [OF one _ e] by blast
          moreover have "args_end args = Some x" by (simp add: args_def Some)
          ultimately show ?thesis
            using cache_keeps [OF c] \<open>cached args = Some res\<close> f unfolding cache_ok_def by blast
        qed
        then show ?thesis by (simp add: s1_def \<open>find_page key s = Some p\<close>)
      qed
      then show ?thesis using k_keeps [OF ok1, of "Page_result (pn_generation s) key res" s2] s2 Some by simp
    qed
    then have ok2: "pn_ok chk s2" and e: "evolves (with_sub args s) s2" by (simp_all add: keeps_def s1_def)
    have h2: "h \<in> loose s2" using e with_sub_ok(2) [OF ok] by (simp add: evolves_def h_def)
    show ?thesis
    proof (cases "pn_generation s2 = pn_generation s")
      case True
      then have s': "s' = attach_sub key h s2" using s' by simp
      have "evolves s s'"
        using attach_ok(2,3,5,6,7,8) [OF ok2 h2, of key] attach_ok(4) [OF ok2 h2]
        unfolding s' by (intro evolves_with_sub [OF ok e]) (auto simp: h_def)
      then show ?thesis using attach_ok(1,3) [OF ok2 h2, of key] unfolding s' keeps_def by blast
    next
      case False
      then have s': "s' = drop_subs [h] s2" using s' by simp
      have "set [h] \<inter> handles s2 = {}" using h2 by (simp add: loose_def)
      note d = drop_ok [OF ok2 this]
      have "loose (drop_subs [h] s2) = loose s2 - {pn_next_sub s}" using d(2) by (simp add: h_def)
      then have "evolves s s'"
        unfolding s' by (rule evolves_with_sub [OF ok e]) (auto simp: same_range_def half_keys_def)
      moreover have "key \<notin> bare s2"
      proof
        have "key \<le> pn_next_key s"
          using find_page_SomeD [OF Some] ok struct_okD(2) unfolding pn_ok_def by blast
        moreover assume "key \<in> bare s2"
        ultimately show False using e False unfolding evolves_def bare_def by auto
      qed
      ultimately show ?thesis using d(1) unfolding s' keeps_def by simp
    qed
  qed
  then show "keeps chk s s'" "key \<notin> bare s'" by blast+
qed

lemma add_ok:
  assumes st: "struct_ok s" and seam: "chk \<Longrightarrow> seam_ok s" and run: "\<not> pn_stopped s"
    and c: "chk \<Longrightarrow> pn_pages s = [] \<Longrightarrow> c = None"
      "chk \<Longrightarrow> pn_pages s \<noteq> [] \<Longrightarrow> \<exists>e. c = Some e \<and> known_end (pn_pages s) (pn_splits s) (last (pn_pages s)) e"
    and r: "add_page k cached n c s = Some s'"
  shows "keeps chk s s'"
proof -
  define key where "key = pn_next_key s + 1"
  define s1 where "s1 = s\<lparr>pn_pages := pn_pages s @ [new_page key c None], pn_next_key := key\<rparr>"
  have s1: "pn_pages s1 = pn_pages s @ [new_page key c None]" "pn_splits s1 = pn_splits s"
    by (simp_all add: s1_def)
  have g: "grows s s1 [new_page key c None]"
    by (simp add: grows_def s1_def key_def new_page_def all_pages_def half_keys_def subset_insertI)
  have orig: "distinct (map sp_original (pn_splits s1))" "sp_original ` set (pn_splits s1) \<subseteq> pg_key ` set (pn_pages s1)"
    using struct_okD(6,7) [OF st] by (auto simp: s1)
  note g' = grow_ok [OF st g run orig]
  have less: "pn_next_key s < key" by (simp add: key_def)
  have ok1: "pn_ok chk s1"
    using g'(1) seam_append(1) [OF st _ less s1] seam c by (simp add: pn_ok_def s1)
  have r': "subscribe_page k cached key n s1 = Some s'"
    using r by (simp add: add_page_def Let_def key_def s1_def)
  have "\<not> known_end (pn_pages s1) (pn_splits s1) p e" if "chk" "find_page key s1 = Some p" for p e
  proof -
    have "new_page key c None \<in> set (all_pages s1)" by (simp add: set_all_pages s1)
    then have "p = new_page key c None"
      using that(2) same_key [OF g'(1)] unfolding find_page_iff [OF g'(1)] by (metis new_page_def page.select_convs(1))
    then show ?thesis using seam_append(2) [OF st seam less s1] c that(1) by simp
  qed
  note sub = subscribe_ok [OF ok1 this r']
  have "evolves s s'"
    by (rule evolves_grow [OF g g'(2,3)]) (use sub in \<open>auto simp: keeps_def new_page_def\<close>)
  then show ?thesis using sub(1) by (simp add: keeps_def)
qed

lemma clear_ok:
  assumes st: "struct_ok s"
    and s': "pn_pages s' = []" "pn_splits s' = []" "pn_live s' = pn_live (drop_subs (subs_of (all_pages s)) s)"
      "pn_next_key s' = pn_next_key s" "pn_next_sub s' = pn_next_sub s" "pn_generation s \<le> pn_generation s'"
    and up: "pn_stopped s' \<Longrightarrow> \<not> pn_on_update s'"
  shows "struct_ok s'" "seam_ok s'" "evolves s s'"
proof -
  have all: "all_pages s' = []" by (simp add: all_pages_def s')
  then have "mset (all_pages s) = mset (all_pages s') + mset (all_pages s)" by simp
  note rem = remove_ok [OF _ this s'(3-5)]
  show "struct_ok s'" by (rule rem(1) [OF st]) (simp_all add: s' up)
  show "seam_ok s'" by (simp add: seam_ok_def s' all)
  show "evolves s s'"
  proof (rule evolves_remove)
    show "loose s' = loose s" by (rule rem(2) [OF st]) (simp_all add: s' up)
  qed (simp_all add: s' all bare_def half_keys_def)
qed

lemma reset_ok:
  assumes ok: "pn_ok chk s" and run: "\<not> pn_stopped s" and r: "do_reset k cached s = Some s'"
  shows "keeps chk s s'"
proof -
  define s1 where "s1 = clear_pages (s\<lparr>pn_generation := pn_generation s + 1, pn_pagination_id := pn_counter s + 1,
                      pn_counter := pn_counter s + 1\<rparr>)"
  have s1: "pn_pages s1 = []" "pn_splits s1 = []" "pn_live s1 = pn_live (drop_subs (subs_of (all_pages s)) s)"
    "pn_next_key s1 = pn_next_key s" "pn_next_sub s1 = pn_next_sub s" "pn_generation s1 = pn_generation s + 1"
    "pn_stopped s1 = pn_stopped s"
    by (simp_all add: s1_def clear_pages_def all_pages_def)
  have "struct_ok s" using ok by (simp add: pn_ok_def)
  then have 1: "struct_ok s1" "seam_ok s1" "evolves s s1" by (rule clear_ok; use run in \<open>simp add: s1\<close>)+
  have "keeps chk s1 s'"
    by (rule add_ok [OF 1(1,2) _ _ _ r [unfolded do_reset_def, folded s1_def]]) (use run in \<open>simp_all add: s1\<close>)
  with 1(3) show ?thesis unfolding keeps_def using evolves_trans by blast
qed

lemma start_split_ok:
  assumes ok: "pn_ok chk s" and run: "\<not> pn_stopped s" and orig: "orig \<in> set (pn_pages s)" "pg_key orig = key"
    and one: "\<not> is_splitting key s" and cc: "chk \<Longrightarrow> known_end (pn_pages s) (pn_splits s) orig cc"
    and r: "start_split k cached key sc cc s = Some s'"
  shows "keeps chk s s'"
proof -
  define k1 k2 where "k1 = pn_next_key s + 1" and "k2 = pn_next_key s + 2"
  define a b where "a = new_page k1 (pg_cursor orig) (Some sc)" and "b = new_page k2 (Some sc) (Some cc)"
  define s1 where "s1 = s\<lparr>pn_splits := pn_splits s @ [\<lparr>sp_original = pg_key orig, sp_first = a, sp_second = b\<rparr>],
    pn_next_key := k2\<rparr>"
  have st: "struct_ok s" using ok by (simp add: pn_ok_def)
  have s1: "pn_pages s1 = pn_pages s"
    "pn_splits s1 = pn_splits s @ [\<lparr>sp_original = pg_key orig, sp_first = a, sp_second = b\<rparr>]"
    by (simp_all add: s1_def)
  have found: "find_page key s = Some orig"
    using orig page_in_all by (simp add: find_page_iff [OF st])
  obtain s2 where s2: "subscribe_page k cached k1 (pn_initial_num_items s) s1 = Some s2"
    and s': "subscribe_page k cached k2 (pn_initial_num_items s) s2 = Some s'"
    using r orig(2) unfolding start_split_def found option.case Let_def s1_def a_def b_def k1_def k2_def
    by (auto simp: bind_eq_Some_conv)
  have ab: "pg_key a = k1" "pg_key b = k2" "pg_end_cursor a = Some sc" "pg_end_cursor b = Some cc"
    "pg_sub a = None" "pg_sub b = None" by (simp_all add: a_def b_def new_page_def)
  have g: "grows s s1 [a, b]"
    by (simp add: grows_def all_pages_def half_keys_def s1_def ab k1_def k2_def) blast
  have orig1: "distinct (map sp_original (pn_splits s1))" "sp_original ` set (pn_splits s1) \<subseteq> pg_key ` set (pn_pages s1)"
    using struct_okD(6,7) [OF st] one orig by (auto simp: s1 is_splitting_def list_ex_iff)
  note g' = grow_ok [OF st g run orig1]
  have ok1: "pn_ok chk s1"
    using g'(1) seam_split [OF st _ orig(1) cc, of k1 k2 s1 sc] ok s1 run
    by (auto simp: pn_ok_def a_def b_def k1_def k2_def)
  have ab1: "a \<in> set (all_pages s1)" "b \<in> set (all_pages s1)" by (auto simp: set_all_pages s1)
  have end1: "pg_end_cursor p = Some sc" if "find_page k1 s1 = Some p" for p
    using that same_key [OF g'(1) _ ab1(1), of p] ab unfolding find_page_iff [OF g'(1)] by metis
  have sub1: "keeps chk s1 s2" "k1 \<notin> bare s2"
    using subscribe_ok [OF ok1 _ s2] end1 by fastforce+
  have end2: "pg_end_cursor p = Some cc" if p: "find_page k2 s2 = Some p" for p
  proof -
    have "k2 \<le> pn_next_key s1" by (simp add: s1_def)
    then obtain q where "q \<in> set (all_pages s1)" "same_range p q"
      using find_page_SomeD [OF p] sub1(1) unfolding keeps_def evolves_def by blast
    then show ?thesis using find_page_SomeD [OF p] same_key [OF g'(1) _ ab1(2), of q] ab
      unfolding same_range_def by metis
  qed
  have sub2: "keeps chk s2 s'" "k2 \<notin> bare s'"
    using subscribe_ok [OF keeps_ok [OF sub1(1)] _ s'] end2 by fastforce+
  have e: "evolves s1 s'" using sub1(1) sub2(1) evolves_trans unfolding keeps_def by blast
  have "bare s' \<inter> pg_key ` set [a, b] = {}"
    using sub1(2) sub2 ab unfolding keeps_def evolves_def by auto
  then have "evolves s s'" by (rule evolves_grow [OF g g'(2,3) e])
  then show ?thesis using sub2(1) by (simp add: keeps_def)
qed

lemma page_not_half:
  assumes "struct_ok s" "p \<in> set (pn_pages s)"
  shows "pg_key p \<notin> half_keys s"
proof -
  have "half_keys s = pg_key ` set (concat (map (\<lambda>sp. [sp_first sp, sp_second sp]) (pn_splits s)))"
    by (force simp: half_keys_def)
  moreover have "distinct (map pg_key (pn_pages s)
      @ map pg_key (concat (map (\<lambda>sp. [sp_first sp, sp_second sp]) (pn_splits s))))"
    using struct_okD(1) [OF assms(1)] unfolding all_pages_def map_append .
  ultimately show ?thesis using assms(2) unfolding distinct_append set_map by blast
qed

lemma consider_ok:
  assumes ok: "pn_ok chk s" and half: "key \<notin> half_keys s" and r: "consider_split k cached key s = Some s'"
  shows "keeps chk s s'"
proof (cases "s' = s")
  case False
  have st: "struct_ok s" using ok by (simp add: pn_ok_def)
  obtain p v f sc where p: "find_page key s = Some p" "pg_result p = Some (FR_success v)" "parse_page v = Some f"
    and one: "\<not> is_splitting key s"
    and r': "start_split k cached key sc (pf_continue_cursor f) s = Some s'"
    using r False unfolding consider_split_def
    by (auto simp: bind_eq_Some_conv split: option.splits function_result.splits if_splits)
  have all: "p \<in> set (all_pages s)" "pg_key p = key" using find_page_SomeD [OF p(1)] by simp_all
  then have page: "p \<in> set (pn_pages s)" using half unfolding set_all_pages half_keys_def by auto
  have "fields p = Some f" using p by (simp add: fields_def result_fields_def)
  then have "known_end (pn_pages s) (pn_splits s) p (pf_continue_cursor f)" by (simp add: known_end_def)
  moreover have "\<not> pn_stopped s" using struct_okD(8) [OF st] page by auto
  ultimately show ?thesis using start_split_ok [OF ok _ page all(2) one _ r'] by blast
qed (simp add: keeps_refl ok)

lemma advance_ok:
  assumes ok: "pn_ok chk s" and i: "i < length (pn_splits s)" and r: "advance_split k cached i s = Some s'"
  shows "keeps chk s s'"
proof (cases "s' = s")
  case False
  define sp s1 where "sp = pn_splits s ! i" and "s1 = s\<lparr>pn_splits := drop_nth i (pn_splits s)\<rparr>"
  let ?a = "sp_first sp" and ?b = "sp_second sp"
  let ?halves = "\<lambda>sp. [sp_first sp, sp_second sp]"
  have st: "struct_ok s" using ok by (simp add: pn_ok_def)
  have sp: "sp \<in> set (pn_splits s)" using i by (simp add: sp_def)
  have rest: "mset (concat (map ?halves (pn_splits s))) = mset [?a, ?b] + mset (concat (map ?halves (pn_splits s1)))"
    using mset_concat_drop_nth [OF i, of ?halves] by (simp add: s1_def sp_def)
  have sub: "set (pn_splits s1) \<subseteq> set (pn_splits s)" using set_drop_nth [OF i] by (auto simp: s1_def)
  have orig: "distinct (map sp_original (pn_splits s1))" "sp_original sp \<notin> sp_original ` set (pn_splits s1)"
    using distinct_drop_nth [OF i struct_okD(6) [OF st]] by (simp_all add: s1_def sp_def)
  have named: "sp_original ` set (pn_splits s1) \<subseteq> pg_key ` set (pn_pages s)"
    using struct_okD(7) [OF st] sub by blast
  have halves1: "half_keys s1 \<subseteq> half_keys s" using sub by (auto simp: half_keys_def)
  have run: "\<not> pn_stopped s" using struct_okD(8) [OF st] sp by auto
  obtain old xs ys where pages: "pn_pages s = xs @ old # ys" "pg_key old = sp_original sp"
    using struct_okD(7) [OF st] sp by (metis (no_types, lifting) imageE image_eqI split_list subsetD)
  have "distinct (map pg_key (pn_pages s))"
    using struct_okD(1) [OF st] by (simp add: all_pages_def)
  then have dis: "distinct (map pg_key (xs @ old # ys))" unfolding pages(1) .
  have found: "List.find (\<lambda>p. pg_key p = sp_original sp) (pn_pages s1) \<noteq> None"
    unfolding find_None_iff using pages by (auto simp: s1_def)
  consider (drop) "s' = drop_subs (subs_of [?a, ?b]) s1"
    | (swap) old' t where "List.find (\<lambda>p. pg_key p = sp_original sp) (pn_pages s1) = Some old'"
        "consider_split k cached (pg_key ?a)
           ((drop_subs (subs_of [old']) s1)\<lparr>pn_pages := swap_in sp (pn_pages s1)\<rparr>) = Some t"
        "consider_split k cached (pg_key ?b) t = Some s'"
    using r False found unfolding advance_split_def Let_def sp_def [symmetric] s1_def [symmetric]
    by (auto simp: bind_eq_Some_conv split: if_splits)
  then show ?thesis
  proof cases
    case drop
    then have s': "pn_pages s' = pn_pages s" "pn_splits s' = pn_splits s1" "all_pages s' = all_pages s1"
      "pn_live s' = pn_live (drop_subs (subs_of [?a, ?b]) s)" "pn_next_key s' = pn_next_key s"
      "pn_next_sub s' = pn_next_sub s" "pn_generation s' = pn_generation s" "pn_stopped s' = pn_stopped s"
      "half_keys s' = half_keys s1"
      by (simp_all add: s1_def half_keys_def)
    have "mset (all_pages s) = mset (all_pages s') + mset [?a, ?b]"
      using rest by (simp add: all_pages_def s')
    note rem = remove_ok [OF st this s'(4-6)]
    have st': "struct_ok s'" "loose s' = loose s" "bare s' \<subseteq> bare s" "set (all_pages s') \<subseteq> set (all_pages s)"
      using rem orig(1) named run by (simp_all add: s')
    have "seam_ok s'" if "seam_ok s"
    proof -
      have "split_ends (pn_splits s1) \<subseteq> split_ends (pn_splits s)" using sub by (auto simp: split_ends_def)
      then have "one_end (pn_pages s') (pn_splits s') p" if "p \<in> set (all_pages s')" for p
        using one_end_mono [OF seam_okD(1) [OF \<open>seam_ok s\<close>, of p]] that st'(4) unfolding known_end_def s' by blast
      then show ?thesis using that sub unfolding seam_ok_def s'(1,2) by blast
    qed
    moreover have "evolves s s'"
      by (rule evolves_remove) (use st' halves1 in \<open>simp_all add: s'\<close>)
    ultimately show ?thesis using ok st'(1) by (simp add: keeps_def pn_ok_def s')
  next
    case (swap old' t)
    have old': "old' = old"
    proof -
      have "old' \<in> set (pn_pages s)" "pg_key old' = sp_original sp"
        using swap(1) by (auto simp: find_Some_iff s1_def)
      then show ?thesis using same_key [OF st page_in_all page_in_all] pages by simp
    qed
    define u where "u = (drop_subs (subs_of [old]) s1)\<lparr>pn_pages := swap_in sp (pn_pages s1)\<rparr>"
    have u: "pn_pages u = xs @ ?a # ?b # ys" "pn_splits u = pn_splits s1"
      "pn_live u = pn_live (drop_subs (subs_of [old]) s)" "pn_next_key u = pn_next_key s"
      "pn_next_sub u = pn_next_sub s" "pn_generation u = pn_generation s" "pn_stopped u = pn_stopped s"
      "half_keys u = half_keys s1"
      using swap_in_split [OF dis pages(2)] by (simp_all add: u_def s1_def half_keys_def pages(1))
    have "mset (all_pages s) = mset (all_pages u) + mset [old]"
      using rest by (simp add: all_pages_def u pages(1))
    note rem = remove_ok [OF st this u(3-5)]
    have "sp_original ` set (pn_splits u) \<subseteq> pg_key ` set (pn_pages u)"
    proof
      fix key assume "key \<in> sp_original ` set (pn_splits u)"
      then have "key \<in> pg_key ` set (pn_pages s)" "key \<noteq> sp_original sp" using named orig(2) unfolding u(2) by blast+
      then show "key \<in> pg_key ` set (pn_pages u)" unfolding pages(1) u(1) using pages(2) by auto
    qed
    then have st': "struct_ok u" "loose u = loose s" "bare u \<subseteq> bare s" "set (all_pages u) \<subseteq> set (all_pages s)"
      using rem orig(1) run by (simp_all add: u)
    have "evolves s u"
      by (rule evolves_remove) (use st' halves1 in \<open>simp_all add: u\<close>)
    moreover have "seam_ok u" if "seam_ok s"
      by (rule seam_swap [OF st that i sp_def pages u(1)]) (simp add: u(2) s1_def)
    ultimately have 1: "keeps chk s u" using ok st'(1) by (simp add: keeps_def pn_ok_def u)
    have ab: "?a \<in> set (pn_pages u)" "?b \<in> set (pn_pages u)" by (simp_all add: u(1))
    have 2: "keeps chk u t"
      using consider_ok [OF keeps_ok [OF 1] page_not_half [OF st'(1) ab(1)]] swap(2) by (simp add: u_def old')
    have "pg_key ?b \<notin> half_keys t"
      using 2 page_not_half [OF st'(1) ab(2)] struct_okD(2) [OF st'(1) page_in_all [OF ab(2)]]
      unfolding keeps_def evolves_def by blast
    then have "keeps chk t s'" using consider_ok [OF keeps_ok [OF 2] _ swap(3)] by blast
    with 1 2 show ?thesis using keeps_trans by blast
  qed
qed (simp add: keeps_refl ok)

lemma notify_ok: "pn_ok chk s \<Longrightarrow> notify k s = Some s' \<Longrightarrow> keeps chk s s'"
  using k_keeps [of s "Update (compute_snapshot s)" s'] keeps_refl [of chk s]
  by (auto simp: notify_def split: if_splits)

lemma store_ok:
  assumes ok: "pn_ok chk s" and ev: "chk \<Longrightarrow> event_ok s (Page_result (pn_generation s) key r)"
  shows "keeps chk s (update_page key (\<lambda>p. p\<lparr>pg_result := Some r\<rparr>) s)"
proof -
  let ?u = "update_page key (\<lambda>p. p\<lparr>pg_result := Some r\<rparr>) s"
  have st: "struct_ok s" using ok by (simp add: pn_ok_def)
  have st': "struct_ok ?u" by (rule res.struct_update [OF st]) simp
  have seam: "seam_ok ?u" if c: chk
  proof (rule res.seam_update)
    show "seam_ok s" using ok c by (simp add: pn_ok_def)
    fix p e e' assume p: "p \<in> set (all_pages s)" "pg_key p = key"
      and e: "map_option pf_continue_cursor (fields (p\<lparr>pg_result := Some r\<rparr>)) = Some e"
      and e': "known_end (pn_pages s) (pn_splits s) p e'"
    have "find_page key s = Some p" using p by (simp add: find_page_iff [OF st])
    then show "e' = e" using ev [OF c] e e' by (auto simp: fields_def)
  qed
  have sub: "pg_sub (on_key key (\<lambda>p. p\<lparr>pg_result := Some r\<rparr>) p) = pg_sub p" for p by (simp add: on_key_def)
  have "handles ?u = handles s" unfolding handles_def by (simp add: sub)
  then have same: "loose ?u = loose s" by (simp add: loose_def live_handles_def)
  have "bare ?u = bare s" 
  proof -
    have eq: "bare t = pg_key ` {p \<in> set (all_pages t). pg_sub p = None}" for t by (auto simp: bare_def)
    have "{p \<in> set (all_pages ?u). pg_sub p = None}
        = on_key key (\<lambda>p. p\<lparr>pg_result := Some r\<rparr>) ` {p \<in> set (all_pages s). pg_sub p = None}"
      by (auto simp: sub)
    then show ?thesis unfolding eq by (simp add: image_image)
  qed
  moreover have "half_keys ?u = half_keys s"
    unfolding half_keys_def res.splits_update by (simp add: image_image image_Un)
  moreover note same
  ultimately have "evolves s ?u"
    unfolding evolves_def using res.range_update [of key r] by simp blast
  then show ?thesis using st' seam ok by (simp add: keeps_def pn_ok_def)
qed

lemma page_result_ok:
  assumes ok: "pn_ok chk s" and ev: "chk \<Longrightarrow> event_ok s (Page_result gen key r)"
    and res: "on_page_result k cached gen key r s = Some s'"
  shows "keeps chk s s'"
proof (cases "pn_stopped s \<or> gen \<noteq> pn_generation s \<or> find_page key s = None")
  case True
  then have "s' = s" using res by (auto simp: on_page_result_def split: if_splits)
  then show ?thesis by (simp add: keeps_refl ok)
next
  case False
  define s1 where "s1 = update_page key (\<lambda>p. p\<lparr>pg_result := Some r\<rparr>) s"
  have 1: "keeps chk s s1" unfolding s1_def by (rule store_ok [OF ok]) (use ev False in auto)
  obtain s2 where s2: "(if is_invalid_cursor r then do_reset k cached s1
      else case split_of_half key s1 of Some i \<Rightarrow> advance_split k cached i s1 | None \<Rightarrow> consider_split k cached key s1) = Some s2"
    and s': "notify k s2 = Some s'"
    using res False unfolding on_page_result_def Let_def s1_def by (auto simp: bind_eq_Some_conv)
  have run: "\<not> pn_stopped s1" using False by (simp add: s1_def)
  have "keeps chk s1 s2"
  proof (cases "is_invalid_cursor r")
    case True
    then show ?thesis using reset_ok [OF keeps_ok [OF 1] run] s2 by simp
  next
    case no: False
    show ?thesis
    proof (cases "split_of_half key s1")
      case None
      then have "key \<notin> half_keys s1"
        unfolding split_of_half_def find_None_iff half_keys_def by (auto simp: in_set_conv_nth)
      then show ?thesis using consider_ok [OF keeps_ok [OF 1]] s2 no None by simp
    next
      case (Some i)
      then have "i < length (pn_splits s1)" unfolding split_of_half_def find_Some_iff by auto
      then show ?thesis using advance_ok [OF keeps_ok [OF 1]] s2 no Some by simp
    qed
  qed
  then show ?thesis using 1 notify_ok [OF keeps_ok s'] keeps_trans by blast
qed

lemma args_ok: "keeps chk (s\<lparr>pn_user_args := args\<rparr>) t \<Longrightarrow> keeps chk s t"
  using ok_cong(2) [of "s\<lparr>pn_user_args := args\<rparr>" s] evolves_trans unfolding keeps_def by simp

lemma user_call_ok:
  assumes ok: "pn_ok chk s" and r: "user_call L k cached c s = Some s'"
  shows "keeps chk s s'"
proof (cases "s' = s")
  case False
  have st: "struct_ok s" and seam: "chk \<Longrightarrow> seam_ok s" using ok by (simp_all add: pn_ok_def)
  show ?thesis
  proof (cases c)
    case (Load_more n)
    obtain v f t where run: "\<not> pn_stopped s" and last: "pg_result (last (pn_pages s)) = Some (FR_success v)"
      "parse_page v = Some f"
      and t: "add_page k cached n (Some (pf_continue_cursor f)) s = Some t" and s': "notify k t = Some s'"
      using r False unfolding Load_more user_call.simps load_more_def
      by (auto simp: bind_eq_Some_conv split: option.splits function_result.splits if_splits)
    have "known_end (pn_pages s) (pn_splits s) (last (pn_pages s)) (pf_continue_cursor f)"
      using last by (simp add: known_end_def fields_def result_fields_def)
    moreover have "pn_pages s \<noteq> []" using ok run by (simp add: pn_ok_def)
    ultimately have "keeps chk s t" using add_ok [OF st seam run _ _ t] by simp
    then show ?thesis using notify_ok [OF keeps_ok s'] keeps_trans by blast
  next
    case (Set_args args)
    obtain t where run: "\<not> pn_stopped s" and t: "do_reset k cached (s\<lparr>pn_user_args := args\<rparr>) = Some t"
      and s': "notify k t = Some s'"
      using r False unfolding Set_args user_call.simps set_args_def
      by (auto simp: bind_eq_Some_conv split: sum.splits if_splits)
    have "pn_ok chk (s\<lparr>pn_user_args := args\<rparr>)" using ok ok_cong(1) [of "s\<lparr>pn_user_args := args\<rparr>" s] by simp
    then have "keeps chk s t" using reset_ok [OF _ _ t] run args_ok by simp
    then show ?thesis using notify_ok [OF keeps_ok s'] keeps_trans by blast
  next
    case Reset
    obtain t where run: "\<not> pn_stopped s" and t: "do_reset k cached s = Some t" and s': "notify k t = Some s'"
      using r False unfolding Reset user_call.simps reset_def
      by (auto simp: bind_eq_Some_conv split: if_splits)
    then show ?thesis using reset_ok [OF ok run t] notify_ok [OF keeps_ok s'] keeps_trans by blast
  next
    case Stop
    then have s': "s' = stop s" using r by simp
    have "struct_ok s'" "seam_ok s'" "evolves s s'"
      unfolding s' by (rule clear_ok [OF st]; simp add: stop_def clear_pages_def all_pages_def)+
    then show ?thesis by (simp add: keeps_def pn_ok_def s' stop_def clear_pages_def)
  qed
qed (simp add: keeps_refl ok)

lemma user_calls_ok: "pn_ok chk s \<Longrightarrow> user_calls L k cached cs s = Some s' \<Longrightarrow> keeps chk s s'"
proof (induction cs arbitrary: s)
  case (Cons c cs)
  then obtain t where "user_call L k cached c s = Some t" "user_calls L k cached cs t = Some s'"
    by (auto simp: bind_eq_Some_conv)
  then show ?case using user_call_ok [OF Cons.prems(1)] Cons.IH [of t] keeps_ok keeps_trans by blast
qed (simp add: keeps_refl)

end

subsection \<open>The callbacks of the model\<close>

lemma callback_keeps:
  assumes cache: "chk \<Longrightarrow> cache_ok cached"
  shows "pn_ok chk s \<Longrightarrow> (chk \<Longrightarrow> event_ok s ev) \<Longrightarrow> callback L cached react n ev s = Some s' \<Longrightarrow> keeps chk s s'"
proof (induction n arbitrary: s ev s')
  case (Suc n)
  have re: "reentrant (callback L cached react n) cached chk"
    by (rule reentrant.intro) (use Suc.IH cache in blast)+
  show ?case
  proof (cases ev)
    case (Page_result gen key r)
    then show ?thesis using reentrant.page_result_ok [OF re Suc.prems(1), of gen key r] Suc.prems(2,3) by simp
  next
    case (Update sn)
    let ?s = "s\<lparr>pn_seen := pn_seen s @ [sn]\<rparr>"
    have "pn_ok chk ?s" "evolves s ?s"
      using ok_cong(1) [of ?s s chk] ok_cong(2) [of ?s s] Suc.prems(1) by simp_all
    moreover have "user_calls L (callback L cached react n) cached (react sn) ?s = Some s'"
      using Suc.prems(3) Update by simp
    ultimately show ?thesis
      using reentrant.user_calls_ok [OF re, of ?s] evolves_trans unfolding keeps_def by blast
  qed
qed simp

lemma callback_reentrant: "(chk \<Longrightarrow> cache_ok cached) \<Longrightarrow> reentrant (callback L cached react n) cached chk"
  by (rule reentrant.intro) (use callback_keeps in blast)+

text \<open>Whatever is cached and whatever the callbacks do, the structure is kept.\<close>

interpretation any: reentrant "callback L cached react n" cached False for L cached react n
  by (rule callback_reentrant) simp

text \<open>In pumped mode nothing is delivered inside \<open>subscribe\<close>, and the seams are kept as well.\<close>

interpretation pumped: reentrant "callback L (\<lambda>_. None) react n" "\<lambda>_. None" chk for L react n chk
  by (rule callback_reentrant) (simp add: cache_ok_def)

end
