(* ===== verification/PaginatedProps.thy ===== *)
theory PaginatedProps
  imports PaginatedSteps "HOL-Library.Code_Target_Nat"
begin

section \<open>What a paginated query promises\<close>

text \<open>
  Runs: the operations are the results the client delivers and the calls of the user, each with
  the fuel for the nesting of callbacks, with what the client has cached at that time and with
  what the user's callback does at that time. An operation is enabled when its callbacks return;
  with \<open>chk\<close>, also when the result it delivers ends where its page is known to end.
\<close>

subsection \<open>Runs\<close>

datatype entry = Deliver nat page_key function_result | User user_op

datatype pn_op = Op nat cache "paginated_snapshot \<Rightarrow> user_op list" entry

fun enter :: "json_lib \<Rightarrow> pn_op \<Rightarrow> paginated \<Rightarrow> paginated option" where
  "enter L (Op n cached react (Deliver gen key r)) s =
     on_page_result (callback L cached react n) cached gen key r s"
| "enter L (Op n cached react (User c)) s = user_call L (callback L cached react n) cached c s"

definition pn_step :: "json_lib \<Rightarrow> paginated \<Rightarrow> pn_op \<Rightarrow> paginated" where
  "pn_step L s a = (case enter L a s of Some s' \<Rightarrow> s' | None \<Rightarrow> s)"

fun server_keeps :: "paginated \<Rightarrow> pn_op \<Rightarrow> bool" where
  "server_keeps s (Op n cached react (Deliver gen key r)) \<longleftrightarrow> cache_ok cached \<and> event_ok s (Page_result gen key r)"
| "server_keeps s (Op n cached react (User c)) \<longleftrightarrow> cache_ok cached"

definition pn_enabled :: "bool \<Rightarrow> json_lib \<Rightarrow> paginated \<Rightarrow> pn_op \<Rightarrow> bool" where
  "pn_enabled chk L s a \<longleftrightarrow> enter L a s \<noteq> None \<and> (chk \<longrightarrow> server_keeps s a)"

text \<open>Between operations every page has its subscription, and there are no others.\<close>

definition rest_ok :: "bool \<Rightarrow> paginated \<Rightarrow> bool" where
  "rest_ok chk s \<longleftrightarrow> pn_ok chk s \<and> loose s = {} \<and> bare s = {}"

lemma rest_keeps: "rest_ok chk s \<Longrightarrow> keeps chk s s' \<Longrightarrow> rest_ok chk s'"
  unfolding rest_ok_def keeps_def evolves_def by blast

lemma rest_step:
  assumes "rest_ok chk s" "pn_enabled chk L s a"
  shows "rest_ok chk (pn_step L s a)"
proof (cases a)
  case (Op n cached react e)
  have ok: "pn_ok chk s" using assms(1) by (simp add: rest_ok_def)
  obtain s' where s': "enter L a s = Some s'" using assms(2) by (auto simp: pn_enabled_def)
  have re: "reentrant (callback L cached react n) cached chk"
    by (rule callback_reentrant) (use assms(2) Op in \<open>cases e; simp add: pn_enabled_def\<close>)
  have "keeps chk s s'"
  proof (cases e)
    case (Deliver gen key r)
    then show ?thesis using reentrant.page_result_ok [OF re ok, of gen key r s'] assms(2) s' unfolding Op
      by (simp add: pn_enabled_def)
  next
    case (User c)
    then show ?thesis using reentrant.user_call_ok [OF re ok] s' unfolding Op by simp
  qed
  then show ?thesis using rest_keeps [OF assms(1)] by (simp add: pn_step_def s')
qed

interpretation pages: guarded_machine "pn_step L" "pn_enabled chk L" "rest_ok chk" for L chk
  by unfold_locales (rule rest_step)

lemma fresh_ok: "struct_ok (fresh_paginated udf args num cb counter)" "seam_ok (fresh_paginated udf args num cb counter)"
  "loose (fresh_paginated udf args num cb counter) = {}" "bare (fresh_paginated udf args num cb counter) = {}"
  "pn_pages (fresh_paginated udf args num cb counter) = []" "\<not> pn_stopped (fresh_paginated udf args num cb counter)"
  by (simp_all add: fresh_paginated_def struct_ok_def seam_ok_def loose_def bare_def all_pages_def
      own_once_def handles_def live_handles_def)

lemma rest_new:
  assumes new: "new_paginated L (callback L cached react n) cached udf args num cb counter = Inr (Some s)"
    and cache: "chk \<Longrightarrow> cache_ok cached"
  shows "rest_ok chk s"
proof -
  let ?s = "fresh_paginated udf args num cb counter"
  have re: "reentrant (callback L cached react n) cached chk" by (rule callback_reentrant [OF cache])
  have r: "add_page (callback L cached react n) cached num None ?s = Some s"
    using new by (auto simp: new_paginated_def Let_def bindr_eq_Inr split: if_splits)
  have "keeps chk ?s s"
    by (rule reentrant.add_ok [OF re fresh_ok(1,2,6) _ _ r]) (simp_all add: fresh_ok)
  then show ?thesis using fresh_ok(3,4) unfolding rest_ok_def keeps_def evolves_def by blast
qed

text \<open>The state after the constructor and a run.\<close>

lemma rest_run:
  assumes "new_paginated L (callback L cached react n) cached udf args num cb counter = Inr (Some s0)"
    "chk \<Longrightarrow> cache_ok cached" "ok_run (pn_step L) (pn_enabled chk L) s0 ops"
  shows "rest_ok chk (run (pn_step L) s0 ops)"
  using pages.run_keeps [OF rest_new [OF assms(1,2)] assms(3)] by blast

subsection \<open>Snapshots\<close>

definition complete :: "page \<Rightarrow> bool" where
  "complete p \<longleftrightarrow> (case fields p of Some f \<Rightarrow> \<not> pf_split_required f | None \<Rightarrow> False)"

definition failed_page :: "page \<Rightarrow> bool" where
  "failed_page p \<longleftrightarrow> pg_result p \<noteq> None \<and> fields p = None"

definition page_error :: "string \<Rightarrow> page \<Rightarrow> function_result" where
  "page_error udf p = (if fr_ok (the (pg_result p)) then not_a_page udf else the (pg_result p))"

definition page_items :: "page \<Rightarrow> convex_value list" where
  "page_items p = pf_items (the (fields p))"

lemma snapshot_loop_spec:
  "snapshot_loop udf ps acc d =
     (let xs = acc @ concat (map page_items (takeWhile complete ps)) in
      case dropWhile complete ps of
        [] \<Rightarrow> \<lparr>sn_results = xs, sn_status = (if (if ps = [] then d else pf_is_done (the (fields (last ps))))
                then Exhausted else Can_load_more), sn_error = None\<rparr>
      | p # _ \<Rightarrow> (if failed_page p then \<lparr>sn_results = xs, sn_status = Failed, sn_error = Some (page_error udf p)\<rparr>
                else still_loading xs))"
proof (induction udf ps acc d rule: snapshot_loop.induct)
  case (2 udf p ps acc d)
  show ?case
  proof (cases "fields p")
    case None
    then show ?thesis
      by (auto simp: fields_def result_fields_def complete_def failed_page_def page_error_def fr_ok_def
          split: option.splits function_result.splits)
  next
    case (Some f)
    then obtain v where v: "pg_result p = Some (FR_success v)" "parse_page v = Some f"
      by (cases "pg_result p"; cases "the (pg_result p)") (auto simp: fields_def result_fields_def)
    show ?thesis
    proof (cases "pf_split_required f")
      case True
      then show ?thesis using v Some by (simp add: complete_def failed_page_def)
    next
      case False
      then have "complete p" "page_items p = pf_items f" using Some by (simp_all add: complete_def page_items_def)
      then show ?thesis using 2 [OF v(1) refl v(2) False] False v Some
        by (cases ps) (simp_all add: Let_def)
    qed
  qed
qed simp

text \<open>
  \<open>C12\<close>: A snapshot is the items of the leading complete pages, those that are loaded, well-formed
  and not to be split first. When all pages are complete the last one decides between
  \<open>Exhausted\<close> and \<open>Can_load_more\<close>. Otherwise the first incomplete page decides: a failed or
  malformed one is the error; a missing or incomplete one means loading, the first page exactly
  when no item is shown.
\<close>

theorem snapshot_spec:
  "compute_snapshot s =
     (let xs = concat (map page_items (takeWhile complete (pn_pages s))) in
      case dropWhile complete (pn_pages s) of
        [] \<Rightarrow> \<lparr>sn_results = xs,
             sn_status = (if pn_pages s \<noteq> [] \<and> pf_is_done (the (fields (last (pn_pages s)))) then Exhausted else Can_load_more),
             sn_error = None\<rparr>
      | p # _ \<Rightarrow>
           if failed_page p
           then \<lparr>sn_results = xs, sn_status = Failed, sn_error = Some (page_error (pn_udf_path s) p)\<rparr>
           else \<lparr>sn_results = xs, sn_status = (if xs = [] then Loading_first_page else Loading_more), sn_error = None\<rparr>)"
  unfolding compute_snapshot_def snapshot_loop_spec still_loading_def append_Nil by simp

subsection \<open>A gapless list\<close>

definition start_of :: "(string \<Rightarrow> nat) \<Rightarrow> page \<Rightarrow> nat" where
  "start_of pos p = (case pg_cursor p of None \<Rightarrow> 0 | Some c \<Rightarrow> pos c)"

text \<open>The items of a complete page are the ones between its cursors, in one list of the server.\<close>

definition taken_from :: "convex_value list \<Rightarrow> (string \<Rightarrow> nat) \<Rightarrow> page \<Rightarrow> bool" where
  "taken_from xs pos p \<longleftrightarrow> (\<forall>f. fields p = Some f \<longrightarrow> \<not> pf_split_required f \<longrightarrow> start_of pos p \<le> pos (pf_continue_cursor f)
     \<and> pf_items f = drop (start_of pos p) (take (pos (pf_continue_cursor f)) xs))"

fun chained :: "page list \<Rightarrow> bool" where
  "chained (p # q # ps) \<longleftrightarrow>
     (\<forall>f. fields p = Some f \<longrightarrow> pg_cursor q = Some (pf_continue_cursor f)) \<and> chained (q # ps)"
| "chained _ = True"

lemma items_taken:
  assumes "taken_from xs pos p" "fields p = Some f" "complete p"
  shows "take (start_of pos p) xs @ page_items p = take (pos (pf_continue_cursor f)) xs"
  using assms append_take_drop_id [of "start_of pos p" "take (pos (pf_continue_cursor f)) xs"]
  unfolding taken_from_def page_items_def complete_def by (simp add: min_def)

lemma chained_items:
  assumes "chained (p # ps)" "\<forall>q \<in> set (p # ps). taken_from xs pos q"
  shows "\<exists>n. take (start_of pos p) xs @ concat (map page_items (takeWhile complete (p # ps))) = take n xs
     \<and> (dropWhile complete (p # ps) = [] \<longrightarrow> n = pos (pf_continue_cursor (the (fields (last (p # ps))))))"
  using assms
proof (induction ps arbitrary: p)
  case Nil
  show ?case
  proof (cases "complete p")
    case True
    then obtain f where "fields p = Some f" by (auto simp: complete_def split: option.splits)
    then show ?thesis using items_taken [of xs pos p f] Nil True by auto
  qed auto
next
  case (Cons q ps)
  show ?case
  proof (cases "complete p")
    case False
    then show ?thesis by auto
  next
    case True
    then obtain f where f: "fields p = Some f" by (auto simp: complete_def split: option.splits)
    then have "start_of pos q = pos (pf_continue_cursor f)" using Cons.prems(1) by (simp add: start_of_def)
    then have step: "take (start_of pos p) xs @ page_items p = take (start_of pos q) xs"
      using items_taken [OF _ f True] Cons.prems(2) by simp
    have "chained (q # ps)" "\<forall>r \<in> set (q # ps). taken_from xs pos r" using Cons.prems by simp_all
    then obtain n where n: "take (start_of pos q) xs @ concat (map page_items (takeWhile complete (q # ps))) = take n xs"
      "dropWhile complete (q # ps) = [] \<longrightarrow> n = pos (pf_continue_cursor (the (fields (last (q # ps)))))"
      using Cons.IH [of q] by blast
    have "take (start_of pos p) xs @ concat (map page_items (takeWhile complete (p # q # ps)))
        = (take (start_of pos p) xs @ page_items p) @ concat (map page_items (takeWhile complete (q # ps)))"
      using True by simp
    also have "\<dots> = take n xs" unfolding step by (rule n(1))
    finally show ?thesis using n(2) True by (intro exI [of _ n]) simp
  qed
qed

lemma links_cursor: "(key, c) \<in> set (links ps) \<Longrightarrow> \<exists>q \<in> set (tl ps). c = pg_cursor q"
  by (induction ps rule: links.induct) (auto dest: list.set_sel(2))

lemma chained_links:
  "(\<forall>p f c. p \<in> set ps \<longrightarrow> fields p = Some f \<longrightarrow> (pg_key p, c) \<in> set (links ps) \<longrightarrow>
      c = Some (pf_continue_cursor f)) \<Longrightarrow> chained ps"
proof (induction ps rule: links.induct)
  case (1 p q ps)
  have "chained (q # ps)" by (rule "1.IH") (use "1.prems" in \<open>metis links.simps(1) list.set_intros(2)\<close>)
  then show ?case using "1.prems" by simp
qed simp_all

lemma ok_chained:
  assumes "pn_ok True s"
  shows "chained (pn_pages s)"
proof (rule chained_links, intro allI impI)
  fix p f c assume p: "p \<in> set (pn_pages s)" "fields p = Some f" "(pg_key p, c) \<in> set (links (pn_pages s))"
  have seam: "seam_ok s" using assms by (simp add: pn_ok_def)
  obtain q where "q \<in> set (tl (pn_pages s))" "c = pg_cursor q" using links_cursor [OF p(3)] by blast
  then obtain e where e: "c = Some e" using seam_okD(3) [OF seam, of "hd (pn_pages s)" "tl (pn_pages s)" q]
    by (cases "pn_pages s") auto
  have "known_end (pn_pages s) (pn_splits s) p e" "known_end (pn_pages s) (pn_splits s) p (pf_continue_cursor f)"
    using p(2,3) e by (simp_all add: known_end_def)
  then have "e = pf_continue_cursor f" by (rule one_endD [OF seam_okD(1) [OF seam page_in_all [OF p(1)]]])
  then show "c = Some (pf_continue_cursor f)" using e by simp
qed

lemma ok_split_covers:
  assumes "pn_ok True s" "sp \<in> set (pn_splits s)" "p \<in> set (pn_pages s)" "pg_key p = sp_original sp" "fields p = Some f"
  shows "pg_end_cursor (sp_second sp) = Some (pf_continue_cursor f)"
proof -
  have seam: "seam_ok s" using assms by (simp add: pn_ok_def)
  obtain e where e: "pg_end_cursor (sp_second sp) = Some e"
    using seam_okD(4) [OF seam assms(2)] by (auto simp: split_ok_def)
  have "known_end (pn_pages s) (pn_splits s) p e"
    using e assms(2,4) by (force simp: known_end_def split_ends_def)
  moreover have "known_end (pn_pages s) (pn_splits s) p (pf_continue_cursor f)" using assms(5) by (simp add: known_end_def)
  ultimately have "e = pf_continue_cursor f" by (rule one_endD [OF seam_okD(1) [OF seam page_in_all [OF assms(3)]]])
  then show ?thesis using e by simp
qed

lemma ok_prefix:
  assumes ok: "pn_ok True s" and xs: "\<forall>p \<in> set (pn_pages s). taken_from xs pos p" and some: "pn_pages s \<noteq> []"
  shows "\<exists>n. sn_results (compute_snapshot s) = take n xs \<and> (sn_status (compute_snapshot s) \<in> {Can_load_more, Exhausted} \<longrightarrow>
    n = pos (pf_continue_cursor (the (fields (last (pn_pages s))))))"
proof -
  obtain p ps where ps: "pn_pages s = p # ps" using some by (cases "pn_pages s") auto
  have "pg_cursor p = None" using ok ps seam_okD(2) by (auto simp: pn_ok_def)
  then have "take (start_of pos p) xs = []" by (simp add: start_of_def)
  moreover have "sn_results (compute_snapshot s) = concat (map page_items (takeWhile complete (p # ps)))"
    unfolding compute_snapshot_def snapshot_loop_spec ps still_loading_def by (simp add: Let_def split: list.split)
  moreover have "dropWhile complete (p # ps) = []" if "sn_status (compute_snapshot s) \<in> {Can_load_more, Exhausted}"
    using that unfolding compute_snapshot_def snapshot_loop_spec ps still_loading_def
    by (auto simp: Let_def split: list.splits if_splits)
  ultimately show ?thesis
    using chained_items [OF ok_chained [OF ok, unfolded ps] xs [unfolded ps]] unfolding ps by auto
qed

text \<open>
  \<open>C9\<close>: The list is gapless at every moment. In every state reached from the constructor, whatever
  is delivered at once and whatever the callbacks call, as long as a page ends where it is known to
  end: the first page starts at the beginning and each page starts where the result of the one
  before it ends; the halves of a split in flight cover exactly the page they will replace; and when
  the complete pages hold the items between their cursors in some list, the snapshot is a prefix of
  that list, up to the end of the last page when everything is loaded.
\<close>

theorem paginated_gapless:
  assumes "new_paginated L (callback L cached react n) cached udf args num cb counter = Inr (Some s0)"
    and "cache_ok cached" and "ok_run (pn_step L) (pn_enabled True L) s0 ops" and "s = run (pn_step L) s0 ops"
  shows "(\<not> pn_stopped s \<longrightarrow> pn_pages s \<noteq> []) \<and> chained (pn_pages s)
    \<and> (\<forall>p ps. pn_pages s = p # ps \<longrightarrow> pg_cursor p = None)
    \<and> (\<forall>sp \<in> set (pn_splits s). split_ok (pn_pages s) sp \<and> (\<forall>p \<in> set (pn_pages s). \<forall>f.
         pg_key p = sp_original sp \<longrightarrow> fields p = Some f \<longrightarrow> pg_end_cursor (sp_second sp) = Some (pf_continue_cursor f)))
    \<and> (\<forall>xs pos. pn_pages s \<noteq> [] \<longrightarrow> (\<forall>p \<in> set (pn_pages s). taken_from xs pos p) \<longrightarrow>
         (\<exists>m. sn_results (compute_snapshot s) = take m xs
            \<and> (sn_status (compute_snapshot s) \<in> {Can_load_more, Exhausted} \<longrightarrow>
                 m = pos (pf_continue_cursor (the (fields (last (pn_pages s))))))))"
proof -
  have ok: "pn_ok True s"
    using rest_run [OF assms(1) assms(2) assms(3)] assms(4) by (simp add: rest_ok_def)
  have seam: "seam_ok s" using ok by (simp add: pn_ok_def)
  show ?thesis
  proof (intro conjI allI ballI impI)
    show "pn_pages s \<noteq> []" if "\<not> pn_stopped s" using ok that by (simp add: pn_ok_def)
    show "chained (pn_pages s)" by (rule ok_chained [OF ok])
    show "pg_cursor p = None" if "pn_pages s = p # ps" for p ps by (rule seam_okD(2) [OF seam that])
    show "split_ok (pn_pages s) sp" if "sp \<in> set (pn_splits s)" for sp by (rule seam_okD(4) [OF seam that])
    show "pg_end_cursor (sp_second sp) = Some (pf_continue_cursor f)"
      if "sp \<in> set (pn_splits s)" "p \<in> set (pn_pages s)" "pg_key p = sp_original sp" "fields p = Some f" for sp p f
      by (rule ok_split_covers [OF ok that])
  qed (rule ok_prefix [OF ok])
qed

subsection \<open>Subscriptions\<close>

lemma rest_subs:
  assumes "rest_ok chk s"
  shows "fst ` set (pn_live s) = {h. \<exists>p \<in> set (all_pages s). pg_sub p = Some h}"
    "p \<in> set (all_pages s) \<Longrightarrow> pg_sub p \<noteq> None" "distinct (map pg_sub (all_pages s))"
    "pn_stopped s \<Longrightarrow> pn_live s = [] \<and> pn_pages s = [] \<and> \<not> pn_on_update s"
proof -
  have st: "struct_ok s" using assms by (simp add: rest_ok_def pn_ok_def)
  show live: "fst ` set (pn_live s) = {h. \<exists>p \<in> set (all_pages s). pg_sub p = Some h}"
  proof -
    have "live_handles s \<subseteq> handles s" using assms by (simp add: rest_ok_def loose_def)
    then have "live_handles s = handles s" using struct_okD(4) [OF st] by (rule subset_antisym)
    then show ?thesis unfolding live_handles_def handles_def .
  qed
  show sub: "pg_sub p \<noteq> None" if "p \<in> set (all_pages s)" for p
  proof -
    have "bare s = {}" using assms by (simp add: rest_ok_def)
    then show ?thesis using that by (auto simp: bare_def)
  qed
  show "distinct (map pg_sub (all_pages s))"
    unfolding distinct_map
  proof (intro conjI inj_onI)
    show "distinct (all_pages s)" using struct_okD(1) [OF st] by (simp add: distinct_map)
    fix p q assume pq: "p \<in> set (all_pages s)" "q \<in> set (all_pages s)" "pg_sub p = pg_sub q"
    then obtain h where "pg_sub p = Some h" "pg_sub q = Some h" using sub [OF pq(1)] by auto
    then show "p = q" using same_key [OF st pq(1,2)] struct_okD(3) [OF st pq(1,2)] by blast
  qed
  show "pn_live s = [] \<and> pn_pages s = [] \<and> \<not> pn_on_update s" if "pn_stopped s"
  proof -
    have "pn_pages s = []" "pn_splits s = []" "\<not> pn_on_update s" using struct_okD(8) [OF st that] by simp_all
    moreover from this have "all_pages s = []" by (simp add: all_pages_def)
    ultimately show ?thesis using live by simp
  qed
qed

text \<open>A stopped query stays stopped, and nothing that reaches it changes what the callback saw.\<close>

lemma stopped_step: "pn_stopped s \<Longrightarrow> pn_stopped (pn_step L s a) \<and> pn_seen (pn_step L s a) = pn_seen s"
proof -
  assume stop: "pn_stopped s"
  obtain n cached react e where a: "a = Op n cached react e" by (cases a)
  show ?thesis
  proof (cases e)
    case (User c)
    show ?thesis
      by (cases c) (simp_all add: a User pn_step_def stop load_more_def set_args_def reset_def stop_def clear_pages_def drop_subs_def)
  qed (simp add: a pn_step_def on_page_result_def stop)
qed

lemma stopped_run: "pn_stopped s \<Longrightarrow> pn_stopped (run (pn_step L) s ops) \<and> pn_seen (run (pn_step L) s ops) = pn_seen s"
proof (induction ops arbitrary: s)
  case (Cons a ops)
  then show ?case using stopped_step [of s L a] Cons.IH [of "pn_step L s a"] by simp
qed simp

text \<open>
  \<open>C10\<close>: No subscription leaks and no page is without one. After every run, whatever is delivered
  at once and whatever the callbacks do, the live subscriptions are exactly the ones the pages own,
  each page owns one and no two share one. Once the query is stopped there is none, and later
  deliveries never reach the user's callback again.
\<close>

theorem paginated_subscriptions:
  assumes "new_paginated L (callback L cached react n) cached udf args num cb counter = Inr (Some s0)"
    and "ok_run (pn_step L) (pn_enabled False L) s0 (ops @ ops')"
    and "s = run (pn_step L) s0 ops" and "t = run (pn_step L) s0 (ops @ ops')"
  shows "fst ` set (pn_live s) = {h. \<exists>p \<in> set (all_pages s). pg_sub p = Some h}
    \<and> (\<forall>p \<in> set (all_pages s). pg_sub p \<noteq> None) \<and> distinct (map pg_sub (all_pages s))
    \<and> (pn_stopped s \<longrightarrow> pn_live t = [] \<and> pn_pages t = [] \<and> pn_seen t = pn_seen s)"
proof -
  have ops: "ok_run (pn_step L) (pn_enabled False L) s0 ops" using assms(2) unfolding ok_run_append by blast
  have s: "rest_ok False s"
    unfolding assms(3) by (rule rest_run [OF assms(1) _ ops]) simp
  have t: "rest_ok False t"
    unfolding assms(4) by (rule rest_run [OF assms(1) _ assms(2)]) simp
  have "pn_stopped t \<and> pn_seen t = pn_seen s" if "pn_stopped s"
    using stopped_run [OF that] by (simp add: assms(3,4) run_append)
  then show ?thesis using rest_subs(1-3) [OF s] rest_subs(4) [OF t] by blast
qed

subsection \<open>Termination\<close>

text \<open>Which states a \<open>load_more\<close> leaves alone.\<close>

definition blocked :: "paginated \<Rightarrow> bool" where
  "blocked s \<longleftrightarrow> pn_stopped s \<or> (\<exists>p \<in> set (pn_pages s). pg_result p = None)"

definition calm :: "user_op list \<Rightarrow> bool" where
  "calm cs \<longleftrightarrow> (\<forall>c \<in> set cs. c = Stop \<or> (\<exists>n. c = Load_more n))"

lemma blocked_status:
  assumes "p \<in> set (pn_pages s)" "pg_result p = None"
  shows "sn_status (compute_snapshot s) \<noteq> Can_load_more"
proof -
  have "\<not> complete p" using assms(2) by (simp add: complete_def fields_def)
  then have "dropWhile complete (pn_pages s) \<noteq> []" using assms(1) by (auto simp: dropWhile_eq_Nil_conv)
  then show ?thesis
    unfolding compute_snapshot_def snapshot_loop_spec still_loading_def
    by (auto simp: Let_def split: list.split)
qed

lemma blocked_calls: "blocked s \<Longrightarrow> calm cs \<Longrightarrow> \<exists>s'. user_calls L k cached cs s = Some s' \<and> blocked s'"
proof (induction cs arbitrary: s)
  case (Cons c cs)
  have cs: "calm cs" using Cons.prems(2) by (simp add: calm_def)
  have "\<exists>t. user_call L k cached c s = Some t \<and> blocked t"
  proof (cases "c = Stop")
    case True
    then show ?thesis by (simp add: blocked_def stop_def clear_pages_def)
  next
    case False
    then obtain n where c: "c = Load_more n" using Cons.prems(2) by (auto simp: calm_def)
    have "load_more k cached n s = Some (False, s)"
      using Cons.prems(1) blocked_status by (auto simp: blocked_def load_more_def)
    then show ?thesis using Cons.prems(1) c by simp
  qed
  then show ?case using Cons.IH cs by fastforce
qed simp

lemma blocked_seen [simp]: "blocked (s\<lparr>pn_seen := sns\<rparr>) = blocked s"
  by (simp add: blocked_def)

text \<open>In pumped mode nothing is delivered inside \<open>subscribe\<close>, so only \<open>notify\<close> runs a callback.\<close>

lemma attach_blocked: "blocked s \<Longrightarrow> blocked (attach_sub key h s)"
proof -
  have "pg_result (on_key key (\<lambda>p. p\<lparr>pg_sub := Some h\<rparr>) p) = pg_result p" for p by (simp add: on_key_def)
  then show "blocked s \<Longrightarrow> blocked (attach_sub key h s)"
    by (auto simp: blocked_def attach_sub_def split: option.split)
qed

lemma subscribe_pumped: "\<exists>s'. subscribe_page k (\<lambda>_. None) key n s = Some s' \<and> (blocked s \<longrightarrow> blocked s')"
proof (cases "find_page key s")
  case (Some p)
  define s1 where "s1 = with_sub (page_args s p n) s"
  have "subscribe_page k (\<lambda>_. None) key n s = Some (attach_sub key (pn_next_sub s) s1)"
    by (simp add: subscribe_page_def Some Let_def s1_def with_sub_def)
  moreover have "blocked s1 = blocked s" by (simp add: blocked_def s1_def)
  ultimately show ?thesis using attach_blocked by auto
qed (simp add: subscribe_page_def)

lemma add_pumped: "\<exists>s'. add_page k (\<lambda>_. None) n c s = Some s' \<and> blocked s'"
proof -
  have "blocked (s\<lparr>pn_pages := pn_pages s @ [new_page (pn_next_key s + 1) c None], pn_next_key := pn_next_key s + 1\<rparr>)"
    by (simp add: blocked_def new_page_def)
  then show ?thesis unfolding add_page_def Let_def using subscribe_pumped by blast
qed

lemma start_split_pumped: "\<exists>s'. start_split k (\<lambda>_. None) key sc cc s = Some s'"
proof (cases "find_page key s")
  case (Some p)
  have "\<exists>s'. Option.bind (subscribe_page k (\<lambda>_. None) a n t) (subscribe_page k (\<lambda>_. None) b n) = Some s'" for a b n t
    using subscribe_pumped [of k a n t] subscribe_pumped [of k b n] by fastforce
  then show ?thesis unfolding start_split_def Some option.case Let_def .
qed (simp add: start_split_def)

lemma consider_pumped: "\<exists>s'. consider_split k (\<lambda>_. None) key s = Some s'"
  using start_split_pumped unfolding consider_split_def by (auto split: option.split function_result.split)

lemma advance_pumped: "\<exists>s'. advance_split k (\<lambda>_. None) i s = Some s'"
proof -
  have two: "\<exists>s'. Option.bind (consider_split k (\<lambda>_. None) a t) (consider_split k (\<lambda>_. None) b) = Some s'" for a b t
    using consider_pumped [of k a t] consider_pumped [of k b] by fastforce
  show ?thesis unfolding advance_split_def Let_def by (auto simp: two split: option.split)
qed

lemma notify_blocked:
  assumes "\<forall>sn. calm (react sn)" "blocked s"
  shows "\<exists>s'. notify (callback L (\<lambda>_. None) react (Suc n)) s = Some s' \<and> blocked s'"
  using blocked_calls [of "s\<lparr>pn_seen := pn_seen s @ [compute_snapshot s]\<rparr>"] assms by (simp add: notify_def)

lemma calls_pumped:
  assumes react: "\<forall>sn. calm (react sn)"
  shows "calm cs \<Longrightarrow> \<exists>s'. user_calls L (callback L (\<lambda>_. None) react (Suc n)) (\<lambda>_. None) cs s = Some s'"
proof (induction cs arbitrary: s)
  case (Cons c cs)
  let ?k = "callback L (\<lambda>_. None) react (Suc n)"
  have "\<exists>t. user_call L ?k (\<lambda>_. None) c s = Some t"
  proof (cases "c = Stop")
    case False
    then obtain m where c: "c = Load_more m" using Cons.prems by (auto simp: calm_def)
    have "\<exists>t. Option.bind (add_page ?k (\<lambda>_. None) m x s) (notify ?k) = Some t" for x
    proof -
      obtain u where "add_page ?k (\<lambda>_. None) m x s = Some u" "blocked u" using add_pumped by blast
      then show ?thesis using notify_blocked [OF react \<open>blocked u\<close>, of L n] by auto
    qed
    then show ?thesis unfolding c user_call.simps load_more_def
      by (auto split: option.split function_result.split simp del: callback.simps)
  qed simp
  moreover have "calm cs" using Cons.prems by (simp add: calm_def)
  ultimately show ?case using Cons.IH by fastforce
qed simp

lemma notify_pumped:
  assumes "\<forall>sn. calm (react sn)"
  shows "\<exists>s'. notify (callback L (\<lambda>_. None) react (Suc (Suc n))) s = Some s'"
  using calls_pumped [OF assms, of "react (compute_snapshot s)"] assms by (simp add: notify_def)

text \<open>More fuel does not change a result.\<close>

locale deeper =
  fixes k k' :: reenter
  assumes deeper: "k ev s = Some s' \<Longrightarrow> k' ev s = Some s'"
begin

lemma notify_deeper: "notify k s = Some s' \<Longrightarrow> notify k' s = Some s'"
  by (auto simp: notify_def deeper split: if_splits)

lemma subscribe_deeper:
  assumes "subscribe_page k cached key n s = Some s'"
  shows "subscribe_page k' cached key n s = Some s'"
proof (cases "find_page key s")
  case (Some p)
  show ?thesis
    using assms deeper unfolding subscribe_page_def Some option.case Let_def
    by (cases "cached (page_args s p n)") (auto simp: bind_eq_Some_conv)
qed (use assms in \<open>simp add: subscribe_page_def\<close>)

lemma add_deeper: "add_page k cached n c s = Some s' \<Longrightarrow> add_page k' cached n c s = Some s'"
  unfolding add_page_def Let_def by (rule subscribe_deeper)

lemma reset_deeper: "do_reset k cached s = Some s' \<Longrightarrow> do_reset k' cached s = Some s'"
  unfolding do_reset_def by (rule add_deeper)

lemma start_split_deeper: "start_split k cached key sc cc s = Some s' \<Longrightarrow> start_split k' cached key sc cc s = Some s'"
  unfolding start_split_def Let_def
  by (auto simp: bind_eq_Some_conv split: option.splits intro: subscribe_deeper)

lemma consider_deeper: "consider_split k cached key s = Some s' \<Longrightarrow> consider_split k' cached key s = Some s'"
  unfolding consider_split_def
  by (auto split: option.splits function_result.splits if_splits intro: start_split_deeper)

lemma advance_deeper: "advance_split k cached i s = Some s' \<Longrightarrow> advance_split k' cached i s = Some s'"
  unfolding advance_split_def Let_def
  by (auto simp: bind_eq_Some_conv split: option.splits if_splits intro: consider_deeper)

lemma page_result_deeper:
  "on_page_result k cached gen key r s = Some s' \<Longrightarrow> on_page_result k' cached gen key r s = Some s'"
  unfolding on_page_result_def Let_def
  by (auto simp: bind_eq_Some_conv split: option.splits if_splits
      intro: reset_deeper advance_deeper consider_deeper notify_deeper)

lemma user_call_deeper: "user_call L k cached c s = Some s' \<Longrightarrow> user_call L k' cached c s = Some s'"
  using add_deeper [of cached _ _ s] reset_deeper [of cached] notify_deeper
  by (cases c) (fastforce simp: load_more_def set_args_def reset_def bind_eq_Some_conv
      split: option.splits function_result.splits sum.splits if_splits)+

lemma user_calls_deeper: "user_calls L k cached cs s = Some s' \<Longrightarrow> user_calls L k' cached cs s = Some s'"
  by (induction cs arbitrary: s) (auto simp: bind_eq_Some_conv intro: user_call_deeper)

end

lemma callback_deeper:
  "callback L cached react n ev s = Some s' \<Longrightarrow> callback L cached react (Suc n) ev s = Some s'"
proof (induction n arbitrary: ev s s')
  case (Suc n)
  have "deeper (callback L cached react n) (callback L cached react (Suc n))"
    by (rule deeper.intro) (rule Suc.IH)
  note d = deeper.page_result_deeper [OF this] deeper.user_calls_deeper [OF this]
  show ?case
    using Suc.prems d by (cases ev) (simp_all del: callback.simps add: callback.simps(2) [of L cached react n] callback.simps(2) [of L cached react "Suc n"])
qed simp

interpretation nested: deeper "callback L cached react n" "callback L cached react (Suc n)" for L cached react n
  by unfold_locales (rule callback_deeper)

lemma enter_deeper: "enter L (Op n cached react e) s = Some s' \<Longrightarrow> enter L (Op (n + m) cached react e) s = Some s'"
proof (induction m)
  case (Suc m)
  then show ?case
    by (cases e) (auto dest: nested.page_result_deeper nested.user_call_deeper simp del: callback.simps)
qed simp

lemma enter_pumped:
  assumes "\<forall>sn. calm (react sn)"
  shows "\<exists>s'. enter L (Op (Suc (Suc n)) (\<lambda>_. None) react e) s = Some s'"
proof -
  let ?k = "callback L (\<lambda>_. None) react (Suc (Suc n))"
  have nt: "\<exists>s'. notify ?k t = Some s'" for t by (rule notify_pumped [OF assms])
  have after: "\<exists>s'. Option.bind m (notify ?k) = Some s'" if "\<exists>t. m = Some t" for m using that nt by auto
  have reset: "\<exists>t. do_reset ?k (\<lambda>_. None) u = Some t" for u
    unfolding do_reset_def using add_pumped by blast
  show ?thesis
  proof (cases e)
    case (Deliver gen key r)
    have "\<exists>t. (if is_invalid_cursor r then do_reset ?k (\<lambda>_. None) u else case split_of_half key u of
        Some i \<Rightarrow> advance_split ?k (\<lambda>_. None) i u | None \<Rightarrow> consider_split ?k (\<lambda>_. None) key u) = Some t" for u
      using reset advance_pumped consider_pumped by (auto split: option.split simp del: callback.simps)
    note ok = after [OF this, of "update_page key (\<lambda>p. p\<lparr>pg_result := Some r\<rparr>) s"]
    show ?thesis
    proof (cases "pn_stopped s \<or> gen \<noteq> pn_generation s \<or> find_page key s = None")
      case True
      then show ?thesis by (auto simp: Deliver on_page_result_def simp del: callback.simps)
    next
      case False
      then obtain p where p: "find_page key s = Some p" by auto
      have no: "(pn_stopped s \<or> gen \<noteq> pn_generation s) = False" using False by blast
      show ?thesis using ok unfolding Deliver enter.simps on_page_result_def Let_def p no option.case if_False .
    qed
  next
    case (User c)
    show ?thesis
    proof (cases c)
      case (Load_more m)
      have "\<exists>t. Option.bind (add_page ?k (\<lambda>_. None) m x s) (notify ?k) = Some t" for x
        by (rule after) (use add_pumped in blast)
      then show ?thesis unfolding User Load_more enter.simps user_call.simps load_more_def
        by (auto split: option.split function_result.split simp del: callback.simps)
    next
      case (Set_args args)
      show ?thesis unfolding User Set_args enter.simps user_call.simps set_args_def
        using after [OF reset] by (auto split: sum.split simp del: callback.simps)
    next
      case Reset
      show ?thesis unfolding User Reset enter.simps user_call.simps reset_def
        using after [OF reset] by (auto simp del: callback.simps)
    next
      case Stop
      then show ?thesis by (simp add: User)
    qed
  qed
qed

text \<open>
  \<open>C11\<close>: The callbacks end. In pumped mode, when the user's callback only loads more pages or stops
  the query, every delivery and every call of the user, in any state, returns, with one result that
  the fuel does not change: two nested callbacks are enough, because a page that was just requested
  has no result yet and \<open>load_more\<close> then does nothing.
\<close>

theorem paginated_returns:
  assumes "\<forall>sn. calm (react sn)"
  shows "\<exists>s'. \<forall>n. enter L (Op (n + 2) (\<lambda>_. None) react e) s = Some s'"
proof -
  obtain s' where "enter L (Op (Suc (Suc 0)) (\<lambda>_. None) react e) s = Some s'" using enter_pumped [OF assms] by blast
  then have "enter L (Op (2 + n) (\<lambda>_. None) react e) s = Some s'" for n
    using enter_deeper [of L "Suc (Suc 0)"] by (simp only: numeral_2_eq_2)
  then show ?thesis unfolding add.commute [of _ 2] by blast
qed

subsection \<open>A run with a split\<close>

text \<open>What is known of the end of a page, as a list, and runs in pumped mode checked by evaluation.\<close>

definition known_ends :: "page list \<Rightarrow> pending_split list \<Rightarrow> page \<Rightarrow> string option list" where
  "known_ends ps sps p = [map_option pf_continue_cursor (fields p), pg_end_cursor p]
     @ map snd (filter (\<lambda>l. fst l = pg_key p) (links ps))
     @ map (\<lambda>sp. pg_end_cursor (sp_second sp)) (filter (\<lambda>sp. sp_original sp = pg_key p) sps)"

lemma known_end_list: "known_end ps sps p e \<longleftrightarrow> Some e \<in> set (known_ends ps sps p)"
proof -
  have "(pg_key p, Some e) \<in> set (links ps) \<longleftrightarrow> Some e \<in> set (map snd (filter (\<lambda>l. fst l = pg_key p) (links ps)))"
    by (simp add: image_iff split_pairs) 
  moreover have "(pg_key p, Some e) \<in> split_ends sps \<longleftrightarrow>
      Some e \<in> set (map (\<lambda>sp. pg_end_cursor (sp_second sp)) (filter (\<lambda>sp. sp_original sp = pg_key p) sps))"
    by (auto simp: split_ends_def image_iff) metis
  moreover have "x = Some e \<longleftrightarrow> Some e = x" for x by blast
  ultimately show ?thesis unfolding known_end_def known_ends_def by simp
qed

fun check_event :: "paginated \<Rightarrow> entry \<Rightarrow> bool" where
  "check_event s (User c) = True"
| "check_event s (Deliver gen key r) =
     (case (find_page key s, result_fields r) of
        (Some p, Some f) \<Rightarrow> list_all (\<lambda>e. e = None \<or> e = Some (pf_continue_cursor f)) (known_ends (pn_pages s) (pn_splits s) p)
      | _ \<Rightarrow> True)"

fun pumped_op :: "nat \<times> (paginated_snapshot \<Rightarrow> user_op list) \<times> entry \<Rightarrow> pn_op" where
  "pumped_op (n, react, e) = Op n (\<lambda>_. None) react e"

fun checked_run :: "json_lib \<Rightarrow> paginated \<Rightarrow> (nat \<times> (paginated_snapshot \<Rightarrow> user_op list) \<times> entry) list \<Rightarrow> bool" where
  "checked_run L s [] = True"
| "checked_run L s ((n, react, e) # as) =
     (case enter L (Op n (\<lambda>_. None) react e) s of
        None \<Rightarrow> False
      | Some s' \<Rightarrow> check_event s e \<and> checked_run L s' as)"

lemma check_event: "check_event s e \<Longrightarrow> server_keeps s (Op n (\<lambda>_. None) react e)"
proof (cases e)
  case (Deliver gen key r)
  assume c: "check_event s e"
  have "event_ok s (Page_result gen key r)"
    unfolding event_ok.simps
  proof (intro impI allI)
    fix p f x assume p: "find_page key s = Some p" "result_fields r = Some f"
      and x: "known_end (pn_pages s) (pn_splits s) p x"
    have "list_all (\<lambda>e. e = None \<or> e = Some (pf_continue_cursor f)) (known_ends (pn_pages s) (pn_splits s) p)"
      using c p by (simp add: Deliver)
    then show "pf_continue_cursor f = x" using x unfolding known_end_list list_all_iff by fastforce
  qed
  then show ?thesis by (simp add: Deliver cache_ok_def)
qed (simp add: cache_ok_def)

lemma checked_run:
  "checked_run L s as \<Longrightarrow> ok_run (pn_step L) (pn_enabled chk L) s (map pumped_op as)"
proof (induction as arbitrary: s)
  case (Cons a as)
  obtain n react e where a: "a = (n, react, e)" by (cases a)
  then obtain s' where s': "enter L (Op n (\<lambda>_. None) react e) s = Some s'" "check_event s e" "checked_run L s' as"
    using Cons.prems by (auto split: option.splits)
  then show ?case using Cons.IH [OF s'(3)] check_event [OF s'(2), of n react] by (simp add: a pn_enabled_def pn_step_def)
qed simp

lemma taken_from_code [code]:
  "taken_from xs pos p = (case fields p of None \<Rightarrow> True
     | Some f \<Rightarrow> pf_split_required f \<or> start_of pos p \<le> pos (pf_continue_cursor f)
         \<and> pf_items f = drop (start_of pos p) (take (pos (pf_continue_cursor f)) xs))"
  by (cases "fields p") (simp_all add: taken_from_def disj_imp)

definition sample_page :: "convex_value list \<Rightarrow> bool \<Rightarrow> string \<Rightarrow> string \<Rightarrow> function_result" where
  "sample_page items fin cursor split = FR_success (VObject (
     [(''continueCursor'', VString cursor), (''isDone'', VBool fin), (''page'', VArray items)]
     @ (if split = [] then [] else [(''pageStatus'', VString ''SplitRequired''), (''splitCursor'', VString split)])))"

definition sample_list :: "convex_value list" where
  "sample_list = [VString ''a'', VString ''b'', VString ''c'']"

definition sample_pos :: "string \<Rightarrow> nat" where
  "sample_pos c = (if c = ''p1'' then 1 else if c = ''p2'' then 2 else 3)"

definition sample_json :: json_lib where
  "sample_json = \<lparr>jl_dump = (\<lambda>_. Inr ''{}''), jl_parse = (\<lambda>t. Inl (Json_exception ''parse error''))\<rparr>"

definition greedy :: "paginated_snapshot \<Rightarrow> user_op list" where
  "greedy sn = [Load_more 2]"

text \<open>
  Two items, then the rest (the callback asks for it); the first page is then to be split, and its
  halves arrive.
\<close>

definition sample_entries :: "(nat \<times> (paginated_snapshot \<Rightarrow> user_op list) \<times> entry) list" where
  "sample_entries = map (\<lambda>e. (2, greedy, e))
     [Deliver 0 1 (sample_page (take 2 sample_list) False ''p2'' ''''),
      Deliver 0 2 (sample_page (drop 2 sample_list) True ''p3'' ''''),
      Deliver 0 1 (sample_page [] False ''p2'' ''p1''),
      Deliver 0 3 (sample_page [VString ''a''] False ''p1'' ''''),
      Deliver 0 4 (sample_page [VString ''b''] False ''p2'' '''')]"

definition sample_fresh :: paginated where
  "sample_fresh = (case new_paginated sample_json (callback sample_json (\<lambda>_. None) greedy 2) (\<lambda>_. None)
     ''messages:list'' [] 2 True 0 of Inr (Some s) \<Rightarrow> s | _ \<Rightarrow> fresh_paginated [] [] 0 False 0)"

definition sample_reached :: paginated where
  "sample_reached = run (pn_step sample_json) sample_fresh (map pumped_op sample_entries)"

lemma sample_new:
  "new_paginated sample_json (callback sample_json (\<lambda>_. None) greedy 2) (\<lambda>_. None) ''messages:list'' [] 2 True 0
     = Inr (Some sample_fresh)"
proof -
  have "(case new_paginated sample_json (callback sample_json (\<lambda>_. None) greedy 2) (\<lambda>_. None)
     ''messages:list'' [] 2 True 0 of Inr (Some s) \<Rightarrow> True | _ \<Rightarrow> False)" by code_simp
  then show ?thesis unfolding sample_fresh_def by (auto split: sum.splits option.splits)
qed

lemma sample_checked: "checked_run sample_json sample_fresh sample_entries"
  by code_simp

lemma sample_page_facts:
  "let s = sample_reached in sn_results (compute_snapshot s) = sample_list \<and> sn_status (compute_snapshot s) = Exhausted
     \<and> map pg_key (pn_pages s) = [3, 4, 2] \<and> map fst (pn_live s) = [1, 2, 3] \<and> length (pn_seen s) = 6
     \<and> list_all (taken_from sample_list sample_pos) (pn_pages s) \<and> \<not> pn_stopped s"
  by code_simp

lemma greedy_calm: "\<forall>sn. calm (greedy sn)"
  by (simp add: calm_def greedy_def)

theorem paginated_gapless_witness:
  "chained (pn_pages sample_reached) \<and> map pg_key (pn_pages sample_reached) = [3, 4, 2]
   \<and> (\<exists>m. sn_results (compute_snapshot sample_reached) = take m sample_list
        \<and> m = sample_pos (pf_continue_cursor (the (fields (last (pn_pages sample_reached))))))"
proof -
  have "cache_ok (\<lambda>_. None)" by (simp add: cache_ok_def)
  note all = paginated_gapless [OF sample_new this checked_run [OF sample_checked] sample_reached_def]
  have facts: "pn_pages sample_reached \<noteq> []" "\<forall>p \<in> set (pn_pages sample_reached). taken_from sample_list sample_pos p"
    "sn_status (compute_snapshot sample_reached) = Exhausted" "map pg_key (pn_pages sample_reached) = [3, 4, 2]"
    using sample_page_facts by (auto simp: Let_def list_all_iff)
  have "(\<exists>m. sn_results (compute_snapshot sample_reached) = take m sample_list
      \<and> (sn_status (compute_snapshot sample_reached) \<in> {Can_load_more, Exhausted} \<longrightarrow>
           m = sample_pos (pf_continue_cursor (the (fields (last (pn_pages sample_reached)))))))"
    using all facts(1,2) by blast
  then show ?thesis using all facts(3,4) by simp
qed

definition sample_stopped :: "(nat \<times> (paginated_snapshot \<Rightarrow> user_op list) \<times> entry) list" where
  "sample_stopped = sample_entries @ [(2, greedy, User Stop)]"

definition sample_late :: "(nat \<times> (paginated_snapshot \<Rightarrow> user_op list) \<times> entry) list" where
  "sample_late = [(2, greedy, Deliver 0 2 (sample_page [] True ''p3'' ''''))]"

lemma sample_late_checked:
  "checked_run sample_json sample_fresh (sample_stopped @ sample_late)
   \<and> pn_stopped (run (pn_step sample_json) sample_fresh (map pumped_op sample_stopped))"
  by code_simp

theorem paginated_subscriptions_witness:
  "distinct (map pg_sub (all_pages (run (pn_step sample_json) sample_fresh (map pumped_op sample_stopped))))
   \<and> pn_live (run (pn_step sample_json) sample_fresh (map pumped_op sample_stopped @ map pumped_op sample_late)) = []
   \<and> distinct (map pg_sub (all_pages sample_reached))"
proof -
  note runs = checked_run [OF conjunct1 [OF sample_late_checked], of False, unfolded map_append]
  have "ok_run (pn_step sample_json) (pn_enabled False sample_json) sample_fresh (map pumped_op sample_entries @ [])"
    using checked_run [OF sample_checked] by simp
  note paginated_subscriptions [OF sample_new this sample_reached_def refl]
  then show ?thesis
    using paginated_subscriptions [OF sample_new runs refl refl] conjunct2 [OF sample_late_checked] by blast
qed

theorem paginated_returns_witness:
  "\<exists>s'. \<forall>n. enter sample_json (Op (n + 2) (\<lambda>_. None) greedy (Deliver 0 1 (sample_page [] False ''p2'' ''''))) sample_fresh = Some s'"
  by (rule paginated_returns [OF greedy_calm])

end
