(* ===== verification/IxTransport.thy ===== *)
theory IxTransport
  imports HttpClient
begin

section \<open>The IXWebSocket transport (\<open>transports/ixwebsocket/ixwebsocket_transport.cpp\<close>)\<close>

text \<open>
  The adapter between IXWebSocket, which is not in the repository, and the interfaces of
  \<open>transport.h\<close>. What the library reports is a parameter: the messages of its callback, in order,
  and its HTTP responses. The model is what the adapter makes of them: the calls of the observer
  and of \<open>on_done\<close>.
\<close>

subsection \<open>Connections\<close>

datatype ix_message =
    Ix_open
  | Ix_message bool string          \<comment> \<open>\<open>binary\<close>, \<open>str\<close>\<close>
  | Ix_error string                 \<comment> \<open>\<open>errorInfo.reason\<close>\<close>
  | Ix_close "16 word" string       \<comment> \<open>\<open>closeInfo.code\<close>, \<open>closeInfo.reason\<close>\<close>
  | Ix_other                        \<comment> \<open>ping, pong, fragment\<close>

datatype observer_call = On_open | On_message string | On_close string

text \<open>The state is \<open>close_reported_\<close> and the calls so far.\<close>

definition report_close :: "string \<Rightarrow> bool \<times> observer_call list \<Rightarrow> bool \<times> observer_call list" where
  "report_close reason = (\<lambda>(reported, calls). (True, if reported then calls else calls @ [On_close reason]))"

fun ix_on_message :: "ix_message \<Rightarrow> bool \<times> observer_call list \<Rightarrow> bool \<times> observer_call list" where
  "ix_on_message Ix_open (reported, calls) = (reported, calls @ [On_open])"
| "ix_on_message (Ix_message binary str) (reported, calls) =
     (reported, if binary then calls else calls @ [On_message str])"
| "ix_on_message (Ix_error reason) (reported, calls) =
     report_close (if reason = [] then ''TransportError'' else reason) (reported, calls)"
| "ix_on_message (Ix_close code reason) (reported, calls) =
     report_close (if reason = [] then ''Closed('' @ dec_digits (unat code) @ '')'' else reason) (reported, calls)"
| "ix_on_message Ix_other (reported, calls) = (reported, calls)"

definition ix_calls :: "ix_message list \<Rightarrow> observer_call list" where
  "ix_calls ms = snd (fold ix_on_message ms (False, []))"

text \<open>The reason of a message that ends the connection, and the calls for the others.\<close>

fun end_reason :: "ix_message \<Rightarrow> string option" where
  "end_reason (Ix_error reason) = Some (if reason = [] then ''TransportError'' else reason)"
| "end_reason (Ix_close code reason) =
     Some (if reason = [] then ''Closed('' @ dec_digits (unat code) @ '')'' else reason)"
| "end_reason _ = None"

fun data_calls :: "ix_message \<Rightarrow> observer_call list" where
  "data_calls Ix_open = [On_open]"
| "data_calls (Ix_message binary str) = (if binary then [] else [On_message str])"
| "data_calls _ = []"

lemma fold_reported:
  "fold ix_on_message ms (True, calls) = (True, calls @ concat (map data_calls ms))"
proof (induction ms arbitrary: calls)
  case (Cons m ms)
  then show ?case by (cases m) (simp_all add: report_close_def)
qed simp

lemma fold_open:
  "list_all (\<lambda>m. end_reason m = None) ms \<Longrightarrow>
     fold ix_on_message ms (False, calls) = (False, calls @ concat (map data_calls ms))"
proof (induction ms arbitrary: calls)
  case (Cons m ms)
  then show ?case by (cases m) simp_all
qed simp

lemma on_close_end:
  "end_reason m = Some r \<Longrightarrow> ix_on_message m (False, calls) = (True, calls @ [On_close r])"
  by (cases m) (auto simp: report_close_def)

text \<open>
  \<open>C31\<close>: The adapter keeps the contract of an observer. Before the library reports an error or a close
  the observer gets the opening and the text frames, in order, and no close. The first such report is
  one \<open>on_close\<close> with a reason that is never empty; later ones, like the close that follows an error,
  are swallowed. That \<open>on_close\<close> is the last call exactly when the library sends nothing but such
  reports, binary frames and pings after it.
\<close>

theorem ix_contract:
  assumes "list_all (\<lambda>m. end_reason m = None) before"
  shows "ix_calls before = concat (map data_calls before)
    \<and> (\<forall>r. On_close r \<notin> set (ix_calls before))
    \<and> (end_reason m = Some r \<longrightarrow> r \<noteq> []
        \<and> ix_calls (before @ m # after) = ix_calls before @ On_close r # concat (map data_calls after)
        \<and> (\<forall>r'. On_close r' \<notin> set (concat (map data_calls after)))
        \<and> (last (ix_calls (before @ m # after)) = On_close r \<longleftrightarrow> list_all (\<lambda>m'. data_calls m' = []) after))"
proof -
  have data: "On_close r' \<notin> set (concat (map data_calls ms))" for r' ms
  proof -
    have "On_close r' \<notin> set (data_calls x)" for x by (cases x) auto
    then show ?thesis by simp
  qed
  have b: "ix_calls before = concat (map data_calls before)"
    using fold_open [OF assms, of "[]"] by (simp add: ix_calls_def)
  have rest: "r \<noteq> []" "ix_calls (before @ m # after) = ix_calls before @ On_close r # concat (map data_calls after)"
    if "end_reason m = Some r"
  proof -
    show "r \<noteq> []" using that by (cases m) (auto split: if_splits)
    show "ix_calls (before @ m # after) = ix_calls before @ On_close r # concat (map data_calls after)"
      unfolding b using fold_open [OF assms, of "[]"] on_close_end [OF that]
      by (simp add: ix_calls_def fold_reported)
  qed
  have "last (xs @ On_close r # concat (map data_calls after)) = On_close r \<longleftrightarrow> list_all (\<lambda>m'. data_calls m' = []) after" for xs
  proof (cases "concat (map data_calls after) = []")
    case True
    then show ?thesis by (simp add: list_all_iff)
  next
    case False
    then have "last (concat (map data_calls after)) \<noteq> On_close r" using data [of r after] last_in_set by metis
    then show ?thesis using False by (auto simp: list_all_iff)
  qed
  then show ?thesis using rest b data by simp
qed

theorem ix_contract_witness:
  "ix_calls [Ix_open, Ix_message False ''hello'', Ix_error [], Ix_close 1006 ''gone'']
     = [On_open, On_message ''hello'', On_close ''TransportError'']"
proof -
  have "list_all (\<lambda>m. end_reason m = None) [Ix_open, Ix_message False ''hello'']" by simp
  then show ?thesis
    using ix_contract [of "[Ix_open, Ix_message False ''hello'']" "Ix_error []" "''TransportError''" "[Ix_close 1006 ''gone'']"]
    by simp
qed

subsection \<open>HTTP\<close>

record ix_http_response =
  xr_error_ok :: bool            \<comment> \<open>\<open>errorCode == Ok\<close>\<close>
  xr_error_msg :: string
  xr_status_code :: int
  xr_body :: string

definition ix_http_done :: "ix_http_response option \<Rightarrow> http_response" where
  "ix_http_done r = (case r of
     None \<Rightarrow> \<lparr>hp_status = 0, hp_body = [], hp_error = ''no response''\<rparr>
   | Some x \<Rightarrow>
       if \<not> xr_error_ok x
       then \<lparr>hp_status = xr_status_code x, hp_body = xr_body x,
              hp_error = (if xr_error_msg x = [] then ''http error'' else xr_error_msg x)\<rparr>
       else \<lparr>hp_status = xr_status_code x, hp_body = xr_body x, hp_error = []\<rparr>)"

text \<open>The calls of \<open>on_done\<close>, given whether the request was queued and what the library answers then.\<close>

definition ix_http_send :: "bool \<Rightarrow> ix_http_response option \<Rightarrow> http_response list" where
  "ix_http_send queued r =
     (if queued then [ix_http_done r]
      else [\<lparr>hp_status = 0, hp_body = [], hp_error = ''failed to queue request''\<rparr>])"

text \<open>One call of \<open>on_done\<close>; it carries an error exactly when the library did not get a response.\<close>

lemma ix_http_once:
  "\<exists>resp. ix_http_send queued r = [resp]
     \<and> (hp_error resp = [] \<longleftrightarrow> queued \<and> (\<exists>x. r = Some x \<and> xr_error_ok x))"
  by (auto simp: ix_http_send_def ix_http_done_def split: option.split)

end
