(* ===== verification/ClientTransport.thy ===== *)
theory ClientTransport
  imports ClientProps IxTransport
begin

section \<open>The realtime client on the IXWebSocket transport\<close>

text \<open>
  \<open>ClientRuns\<close> enables \<open>on_open\<close> on a connection that is not open. Here that is no longer an
  assumption on the transport: the adapter forwards what the library reports, the library opens a
  connection at most once, and the client believes a connection open only after \<open>on_open\<close> of its
  own generation. The other way round, the client needs less than the contract of \<open>transport.h\<close>
  says: it ignores whatever the adapter forwards after its \<open>on_close\<close>.
\<close>

fun client_op_of :: "env \<Rightarrow> 64 word \<Rightarrow> observer_call \<Rightarrow> client_op" where
  "client_op_of E gen On_open = Ws_open E gen"
| "client_op_of E gen (On_message t) = Ws_message E gen t"
| "client_op_of E gen (On_close reason) = Ws_close E gen reason"

text \<open>The calls the observer of a generation has got in a run.\<close>

fun observed_call :: "64 word \<Rightarrow> client_op \<Rightarrow> observer_call list" where
  "observed_call gen (Ws_open E g) = (if g = gen then [On_open] else [])"
| "observed_call gen (Ws_message E g t) = (if g = gen then [On_message t] else [])"
| "observed_call gen (Ws_close E g reason) = (if g = gen then [On_close reason] else [])"
| "observed_call gen _ = []"

definition observed :: "64 word \<Rightarrow> client_op list \<Rightarrow> observer_call list" where
  "observed gen ops = concat (map (observed_call gen) ops)"

lemma observed_op_of [simp]: "observed gen (map (client_op_of E gen) calls) = calls"
proof (induction calls)
  case (Cons c calls)
  then show ?case by (cases c) (simp_all add: observed_def)
qed (simp add: observed_def)

subsection \<open>The adapter opens once\<close>

definition opens :: "observer_call list \<Rightarrow> nat" where
  "opens calls = length (filter (\<lambda>c. c = On_open) calls)"

lemma opens_append [simp]: "opens (xs @ ys) = opens xs + opens ys"
  by (simp add: opens_def)

lemma opens_step:
  "opens (snd (ix_on_message m st)) = opens (snd st) + (if m = Ix_open then 1 else 0)"
  by (cases m; cases st) (simp_all add: opens_def report_close_def)

lemma opens_fold:
  "opens (snd (fold ix_on_message ms st)) = opens (snd st) + length (filter (\<lambda>m. m = Ix_open) ms)"
  by (induction ms arbitrary: st) (simp_all add: opens_step)

lemma opens_ix_calls: "opens (ix_calls ms) = length (filter (\<lambda>m. m = Ix_open) ms)"
  by (simp add: ix_calls_def opens_fold) (simp add: opens_def)

subsection \<open>Where an open connection comes from\<close>

text \<open>A step that is no \<open>on_open\<close> leaves an open connection open, of the same generation, or closes it.\<close>

definition opens_nothing :: "client_state \<Rightarrow> client_state \<Rightarrow> bool" where
  "opens_nothing s s' \<longleftrightarrow> (cl_socket_open s' \<longrightarrow> cl_socket_open s \<and> cl_conn_gen s' = cl_conn_gen s)"

lemma opens_nothing_same:
  "cl_socket_open s' = cl_socket_open s \<Longrightarrow> cl_conn_gen s' = cl_conn_gen s \<Longrightarrow> opens_nothing s s'"
  by (simp add: opens_nothing_def)

lemma opens_nothing_closed: "\<not> cl_socket_open s' \<Longrightarrow> opens_nothing s s'"
  by (simp add: opens_nothing_def)

lemma drain_open [simp]:
  "cl_socket_open (fst (drain_outgoing L s)) = cl_socket_open s"
  "cl_conn_gen (fst (drain_outgoing L s)) = cl_conn_gen s"
  using drain_outgoing_frame [of L s] by auto

lemma begin_disconnect_closes: "\<not> cl_socket_open (fst (begin_disconnect E reason st))"
  by (cases st, rule begin_disconnect_cases [of E "fst st" reason "snd st"]) simp

lemma dispatch_opens_nothing: "opens_nothing s (fst (dispatch_message L E msg s))"
proof (cases "receive_message msg (cl_base s)")
  case (Inl e)
  then show ?thesis by (simp add: dispatch_message_def opens_nothing_same)
next
  case (Inr br)
  obtain b r where br: "br = (b, r)" by fastforce
  show ?thesis
  proof (cases "rr_reconnect_reason r")
    case (Some reason)
    have "\<not> cl_socket_open (fst (dispatch_message L E msg s))"
      using Inr br Some by (simp add: dispatch_message_def Let_def case_prod_unfold begin_disconnect_closes)
    then show ?thesis by (rule opens_nothing_closed)
  next
    case None
    let ?p = "complete_pending (rr_completed_requests r) (cl_pending s)"
    define s2 where "s2 = s\<lparr>cl_base := b, cl_pending := snd ?p\<rparr>"
    define s3 where "s3 = (if rr_state_changed r \<and> has_synced_past_last_restart b
      then s2\<lparr>cl_retries := 0, cl_consecutive_auth_errors := 0\<rparr> else s2)"
    have s3: "cl_socket_open s3 = cl_socket_open s" "cl_conn_gen s3 = cl_conn_gen s"
      by (simp_all add: s3_def s2_def)
    obtain s4 e where d: "drain_outgoing L s3 = (s4, e)" by fastforce
    have s4: "cl_socket_open s4 = cl_socket_open s" "cl_conn_gen s4 = cl_conn_gen s"
      using drain_open [of L s3] s3 unfolding d by simp_all
    have "fst (dispatch_message L E msg s) = s4 \<or> (\<exists>out. fst (dispatch_message L E msg s) = deliver out s4)"
      using Inr br None d
      by (cases e) (auto simp: dispatch_message_def Let_def case_prod_unfold s3_def s2_def)
    then show ?thesis using s4 by (auto intro: opens_nothing_same)
  qed
qed

lemma message_opens_nothing: "opens_nothing s (fst (ws_message L E gen t s))"
proof (cases "cl_stopping s \<or> gen \<noteq> cl_conn_gen s")
  case True
  then show ?thesis by (simp add: ws_message_def opens_nothing_same)
next
  case False
  then have run: "\<not> cl_stopping s" "gen = cl_conn_gen s" by simp_all
  have "opens_nothing s (fst (protocol_failure E w s'))" for w s'
    using begin_disconnect_closes [of E "''ProtocolError: '' @ w" "(s', [])"]
    by (simp add: protocol_failure_def case_prod_unfold opens_nothing_closed Let_def)
  moreover have "opens_nothing s (fst (dispatch_message L E msg (s\<lparr>cl_last_server_msg := x, cl_chunk_assembler := a\<rparr>)))"
    for msg x a
    using dispatch_opens_nothing [of "s\<lparr>cl_last_server_msg := x, cl_chunk_assembler := a\<rparr>" L E msg]
    by (simp add: opens_nothing_def)
  ultimately show ?thesis
    by (rule_tac ws_message_cases [OF run, of L E t]) (simp_all add: opens_nothing_same)
qed

lemma attempt_end_opens_nothing:
  assumes "conn_ok s" "cl_worker s = W_connecting gen out"
  shows "opens_nothing s (fst (attempt_end L E gen out r s))"
proof (cases "cl_stopping s \<or> gen \<noteq> cl_conn_gen s")
  case True
  then show ?thesis by (auto simp: attempt_end_def Let_def intro: opens_nothing_same)
next
  case False
  show ?thesis
  proof (cases "r = Conn_made")
    case made: True
    show ?thesis
    proof (cases "cl_pending_open s")
      case True
      let ?s1 = "s\<lparr>cl_worker := W_running, cl_conn := Some gen, cl_conn_slot := Some gen, cl_wire := [],
        cl_pending_open := False, cl_socket_open := True\<rparr>"
      obtain s2 out2 e where h: "handle_open L E (?s1, out) = (s2, out2, e)" by (cases "handle_open L E (?s1, out)")
      obtain b w where "s2 = ?s1\<lparr>cl_last_server_msg := ev_now E, cl_state := Connected, cl_base := b, cl_wire := w\<rparr>"
        using handle_open_frame [of L E ?s1 out] h by auto
      moreover have "cl_socket_open s" using assms(1) True False by (simp add: conn_ok_def)
      ultimately show ?thesis
        using made True False h by (cases e) (simp_all add: attempt_end_def Let_def opens_nothing_same)
    qed (use made False in \<open>simp add: attempt_end_def Let_def opens_nothing_same\<close>)
  qed (use False in \<open>simp add: attempt_end_def Let_def case_prod_unfold begin_disconnect_closes opens_nothing_closed\<close>)
qed

lemma worker_opens_nothing:
  assumes "conn_ok s"
  shows "opens_nothing s (worker_pass E s)"
proof (cases "cl_worker s = W_running \<and> \<not> cl_stopping s \<and> cl_garbage s = []")
  case True
  show ?thesis
  proof (cases "cl_reconnect_scheduled s \<and> ev_now E \<ge> cl_reconnect_at s")
    case due: True
    then have "\<not> cl_socket_open s" using assms True by (auto simp: conn_ok_def)
    then show ?thesis using True due
      by (simp add: worker_pass_def attempt_begin_def Let_def opens_nothing_closed)
  next
    case False
    then show ?thesis
      using True begin_disconnect_closes [of E "''InactiveServer''" "(s, [])"]
      by (auto simp: worker_pass_def case_prod_unfold Let_def intro: opens_nothing_closed opens_nothing_same)
  qed
qed (auto simp: worker_pass_def intro: opens_nothing_same)

lemma subscribe_opens_nothing: "opens_nothing s (fst (do_subscribe L p args cb s))"
  by (rule do_subscribe_keeps) (simp_all add: opens_nothing_def)

lemma step_opens_nothing:
  assumes ok: "conn_ok s" and no: "\<And>E gen. op \<noteq> Ws_open E gen"
  shows "opens_nothing s (client_step L s op)"
proof (cases op)
  case (Ws_message E gen t)
  then show ?thesis using message_opens_nothing by (simp add: client_step_def)
next
  case (Ws_close E gen reason)
  then show ?thesis
    by (auto simp: client_step_def ws_close_def case_prod_unfold Let_def begin_disconnect_closes
        intro: opens_nothing_closed opens_nothing_same)
next
  case (Worker_pass E)
  then show ?thesis using worker_opens_nothing [OF ok] by (simp add: client_step_def)
next
  case (Connect_returns E r)
  then show ?thesis
    using attempt_end_opens_nothing [OF ok]
    by (cases "cl_worker s") (simp_all add: client_step_def connect_returns_def opens_nothing_same)
next
  case (Do_subscribe p args cb)
  then show ?thesis using subscribe_opens_nothing by (simp add: client_step_def)
next
  case (Do_request m p args cb)
  then show ?thesis
    by (simp add: client_step_def do_request_def opens_nothing_same split: prod.split sum.split)
qed (use no in \<open>simp_all add: client_step_def worker_wake_def run_delivery_def do_unsubscribe_def
      do_set_auth_def do_process_events_def shutdown_begin_def shutdown_end_def on_state_change_def
      on_auth_failure_def on_log_lines_def opens_nothing_def\<close>)

lemma open_gen_step:
  assumes "conn_ok s" "cl_socket_open (client_step L s op)"
  shows "(cl_socket_open s \<and> cl_conn_gen (client_step L s op) = cl_conn_gen s)
    \<or> On_open \<in> set (observed_call (cl_conn_gen (client_step L s op)) op)"
proof (cases "\<exists>E gen. op = Ws_open E gen")
  case True
  then obtain E gen where op: "op = Ws_open E gen" by blast
  show ?thesis
  proof (cases "cl_stopping s \<or> gen \<noteq> cl_conn_gen s")
    case True
    then show ?thesis using assms(2) by (auto simp: op client_step_def ws_open_def)
  next
    case False
    obtain b w where h: "fst (handle_open L E (s\<lparr>cl_socket_open := True\<rparr>, [])) =
        s\<lparr>cl_socket_open := True, cl_last_server_msg := ev_now E, cl_state := Connected, cl_base := b, cl_wire := w\<rparr>"
      using handle_open_frame [of L E "s\<lparr>cl_socket_open := True\<rparr>" "[]"] by auto
    have "cl_conn_gen (client_step L s op) = cl_conn_gen s"
      using False h by (cases "handle_open L E (s\<lparr>cl_socket_open := True\<rparr>, [])")
        (auto simp: op client_step_def ws_open_def Let_def split: option.split)
    then show ?thesis using False by (simp add: op)
  qed
next
  case False
  then show ?thesis
    using step_opens_nothing [OF assms(1), of op L] assms(2) by (auto simp: opens_nothing_def)
qed

text \<open>So an open connection of a run has had its \<open>on_open\<close>.\<close>

lemma open_was_opened:
  "client_inv L s \<Longrightarrow> ok_run (client_step L) (client_ok L) s ops \<Longrightarrow>
   cl_socket_open (run (client_step L) s ops) \<Longrightarrow>
     (cl_socket_open s \<and> cl_conn_gen (run (client_step L) s ops) = cl_conn_gen s)
     \<or> On_open \<in> set (observed (cl_conn_gen (run (client_step L) s ops)) ops)"
proof (induction ops arbitrary: s)
  case (Cons op ops)
  have en: "client_ok L s op" and rest: "ok_run (client_step L) (client_ok L) (client_step L s op) ops"
    using Cons.prems(2) by simp_all
  have "client_inv L (client_step L s op)" by (rule cl.step_keeps [OF Cons.prems(1) en])
  from Cons.IH [OF this rest] Cons.prems(3)
  show ?case using open_gen_step [OF client_invD(1) [OF Cons.prems(1)], of L op] by (auto simp: observed_def)
qed (simp add: observed_def)

subsection \<open>Client and adapter together\<close>

lemma late_call_ignored:
  "gen \<noteq> cl_conn_gen s \<Longrightarrow> client_step L s (client_op_of E gen c) = s"
  by (cases c) (simp_all add: client_step_def ws_open_def ws_message_def ws_close_def)

lemma late_calls_ignored:
  "gen \<noteq> cl_conn_gen s \<Longrightarrow> run (client_step L) s (map (client_op_of E gen) calls) = s"
  by (induction calls) (simp_all add: late_call_ignored)

lemma ws_close_retires:
  "\<not> cl_stopping s \<Longrightarrow> cl_conn_gen (ws_close E (cl_conn_gen s) reason s) = cl_conn_gen s + 1"
  by (rule begin_disconnect_cases [of E s reason "[]"]) (simp add: ws_close_def)

text \<open>
  \<open>C30\<close>: The client on the bundled transport. Take any run in which the observer of a generation has
  got a part of what the adapter makes of the messages of the library, which reports the opening of
  a connection at most once. When \<open>on_open\<close> comes next, and it is for the current generation, the client
  has no open connection: the call is enabled as soon as the observer is alive and the clock does
  not go back. And once the adapter has reported the close of the current connection, whatever it
  still forwards for it leaves the client as it is.
\<close>

theorem adapter_drives_client:
  assumes "client_runs L opts sid now ops"
  defines "s \<equiv> client_run L opts sid now ops"
  assumes "observed gen (ops @ [Ws_open E gen]) @ rest = ix_calls ms"
    and "length (filter (\<lambda>m. m = Ix_open) ms) \<le> 1"
  shows "(gen = cl_conn_gen s \<longrightarrow> \<not> cl_socket_open s)
    \<and> (has_slot s gen \<and> cl_last_server_msg s \<le> ev_now E \<longrightarrow> op_enabled L s (Ws_open E gen))
    \<and> (gen = cl_conn_gen s \<and> \<not> cl_stopping s \<longrightarrow>
         run (client_step L) s (map (client_op_of E gen) (On_close reason # calls)) = ws_close E gen reason s)"
proof -
  have "opens (observed gen (ops @ [Ws_open E gen])) \<le> 1"
    using assms(4) unfolding opens_ix_calls [symmetric] assms(3) [symmetric] by simp
  then have "opens (observed gen ops) = 0" by (simp add: observed_def) (simp add: opens_def)
  then have "On_open \<notin> set (observed gen ops)" by (auto simp: opens_def filter_empty_conv)
  moreover obtain s0 where s0: "new_client opts sid now = Inr s0" "ok_run (client_step L) (client_ok L) s0 ops"
    using assms(1) by (auto simp: client_runs_def split: sum.splits)
  moreover have "s = run (client_step L) s0 ops" using s0(1) by (simp add: s_def client_run_def)
  moreover have "\<not> cl_socket_open s0" using s0(1) by (auto simp: new_client_def result_simps split: if_splits)
  ultimately have closed: "gen = cl_conn_gen s \<longrightarrow> \<not> cl_socket_open s"
    using open_was_opened [OF new_client_inv [OF s0(1)] s0(2)] by auto
  have "run (client_step L) s (map (client_op_of E gen) (On_close reason # calls)) = ws_close E gen reason s"
    if "gen = cl_conn_gen s" "\<not> cl_stopping s"
    using that ws_close_retires [OF that(2), of E reason] late_calls_ignored [of gen "ws_close E gen reason s" L E calls]
    by (simp add: client_step_def)
  then show ?thesis using closed unfolding op_enabled.simps by blast
qed

text \<open>The first connection of a client, opened and then lost with a frame still to come.\<close>

lemma adapter_drives_client_witness:
  "let s = client_run sample_lib sample_opts ''s'' 0 (take 7 sample_open)
   in op_enabled sample_lib s (Ws_open (at_time 2) 1)
      \<and> run (client_step sample_lib) s (map (client_op_of (at_time 2) 1) [On_close ''gone'', On_message ''late''])
         = ws_close (at_time 2) 1 ''gone'' s"
proof -
  let ?ops = "take 7 sample_open"
  let ?s = "client_run sample_lib sample_opts ''s'' 0 ?ops"
  have runs: "client_runs sample_lib sample_opts ''s'' 0 ?ops"
    by code_simp
  have facts: "let s = ?s in cl_conn_gen s = 1 \<and> \<not> cl_stopping s \<and> has_slot s 1 \<and> cl_last_server_msg s \<le> ev_now (at_time 2)"
    by code_simp
  have "observed 1 (?ops @ [Ws_open (at_time 2) 1]) @ [On_message ''hello''] = ix_calls [Ix_open, Ix_message False ''hello'']"
    by code_simp
  from adapter_drives_client [OF runs this, of "''gone''" "[On_message ''late'']"]
  have both: "has_slot ?s 1 \<and> cl_last_server_msg ?s \<le> ev_now (at_time 2) \<longrightarrow> op_enabled sample_lib ?s (Ws_open (at_time 2) 1)"
    "1 = cl_conn_gen ?s \<and> \<not> cl_stopping ?s \<longrightarrow>
      run (client_step sample_lib) ?s (map (client_op_of (at_time 2) 1) [On_close ''gone'', On_message ''late''])
        = ws_close (at_time 2) 1 ''gone'' ?s"
    by simp_all
  show ?thesis
    unfolding Let_def using both(1) [THEN mp] both(2) [THEN mp] facts [unfolded Let_def] by metis
qed

end
